(* ===== verification/Prelude.thy ===== *)
theory Prelude
  imports Main "HOL-Library.Code_Target_Nat"
begin

text \<open>
  Shared vocabulary of the development: the outcome of running user code that may throw,
  reachability over labelled steps with the rule that lifts a one-step invariant, and generic
  lemmas on lists used by several components.
\<close>

section \<open>Running code that may throw\<close>

text \<open>
  A C++ callable that mutates a state and returns a value either returns normally or throws. The
  state at the throw is kept: what the callee changed before throwing stays changed.
\<close>

datatype ('s, 'a) outcome = Done 'a 's | Threw 's

type_synonym ('s, 'a) action = "'s \<Rightarrow> ('s, 'a) outcome"

fun outcome_state :: "('s, 'a) outcome \<Rightarrow> 's" where
  "outcome_state (Done a s) = s"
| "outcome_state (Threw s) = s"

fun returned :: "('s, 'a) outcome \<Rightarrow> bool" where
  "returned (Done a s) = True"
| "returned (Threw s) = False"

lemma returned_iff: "returned r \<longleftrightarrow> (\<exists>a s. r = Done a s)"
  by (cases r) auto

section \<open>Labelled steps, reachable states, invariants\<close>

inductive reachable :: "('s \<Rightarrow> bool) \<Rightarrow> ('s \<Rightarrow> 'e \<Rightarrow> 's \<Rightarrow> bool) \<Rightarrow> 's \<Rightarrow> bool"
  for init :: "'s \<Rightarrow> bool" and step :: "'s \<Rightarrow> 'e \<Rightarrow> 's \<Rightarrow> bool"
where
  reachable_init: "init s \<Longrightarrow> reachable init step s"
| reachable_step: "reachable init step s \<Longrightarrow> step s e t \<Longrightarrow> reachable init step t"

inductive run :: "('s \<Rightarrow> 'e \<Rightarrow> 's \<Rightarrow> bool) \<Rightarrow> 's \<Rightarrow> 'e list \<Rightarrow> 's \<Rightarrow> bool"
  for step :: "'s \<Rightarrow> 'e \<Rightarrow> 's \<Rightarrow> bool"
where
  run_nil: "run step s [] s"
| run_cons: "step s e t \<Longrightarrow> run step t es u \<Longrightarrow> run step s (e # es) u"

inductive_simps run_nil_simp [simp]: "run step s [] t"

inductive_simps run_cons_simp: "run step s (e # es) t"

lemma reachable_run: "run step s es t \<Longrightarrow> reachable init step s \<Longrightarrow> reachable init step t"
  by (induction rule: run.induct) (auto intro: reachable_step)

text \<open>A sequence of events run by a step function, None when some event is not possible.\<close>

fun exec :: "('s \<Rightarrow> 'e \<Rightarrow> 's option) \<Rightarrow> 's \<Rightarrow> 'e list \<Rightarrow> 's option" where
  "exec nxt s [] = Some s"
| "exec nxt s (e # es) = (case nxt s e of Some t \<Rightarrow> exec nxt t es | None \<Rightarrow> None)"

lemma exec_reachable:
  assumes "exec nxt s es = Some t" and "reachable init step s" and "\<And>s e t. nxt s e = Some t \<Longrightarrow> step s e t"
  shows "reachable init step t"
  using assms(1,2)
  by (induction es arbitrary: s) (auto split: option.splits intro: reachable_step assms(3))

lemma exec_run:
  assumes "exec nxt s es = Some t" and "\<And>s e t. nxt s e = Some t \<Longrightarrow> step s e t"
  shows "run step s es t"
  using assms(1)
  by (induction es arbitrary: s) (auto split: option.splits intro: run_cons assms(2))

lemma exec_append:
  "exec nxt s (xs @ ys) = (case exec nxt s xs of Some t \<Rightarrow> exec nxt t ys | None \<Rightarrow> None)"
  by (induction xs arbitrary: s) (auto split: option.split)

text \<open>
  The contract every stateful component offers: a predicate that holds at the start and is kept
  by every step. Its clients obtain the predicate for every reachable state and along every run.
\<close>

locale invariant_system =
  fixes init :: "'s \<Rightarrow> bool"
    and step :: "'s \<Rightarrow> 'e \<Rightarrow> 's \<Rightarrow> bool"
    and inv :: "'s \<Rightarrow> bool"
  assumes init_inv: "init s \<Longrightarrow> inv s"
    and step_inv: "inv s \<Longrightarrow> step s e t \<Longrightarrow> inv t"
begin

lemma reachable_inv: "reachable init step s \<Longrightarrow> inv s"
  by (induction rule: reachable.induct) (auto intro: init_inv step_inv)

lemma run_inv: "run step s es t \<Longrightarrow> inv s \<Longrightarrow> inv t"
  by (induction rule: run.induct) (auto intro: step_inv)

end

text \<open>
  Refinement of an abstract machine: each step of the concrete one stands for a list of abstract
  operations, and along a run these take the abstract machine from one abstraction to the other.
\<close>

fun trace_of :: "('s \<Rightarrow> 'e \<Rightarrow> 's option) \<Rightarrow> ('s \<Rightarrow> 'e \<Rightarrow> 'o list) \<Rightarrow> 's \<Rightarrow> 'e list \<Rightarrow> 'o list" where
  "trace_of nxt ops s [] = []"
| "trace_of nxt ops s (e # es) = ops s e @ (case nxt s e of Some t \<Rightarrow> trace_of nxt ops t es | None \<Rightarrow> [])"

locale simulation =
  fixes nxt :: "'s \<Rightarrow> 'e \<Rightarrow> 's option"
    and inv :: "'s \<Rightarrow> bool"
    and abs :: "'s \<Rightarrow> 'q"
    and ops :: "'s \<Rightarrow> 'e \<Rightarrow> 'o list"
    and abs_next :: "'q \<Rightarrow> 'o \<Rightarrow> 'q option"
  assumes keeps: "inv s \<Longrightarrow> nxt s e = Some t \<Longrightarrow> inv t"
    and simulates: "inv s \<Longrightarrow> nxt s e = Some t \<Longrightarrow> exec abs_next (abs s) (ops s e) = Some (abs t)"
begin

lemma run_simulates:
  "exec nxt s es = Some t \<Longrightarrow> inv s \<Longrightarrow> exec abs_next (abs s) (trace_of nxt ops s es) = Some (abs t)"
  by (induction es arbitrary: s) (auto simp: exec_append simulates keeps split: option.splits)

end

section \<open>Lists\<close>

text \<open>The first entry of an association list with the given key, the empty string without one.\<close>

definition first_value :: "('k \<times> 'a list) list \<Rightarrow> 'k \<Rightarrow> 'a list" where
  "first_value ps k = (case map_of ps k of None \<Rightarrow> [] | Some v \<Rightarrow> v)"

lemma first_value_Nil [simp]: "first_value [] k = []"
  by (simp add: first_value_def)

lemma first_value_Cons [simp]:
  "first_value ((k', v) # ps) k = (if k' = k then v else first_value ps k)"
  by (simp add: first_value_def)

lemma first_value_append:
  "first_value (ps @ qs) k = (if k \<in> fst ` set ps then first_value ps k else first_value qs k)"
  by (induction ps) (auto split: if_splits)

lemma first_value_absent: "k \<notin> fst ` set ps \<Longrightarrow> first_value ps k = []"
  by (induction ps) auto

lemma sum_list_map_update:
  fixes f :: "'a \<Rightarrow> nat"
  assumes "i < length xs"
  shows "sum_list (map f (xs[i := y])) + f (xs ! i) = sum_list (map f xs) + f y"
  using assms by (induction xs arbitrary: i) (auto split: nat.splits)

lemma sum_list_map_ge:
  fixes f :: "'a \<Rightarrow> nat"
  assumes "i < length xs"
  shows "f (xs ! i) \<le> sum_list (map f xs)"
  using elem_le_sum_list [of i "map f xs"] assms by simp

lemma sum_list_map_two:
  fixes f :: "'a \<Rightarrow> nat"
  assumes "i < length xs" and "j < length xs" and "i \<noteq> j"
  shows "f (xs ! i) + f (xs ! j) \<le> sum_list (map f xs)"
proof -
  have "(\<Sum>k\<in>{i, j}. f (xs ! k)) \<le> (\<Sum>k = 0..<length xs. f (xs ! k))"
    using assms by (intro sum_mono2) auto
  then show ?thesis using assms(3) by (simp add: sum_list_sum_nth)
qed

lemma count_list_distinct: "(\<And>x. count_list xs x \<le> 1) \<Longrightarrow> distinct xs"
proof (induction xs)
  case (Cons a xs)
  from Cons.prems [of a] have "a \<notin> set xs" by (simp add: count_list_0_iff)
  moreover have "count_list xs x \<le> 1" for x
    using Cons.prems [of x] by (simp split: if_splits)
  ultimately show ?case using Cons.IH by simp
qed simp

lemma drop_eq_Cons_nth: "i < length xs \<Longrightarrow> drop i xs = xs ! i # drop (Suc i) xs"
  by (rule Cons_nth_drop_Suc [symmetric])

lemma count_list_remove1 [simp]:
  "count_list (remove1 x xs) y = count_list xs y - (if x = y then 1 else 0)"
  by (induction xs) auto

lemma Suc_length_remove1: "x \<in> set xs \<Longrightarrow> Suc (length (remove1 x xs)) = length xs"
  by (induction xs) auto

end
