(* ===== verification/StdString.thy ===== *)
theory StdString
  imports Prelude
begin

text \<open>
  The operations of \<^verbatim>\<open>std::string\<close> and \<^verbatim>\<open>std::string_view\<close> the sources
  use, on char lists: \<^verbatim>\<open>find\<close> with a start position (None is \<^verbatim>\<open>npos\<close>),
  \<^verbatim>\<open>substr\<close>, \<^verbatim>\<open>find_first_of\<close>, the decimal conversion
  \<^verbatim>\<open>stoul\<close>, and ASCII case folding.
\<close>

fun index_of :: "char \<Rightarrow> string \<Rightarrow> nat option" where
  "index_of c [] = None"
| "index_of c (x # xs) = (if x = c then Some 0 else map_option Suc (index_of c xs))"

definition sv_find :: "string \<Rightarrow> char \<Rightarrow> nat \<Rightarrow> nat option" where
  "sv_find s c pos = map_option (\<lambda>i. i + pos) (index_of c (drop pos s))"

definition sv_substr :: "string \<Rightarrow> nat \<Rightarrow> nat \<Rightarrow> string" where
  "sv_substr s pos n = take n (drop pos s)"

fun starts_with :: "string \<Rightarrow> string \<Rightarrow> bool" where
  "starts_with [] s = True"
| "starts_with (x # xs) [] = False"
| "starts_with (x # xs) (y # ys) = (x = y \<and> starts_with xs ys)"

fun sv_find_str :: "string \<Rightarrow> string \<Rightarrow> nat option" where
  "sv_find_str [] pat = (if pat = [] then Some 0 else None)"
| "sv_find_str (x # xs) pat =
     (if starts_with pat (x # xs) then Some 0 else map_option Suc (sv_find_str xs pat))"

definition sv_find_first_of :: "string \<Rightarrow> string \<Rightarrow> bool" where
  "sv_find_first_of s cs = (\<exists>c \<in> set s. c \<in> set cs)"

definition digit_value :: "char \<Rightarrow> nat" where
  "digit_value c = of_char c - of_char (CHR ''0'')"

definition stoul :: "string \<Rightarrow> nat" where
  "stoul ds = foldl (\<lambda>n c. n * 10 + digit_value c) 0 ds"

definition ascii_tolower :: "char \<Rightarrow> char" where
  "ascii_tolower c = (if 65 \<le> (of_char c :: nat) \<and> (of_char c :: nat) \<le> 90
                      then char_of ((of_char c :: nat) + 32) else c)"

definition iequals :: "string \<Rightarrow> string \<Rightarrow> bool" where
  "iequals a b \<longleftrightarrow> map ascii_tolower a = map ascii_tolower b"

lemma iequals_refl [simp]: "iequals a a"
  by (simp add: iequals_def)

lemma iequals_sym: "iequals a b \<Longrightarrow> iequals b a"
  by (simp add: iequals_def)

lemma iequals_length: "iequals a b \<Longrightarrow> length a = length b"
  unfolding iequals_def by (metis length_map)

lemma index_of_Some:
  "index_of c s = Some i \<Longrightarrow> i < length s \<and> s ! i = c \<and> (\<forall>j<i. s ! j \<noteq> c)"
proof (induction c s arbitrary: i rule: index_of.induct)
  case (2 c x xs)
  show ?case
  proof (cases "x = c")
    case False
    with "2.prems" obtain k where "index_of c xs = Some k" "i = Suc k" by auto
    with "2.IH" [OF False] False show ?thesis by (auto simp: less_Suc_eq_0_disj)
  qed (use "2.prems" in auto)
qed simp

lemma index_of_None: "index_of c s = None \<longleftrightarrow> c \<notin> set s"
  by (induction s) auto

lemma sv_find_ge: "sv_find s c pos = Some i \<Longrightarrow> pos \<le> i"
  by (auto simp: sv_find_def)

lemma sv_find_less: "sv_find s c pos = Some i \<Longrightarrow> i < length s"
  by (auto simp: sv_find_def dest!: index_of_Some)

lemma sv_find_nth: "sv_find s c pos = Some i \<Longrightarrow> s ! i = c"
  using index_of_Some sv_find_less by (fastforce simp: sv_find_def add.commute)

lemma index_of_append_first: "c \<notin> set xs \<Longrightarrow> index_of c (xs @ c # ys) = Some (length xs)"
  by (induction xs) auto

lemma starts_with_iff: "starts_with p s \<longleftrightarrow> (\<exists>r. s = p @ r)"
  by (induction p s rule: starts_with.induct) auto

lemma starts_with_take: "starts_with p s \<longleftrightarrow> take (length p) s = p"
  by (induction p s rule: starts_with.induct) auto

lemma sv_find_str_Some: "sv_find_str s p = Some i \<Longrightarrow> \<exists>r. s = take i s @ p @ r \<and> i \<le> length s"
proof (induction s p arbitrary: i rule: sv_find_str.induct)
  case (2 x xs pat)
  show ?case
  proof (cases "starts_with pat (x # xs)")
    case True
    with "2.prems" show ?thesis by (auto simp: starts_with_iff)
  next
    case False
    with "2.prems" obtain k where k: "sv_find_str xs pat = Some k" "i = Suc k" by auto
    with "2.IH" [OF False] show ?thesis by auto
  qed
qed (auto split: if_splits)

end
