(* ===== verification/RouteParams.thy ===== *)
theory RouteParams
  imports Prelude
begin

text \<open>
  \<^verbatim>\<open>RouteParams\<close> of include/cppgate/Router.h: the path parameters of a matched route, held
  in an inline array of eight entries and, past those, in an overflow vector. The theory shows
  that this two-part store behaves as one list of pairs with first-match lookup.
\<close>

type_synonym param = "string \<times> string"

definition inline_capacity :: nat where
  "inline_capacity = 8"

record route_params =
  rp_items :: "param list"
  rp_count :: nat
  rp_overflow :: "param list"

definition RouteParams_init :: route_params where
  "RouteParams_init =
     \<lparr>rp_items = replicate inline_capacity ([], []), rp_count = 0, rp_overflow = []\<rparr>"

definition rp_add :: "string \<Rightarrow> string \<Rightarrow> route_params \<Rightarrow> route_params" where
  "rp_add key value p =
     (if rp_count p < inline_capacity
      then p\<lparr>rp_items := (rp_items p)[rp_count p := (key, value)], rp_count := rp_count p + 1\<rparr>
      else p\<lparr>rp_overflow := rp_overflow p @ [(key, value)]\<rparr>)"

text \<open>The index loop over the inline part, then the range loop over the overflow part.\<close>

function rp_scan_items :: "route_params \<Rightarrow> string \<Rightarrow> nat \<Rightarrow> string option" where
  "rp_scan_items p key i =
     (if i < rp_count p
      then if fst (rp_items p ! i) = key then Some (snd (rp_items p ! i))
           else rp_scan_items p key (i + 1)
      else None)"
  by pat_completeness auto
termination
  by (relation "measure (\<lambda>(p, key, i). rp_count p - i)") auto

declare rp_scan_items.simps [simp del]

fun rp_scan_overflow :: "param list \<Rightarrow> string \<Rightarrow> string option" where
  "rp_scan_overflow [] key = None"
| "rp_scan_overflow ((k, v) # ps) key = (if k = key then Some v else rp_scan_overflow ps key)"

definition rp_get :: "route_params \<Rightarrow> string \<Rightarrow> string" where
  "rp_get p key =
     (case rp_scan_items p key 0 of
        Some v \<Rightarrow> v
      | None \<Rightarrow> (case rp_scan_overflow (rp_overflow p) key of Some v \<Rightarrow> v | None \<Rightarrow> []))"

definition rp_size :: "route_params \<Rightarrow> nat" where
  "rp_size p = rp_count p + length (rp_overflow p)"

text \<open>\<^verbatim>\<open>forEach\<close> visits the inline entries by index, then the overflow entries.\<close>

definition rp_forEach :: "(string \<Rightarrow> string \<Rightarrow> 's \<Rightarrow> 's) \<Rightarrow> route_params \<Rightarrow> 's \<Rightarrow> 's" where
  "rp_forEach fn p s =
     fold (\<lambda>(k, v). fn k v) (rp_overflow p)
       (fold (\<lambda>i. fn (fst (rp_items p ! i)) (snd (rp_items p ! i))) [0..<rp_count p] s)"

definition rp_reset :: "route_params \<Rightarrow> route_params" where
  "rp_reset p = p\<lparr>rp_count := 0, rp_overflow := []\<rparr>"

section \<open>Abstraction to one list\<close>

definition rp_list :: "route_params \<Rightarrow> param list" where
  "rp_list p = take (rp_count p) (rp_items p) @ rp_overflow p"

definition rp_inv :: "route_params \<Rightarrow> bool" where
  "rp_inv p \<longleftrightarrow> length (rp_items p) = inline_capacity \<and> rp_count p \<le> inline_capacity
     \<and> (rp_overflow p \<noteq> [] \<longrightarrow> rp_count p = inline_capacity)"

lemma rp_inv_init [simp]: "rp_inv RouteParams_init"
  by (simp add: rp_inv_def RouteParams_init_def)

lemma rp_list_init [simp]: "rp_list RouteParams_init = []"
  by (simp add: rp_list_def RouteParams_init_def)

lemma rp_inv_add: "rp_inv p \<Longrightarrow> rp_inv (rp_add k v p)"
  by (auto simp: rp_inv_def rp_add_def)

lemma rp_list_add: "rp_inv p \<Longrightarrow> rp_list (rp_add k v p) = rp_list p @ [(k, v)]"
  by (auto simp: rp_inv_def rp_add_def rp_list_def take_Suc_conv_app_nth)

lemma rp_inv_reset: "rp_inv p \<Longrightarrow> rp_inv (rp_reset p)"
  by (simp add: rp_inv_def rp_reset_def)

lemma rp_list_reset [simp]: "rp_list (rp_reset p) = []"
  by (simp add: rp_list_def rp_reset_def)

lemma rp_scan_items_map_of:
  assumes "rp_count p \<le> length (rp_items p)"
  shows "rp_scan_items p key i = map_of (drop i (take (rp_count p) (rp_items p))) key"
  using assms
proof (induction p key i rule: rp_scan_items.induct)
  case (1 p key i)
  show ?case
  proof (cases "i < rp_count p")
    case True
    then have "drop i (take (rp_count p) (rp_items p))
        = (rp_items p ! i) # drop (Suc i) (take (rp_count p) (rp_items p))"
      using "1.prems" by (subst drop_eq_Cons_nth) auto
    with True show ?thesis
      using "1.IH" "1.prems" by (cases "rp_items p ! i") (simp add: rp_scan_items.simps [of p key i])
  qed (simp add: rp_scan_items.simps [of p key i])
qed

lemma rp_scan_overflow_map_of: "rp_scan_overflow ps key = map_of ps key"
  by (induction ps key rule: rp_scan_overflow.induct) auto

lemma rp_get_first: "rp_inv p \<Longrightarrow> rp_get p key = first_value (rp_list p) key"
  by (simp add: rp_inv_def rp_get_def rp_scan_items_map_of rp_scan_overflow_map_of rp_list_def
      first_value_def map_add_def map_of_append split: option.splits)

lemma rp_size_list: "rp_inv p \<Longrightarrow> rp_size p = length (rp_list p)"
  by (simp add: rp_inv_def rp_size_def rp_list_def)

lemma fold_index:
  assumes "n \<le> length xs"
  shows "fold (\<lambda>i. f (xs ! i)) [0..<n] s = fold f (take n xs) s"
  using assms by (induction n) (auto simp: take_Suc_conv_app_nth)

lemma rp_forEach_list:
  "rp_inv p \<Longrightarrow> rp_forEach fn p s = fold (\<lambda>(k, v). fn k v) (rp_list p) s"
  using fold_index [of "rp_count p" "rp_items p" "\<lambda>(k, v). fn k v" s]
  by (simp add: rp_inv_def rp_forEach_def rp_list_def case_prod_beta)

section \<open>The contract the router relies on\<close>

text \<open>
  A \<^verbatim>\<open>param_reader\<close> answers lookups as the first match of its entries; a
  \<^verbatim>\<open>param_store\<close> can also be emptied and appended to. The client code is the loop of
  \<^verbatim>\<open>Route::pathMatch\<close> that fills the store with the captures of a match.
\<close>

locale param_reader =
  fixes entries :: "'p \<Rightarrow> param list"
    and get :: "'p \<Rightarrow> string \<Rightarrow> string"
    and ok :: "'p \<Rightarrow> bool"
  assumes get_first: "ok p \<Longrightarrow> get p key = first_value (entries p) key"
begin

lemma get_absent: "ok p \<Longrightarrow> key \<notin> fst ` set (entries p) \<Longrightarrow> get p key = []"
  by (simp add: get_first first_value_absent)

lemma get_unique:
  assumes "ok p" and "distinct (map fst (entries p))" and "(key, v) \<in> set (entries p)"
  shows "get p key = v"
  using assms by (simp add: get_first first_value_def)

end

locale param_store = param_reader entries get ok
  for entries :: "'p \<Rightarrow> param list"
    and get :: "'p \<Rightarrow> string \<Rightarrow> string"
    and ok :: "'p \<Rightarrow> bool" +
  fixes reset :: "'p \<Rightarrow> 'p"
    and add :: "string \<Rightarrow> string \<Rightarrow> 'p \<Rightarrow> 'p"
  assumes reset_ok: "ok p \<Longrightarrow> ok (reset p)"
    and reset_entries: "ok p \<Longrightarrow> entries (reset p) = []"
    and add_ok: "ok p \<Longrightarrow> ok (add k v p)"
    and add_entries: "ok p \<Longrightarrow> entries (add k v p) = entries p @ [(k, v)]"
begin

lemma fill_ok: "ok p \<Longrightarrow> ok (fold (\<lambda>(k, v). add k v) kvs p)"
  by (induction kvs arbitrary: p) (auto simp: add_ok)

lemma fill_entries: "ok p \<Longrightarrow> entries (fold (\<lambda>(k, v). add k v) kvs p) = entries p @ kvs"
  by (induction kvs arbitrary: p) (auto simp: add_ok add_entries)

lemma refill_get:
  "ok p \<Longrightarrow> get (fold (\<lambda>(k, v). add k v) kvs (reset p)) key = first_value kvs key"
  by (simp add: get_first fill_ok fill_entries reset_ok reset_entries)

end

interpretation route_store: param_store rp_list rp_get rp_inv rp_reset rp_add
  by unfold_locales (simp_all add: rp_get_first rp_inv_reset rp_inv_add rp_list_add)

end
