(* ===== verification/RoutePattern.thy ===== *)
theory RoutePattern
  imports StdString RouteParams
begin

text \<open>
  Route templates of sources/Core/Router.cpp: \<^verbatim>\<open>Route::createRegexPattern\<close>, which turns a
  path such as \<^verbatim>\<open>/users/{id}\<close> into a regular expression and a list of parameter names,
  and \<^verbatim>\<open>Route::pathMatch\<close>, which binds the captures of a match to those names. RE2 is a
  parameter; its laws cover the two patterns the parser consumes with and the expressions made of
  literals and default parameters.
\<close>

section \<open>RE2, a parameter\<close>

text \<open>
  \<open>re_consume p s\<close> is \<^verbatim>\<open>Consume(&s, p, ...)\<close>: the captures and the input left,
  None when \<open>p\<close> does not match at the front. \<open>re_match r s n\<close> is an
  \<^verbatim>\<open>ANCHOR_BOTH\<close> match with \<open>n\<close> submatches.
\<close>

record 'p re2 =
  re_consume :: "string \<Rightarrow> string \<Rightarrow> (string list \<times> string) option"
  re_quote :: "string \<Rightarrow> string"
  re_compile :: "string \<Rightarrow> 'p"
  re_ok :: "'p \<Rightarrow> bool"
  re_match :: "'p \<Rightarrow> string \<Rightarrow> nat \<Rightarrow> string list option"

definition prefix_pattern :: string where
  "prefix_pattern = ''([^{]*)''"

definition block_pattern :: string where
  "block_pattern = CHR 0x5C # ''{([a-zA-Z0-9_]+)(?::([^}]+))?'' @ CHR 0x5C # ''}''"

section \<open>Building the expression\<close>

text \<open>The \<^verbatim>\<open>while\<close> loop: names and expression so far, and the input left.\<close>

partial_function (option) regex_loop ::
  "'p re2 \<Rightarrow> string \<Rightarrow> string list \<Rightarrow> string \<Rightarrow> (string list \<times> string) option" where
  "regex_loop R input names pat =
     (case re_consume R prefix_pattern input of
        None \<Rightarrow> Some (names, pat)
      | Some (caps, input1) \<Rightarrow>
          (let pat1 = pat @ re_quote R (caps ! 0) in
           case re_consume R block_pattern input1 of
             None \<Rightarrow> Some (names, pat1)
           | Some (caps2, input2) \<Rightarrow>
               regex_loop R input2 (names @ [caps2 ! 0])
                 (if caps2 ! 1 = [] then pat1 @ ''([^/]+)''
                  else pat1 @ ''('' @ caps2 ! 1 @ '')'')))"

definition createRegexPattern :: "'p re2 \<Rightarrow> string \<Rightarrow> (string list \<times> string) option" where
  "createRegexPattern R path =
     map_option (\<lambda>(names, pat). (names, pat @ ''/?$'')) (regex_loop R path [] ''^'')"

section \<open>Matching a path\<close>

text \<open>The capture array: on the stack up to the inline capacity, a vector of its own past it.\<close>

definition capture_slots :: "nat \<Rightarrow> nat" where
  "capture_slots num_params =
     (if num_params > inline_capacity then num_params + 1 else inline_capacity + 1)"

definition store_captures :: "string list \<Rightarrow> nat \<Rightarrow> string list" where
  "store_captures cs slots = take slots (cs @ replicate (slots - length cs) [])"

definition path_match ::
  "'p re2 \<Rightarrow> 'p \<Rightarrow> string list \<Rightarrow> string \<Rightarrow> route_params \<Rightarrow> bool \<times> route_params" where
  "path_match R pattern param_names input params =
     (let num_params = length param_names; params1 = rp_reset params in
      case re_match R pattern input (num_params + 1) of
        Some cs \<Rightarrow>
          (let captures = store_captures cs (capture_slots num_params) in
           (True, fold (\<lambda>i. rp_add (param_names ! i) (captures ! (i + 1))) [0..<num_params] params1))
      | None \<Rightarrow> (False, params1))"

section \<open>What RE2 guarantees\<close>

definition word_char :: "char \<Rightarrow> bool" where
  "word_char c \<longleftrightarrow> c \<in> set ''abcdefghijklmnopqrstuvwxyzABCDEFGHIJKLMNOPQRSTUVWXYZ0123456789_''"

definition ascii :: "string \<Rightarrow> bool" where
  "ascii s \<longleftrightarrow> (\<forall>c \<in> set s. (of_char c :: nat) < 128)"

text \<open>One parameter block at the front of the input: name, expression (empty without one), rest.\<close>

fun block_tail :: "string \<Rightarrow> string \<Rightarrow> (string list \<times> string) option" where
  "block_tail name [] = None"
| "block_tail name (c # t) =
     (if c = CHR ''}'' then Some ([name, []], t)
      else if c = CHR '':'' then
        (case dropWhile (\<lambda>d. d \<noteq> CHR ''}'') t of
           [] \<Rightarrow> None
         | _ # u \<Rightarrow> (let e = takeWhile (\<lambda>d. d \<noteq> CHR ''}'') t in
                      if e = [] then None else Some ([name, e], u)))
      else None)"

fun parse_block :: "string \<Rightarrow> (string list \<times> string) option" where
  "parse_block [] = None"
| "parse_block (c # r) =
     (if c = CHR ''{'' \<and> takeWhile word_char r \<noteq> []
      then block_tail (takeWhile word_char r) (dropWhile word_char r)
      else None)"

text \<open>
  Matching \<^verbatim>\<open>^l0([^/]+)l1([^/]+)l2.../?$\<close>: each capture takes as many characters as
  still let the rest match. The list holds the literals that follow the parameters.
\<close>

fun try_capture :: "(string \<Rightarrow> string list option) \<Rightarrow> string \<Rightarrow> nat \<Rightarrow> string list option" where
  "try_capture rest s 0 = None"
| "try_capture rest s (Suc n) =
     (case rest (drop (Suc n) s) of
        Some cs \<Rightarrow> Some (take (Suc n) s # cs)
      | None \<Rightarrow> try_capture rest s n)"

primrec match_tail :: "string list \<Rightarrow> string \<Rightarrow> string list option" where
  "match_tail [] s = (if s = [] \<or> s = ''/'' then Some [] else None)"
| "match_tail (l # ls) s =
     try_capture (\<lambda>t. if starts_with l t then match_tail ls (drop (length l) t) else None) s
       (length (takeWhile (\<lambda>c. c \<noteq> CHR ''/'') s))"

definition template_match :: "string \<Rightarrow> string list \<Rightarrow> string \<Rightarrow> string list option" where
  "template_match l0 ls s = (if starts_with l0 s then match_tail ls (drop (length l0) s) else None)"

definition literal_regex :: "'p re2 \<Rightarrow> string \<Rightarrow> string list \<Rightarrow> string" where
  "literal_regex R l0 ls =
     ''^'' @ re_quote R l0 @ concat (map (\<lambda>l. ''([^/]+)'' @ re_quote R l) ls) @ ''/?$''"

definition re2_ok :: "'p re2 \<Rightarrow> bool" where
  "re2_ok R \<longleftrightarrow>
     (\<forall>s. ascii s \<longrightarrow> re_consume R prefix_pattern s
        = Some ([takeWhile (\<lambda>c. c \<noteq> CHR ''{'') s], dropWhile (\<lambda>c. c \<noteq> CHR ''{'') s))
   \<and> (\<forall>s. ascii s \<longrightarrow> re_consume R block_pattern s = parse_block s)
   \<and> (\<forall>r s n cs. re_match R r s n = Some cs \<longrightarrow> length cs = n)
   \<and> (\<forall>l0 ls s. ascii l0 \<longrightarrow> (\<forall>l \<in> set ls. ascii l) \<longrightarrow> ascii s
        \<longrightarrow> re_ok R (re_compile R (literal_regex R l0 ls))
        \<longrightarrow> re_match R (re_compile R (literal_regex R l0 ls)) s (length ls + 1)
              = map_option ((#) s) (template_match l0 ls s))"

lemma re2_okD:
  assumes "re2_ok R"
  shows re2_prefix: "ascii s \<Longrightarrow> re_consume R prefix_pattern s
        = Some ([takeWhile (\<lambda>c. c \<noteq> CHR ''{'') s], dropWhile (\<lambda>c. c \<noteq> CHR ''{'') s)"
    and re2_block: "ascii s \<Longrightarrow> re_consume R block_pattern s = parse_block s"
    and re2_length: "re_match R r s n = Some cs \<Longrightarrow> length cs = n"
    and re2_literal: "ascii l0 \<Longrightarrow> \<forall>l \<in> set ls. ascii l \<Longrightarrow> ascii s
        \<Longrightarrow> re_ok R (re_compile R (literal_regex R l0 ls))
        \<Longrightarrow> re_match R (re_compile R (literal_regex R l0 ls)) s (length ls + 1)
              = map_option ((#) s) (template_match l0 ls s)"
  using assms unfolding re2_ok_def by blast+

lemma ascii_simps [simp]:
  "ascii []" "ascii (xs @ ys) \<longleftrightarrow> ascii xs \<and> ascii ys"
  by (auto simp: ascii_def)

lemma ascii_Cons [simp]: "ascii (c # xs) \<longleftrightarrow> (of_char c :: nat) < 128 \<and> ascii xs"
  by (simp add: ascii_def)

section \<open>Matches and their bindings\<close>

lemma fold_zip_index:
  assumes "length xs = length ys"
  shows "fold (\<lambda>i. f (xs ! i) (ys ! i)) [0..<length xs] s = fold (\<lambda>(x, y). f x y) (zip xs ys) s"
proof -
  have "fold (\<lambda>i. f (xs ! i) (ys ! i)) [0..<length xs] s
      = fold (\<lambda>i. case zip xs ys ! i of (x, y) \<Rightarrow> f x y) [0..<length xs] s"
    using assms by (intro fold_cong) auto
  also have "\<dots> = fold (\<lambda>(x, y). f x y) (zip xs ys) s"
    using fold_index [of "length xs" "zip xs ys" "\<lambda>(x, y). f x y" s] assms by simp
  finally show ?thesis .
qed

lemma store_captures_nth:
  "i < length cs \<Longrightarrow> length cs \<le> slots \<Longrightarrow> store_captures cs slots ! i = cs ! i"
  by (simp add: store_captures_def nth_append)

lemma path_match_bindings:
  assumes "re_match R pattern input (length names + 1) = Some cs" and "length cs = length names + 1"
  shows "path_match R pattern names input params
           = (True, fold (\<lambda>(k, v). rp_add k v) (zip names (tl cs)) (rp_reset params))"
proof -
  let ?n = "length names"
  have slots: "length cs \<le> capture_slots ?n" using assms(2) by (simp add: capture_slots_def)
  have "fold (\<lambda>i. rp_add (names ! i) (store_captures cs (capture_slots ?n) ! (i + 1))) [0..<?n] s
      = fold (\<lambda>i. rp_add (names ! i) (tl cs ! i)) [0..<?n] s" for s
    using assms(2) slots
    by (intro fold_cong refl) (simp add: store_captures_nth nth_tl)
  also have "\<dots> s = fold (\<lambda>(k, v). rp_add k v) (zip names (tl cs)) s" for s
    using assms(2) by (intro fold_zip_index) simp
  finally show ?thesis using assms(1) by (simp add: path_match_def Let_def)
qed

lemma path_match_ok: "rp_inv p \<Longrightarrow> rp_inv (snd (path_match R pattern names input p))"
proof -
  have "rp_inv p \<Longrightarrow> rp_inv (fold (\<lambda>i. rp_add (f i) (g i)) is p)" for p f g and "is" :: "nat list"
    by (induction "is" arbitrary: p) (auto simp: rp_inv_add)
  then show "rp_inv p \<Longrightarrow> rp_inv (snd (path_match R pattern names input p))"
    by (auto simp: path_match_def Let_def rp_inv_reset split: option.splits)
qed

section \<open>Templates\<close>

text \<open>
  A well-formed template: blocks of a literal, a parameter name and an expression (empty for the
  default one), then a last literal. It is printed with braces, and compiled piece by piece.
\<close>

type_synonym block = "string \<times> string \<times> string"

definition block_text :: "block \<Rightarrow> string" where
  "block_text b = (case b of (l, n, e) \<Rightarrow>
     l @ CHR ''{'' # n @ (if e = [] then [] else CHR '':'' # e) @ ''}'')"

definition template_text :: "block list \<Rightarrow> string \<Rightarrow> string" where
  "template_text bs l = concat (map block_text bs) @ l"

definition block_wf :: "block \<Rightarrow> bool" where
  "block_wf b \<longleftrightarrow> (case b of (l, n, e) \<Rightarrow>
     ascii l \<and> CHR ''{'' \<notin> set l \<and> n \<noteq> [] \<and> (\<forall>c \<in> set n. word_char c)
     \<and> ascii e \<and> CHR ''}'' \<notin> set e)"

definition block_regex :: "'p re2 \<Rightarrow> block \<Rightarrow> string" where
  "block_regex R b = (case b of (l, n, e) \<Rightarrow>
     re_quote R l @ ''('' @ (if e = [] then ''[^/]+'' else e) @ '')'')"

definition block_name :: "block \<Rightarrow> string" where
  "block_name b = fst (snd b)"

lemma word_char_ascii: "word_char c \<Longrightarrow> (of_char c :: nat) < 128"
  unfolding word_char_def by auto

lemma word_chars_ascii: "\<forall>c \<in> set n. word_char c \<Longrightarrow> ascii n"
  by (auto simp: ascii_def word_char_ascii)

lemma block_text_ascii: "block_wf b \<Longrightarrow> ascii (block_text b)"
  by (auto simp: block_wf_def block_text_def word_chars_ascii split: prod.splits)

lemma template_text_ascii: "\<forall>b \<in> set bs. block_wf b \<Longrightarrow> ascii l \<Longrightarrow> ascii (template_text bs l)"
  by (induction bs) (auto simp: template_text_def block_text_ascii)

lemma span_literal:
  assumes "c \<notin> set l" and "t = [] \<or> hd t = c"
  shows "takeWhile (\<lambda>d. d \<noteq> c) (l @ t) = l" "dropWhile (\<lambda>d. d \<noteq> c) (l @ t) = t"
  using assms by (cases t; induction l; auto)+

lemma span_word:
  assumes "\<forall>c \<in> set n. word_char c" and "\<not> word_char d"
  shows "takeWhile word_char (n @ d # t) = n" "dropWhile word_char (n @ d # t) = d # t"
  using assms by (induction n) auto

lemma not_word_char [simp]: "\<not> word_char (CHR ''}'')" "\<not> word_char (CHR '':'')"
  by (simp_all add: word_char_def)

lemma parse_block_text:
  assumes "n \<noteq> []" and "\<forall>c \<in> set n. word_char c" and "CHR ''}'' \<notin> set e"
  shows "parse_block (CHR ''{'' # n @ (if e = [] then [] else CHR '':'' # e) @ CHR ''}'' # t)
           = Some ([n, e], t)"
  using assms span_literal [OF assms(3), of "CHR ''}'' # t"]
  by (auto simp: span_word [OF assms(2)])

lemma regex_loop_template:
  assumes "re2_ok R" and "\<forall>b \<in> set bs. block_wf b" and "ascii l" and "CHR ''{'' \<notin> set l"
    and "ascii t" and "t = [] \<or> hd t = CHR ''{''" and "parse_block t = None"
  shows "regex_loop R (template_text bs l @ t) names pat
    = Some (names @ map block_name bs, pat @ concat (map (block_regex R) bs) @ re_quote R l)"
  using assms(2)
proof (induction bs arbitrary: names pat)
  case Nil
  have "re_consume R prefix_pattern (l @ t) = Some ([l], t)"
    using assms by (simp add: re2_prefix span_literal)
  moreover have "re_consume R block_pattern t = None" using assms by (simp add: re2_block)
  ultimately show ?case by (subst regex_loop.simps) (simp add: template_text_def)
next
  case (Cons b bs)
  obtain l0 n e where b: "b = (l0, n, e)" by (cases b)
  define u where "u = template_text bs l @ t"
  define blk where "blk = CHR ''{'' # n @ (if e = [] then [] else CHR '':'' # e) @ CHR ''}'' # u"
  from Cons.prems b have wf: "ascii l0" "CHR ''{'' \<notin> set l0" "n \<noteq> []" "\<forall>c \<in> set n. word_char c"
    "ascii e" "CHR ''}'' \<notin> set e" by (auto simp: block_wf_def)
  have ascii: "ascii u" "ascii blk"
    using Cons.prems assms wf
    by (auto simp: u_def blk_def template_text_ascii word_chars_ascii)
  have printed: "template_text (b # bs) l @ t = l0 @ blk"
    by (simp add: template_text_def block_text_def b blk_def u_def)
  have "re_consume R prefix_pattern (l0 @ blk) = Some ([l0], blk)"
    using assms(1) ascii wf span_literal [OF wf(2), of blk] by (simp add: re2_prefix blk_def)
  moreover have "re_consume R block_pattern blk = Some ([n, e], u)"
    using assms(1) ascii parse_block_text [OF wf(3,4,6), of u] by (simp add: re2_block blk_def)
  ultimately have "regex_loop R (l0 @ blk) names pat
      = regex_loop R u (names @ [n]) (pat @ block_regex R b)"
    by (subst regex_loop.simps) (simp add: block_regex_def b)
  with Cons.IH [of "names @ [n]" "pat @ block_regex R b"] Cons.prems printed show ?case
    by (simp add: u_def block_name_def b)
qed

lemma createRegexPattern_template_rest:
  assumes "re2_ok R" and "\<forall>b \<in> set bs. block_wf b" and "ascii l" and "CHR ''{'' \<notin> set l"
    and "ascii t" and "t = [] \<or> hd t = CHR ''{''" and "parse_block t = None"
  shows "createRegexPattern R (template_text bs l @ t)
    = Some (map block_name bs,
        ''^'' @ concat (map (block_regex R) bs) @ re_quote R l @ ''/?$'')"
  using regex_loop_template [OF assms, of "[]" "''^''"] by (simp add: createRegexPattern_def)

text \<open>The loop ends on every input: each turn but the last consumes a block.\<close>

lemma parse_block_Some:
  assumes "parse_block s = Some (caps, t)"
  shows "\<exists>r d w. s = CHR ''{'' # r \<and> dropWhile word_char r = d # w
    \<and> (t = w \<or> (\<exists>e. dropWhile (\<lambda>d. d \<noteq> CHR ''}'') w = e # t))"
proof (cases s)
  case (Cons c r)
  with assms have tail: "c = CHR ''{''"
    "block_tail (takeWhile word_char r) (dropWhile word_char r) = Some (caps, t)"
    by (auto split: if_splits)
  then obtain d w where dw: "dropWhile word_char r = d # w"
    by (cases "dropWhile word_char r") (simp_all only: block_tail.simps, auto)
  from tail(2) have "t = w \<or> (\<exists>e. dropWhile (\<lambda>d. d \<noteq> CHR ''}'') w = e # t)"
    unfolding dw by (auto split: if_splits list.splits simp: Let_def)
  with dw tail(1) Cons show ?thesis by blast
qed (use assms in simp)

lemma parse_block_shorter: "parse_block s = Some (caps, t) \<Longrightarrow> length t < length s"
proof -
  assume "parse_block s = Some (caps, t)"
  then obtain r d w where s: "s = CHR ''{'' # r" "dropWhile word_char r = d # w"
    "t = w \<or> (\<exists>e. dropWhile (\<lambda>d. d \<noteq> CHR ''}'') w = e # t)"
    using parse_block_Some by blast
  then have "length t \<le> length w"
    using length_dropWhile_le [of "\<lambda>d. d \<noteq> CHR ''}''" w] by auto
  moreover have "length (d # w) \<le> length r" unfolding s(2) [symmetric] by (rule length_dropWhile_le)
  ultimately show "length t < length s" using s by simp
qed

lemma dropWhile_ascii: "ascii s \<Longrightarrow> ascii (dropWhile P s)"
  by (auto simp: ascii_def dest: set_dropWhileD)

lemma parse_block_ascii: "parse_block s = Some (caps, t) \<Longrightarrow> ascii s \<Longrightarrow> ascii t"
proof -
  assume *: "parse_block s = Some (caps, t)" "ascii s"
  then obtain r d w where s: "s = CHR ''{'' # r" "dropWhile word_char r = d # w"
    "t = w \<or> (\<exists>e. dropWhile (\<lambda>d. d \<noteq> CHR ''}'') w = e # t)"
    using parse_block_Some by blast
  with * dropWhile_ascii [of r word_char] have w: "ascii w" by simp
  with s(3) dropWhile_ascii [OF w, of "\<lambda>d. d \<noteq> CHR ''}''"] show "ascii t" by auto
qed

lemma regex_loop_total:
  assumes "re2_ok R" and "ascii s"
  shows "\<exists>r. regex_loop R s names pat = Some r"
  using assms(2)
proof (induction "length s" arbitrary: s names pat rule: less_induct)
  case less
  let ?t = "dropWhile (\<lambda>c. c \<noteq> CHR ''{'') s"
  have t: "ascii ?t" "length ?t \<le> length s"
    using less.prems by (auto simp: ascii_def length_dropWhile_le dest: set_dropWhileD)
  show ?case
  proof (cases "parse_block ?t")
    case None
    then show ?thesis using less.prems assms(1) t
      by (subst regex_loop.simps) (simp add: re2_prefix re2_block)
  next
    case (Some cu)
    obtain caps u where cu: "cu = (caps, u)" by (cases cu)
    with Some t parse_block_shorter parse_block_ascii have u: "length u < length s" "ascii u"
      by (fastforce, blast)
    with Some cu less.hyps [OF u(1,2)] show ?thesis using less.prems assms(1) t
      by (subst regex_loop.simps) (simp add: re2_prefix re2_block Let_def)
  qed
qed

lemma createRegexPattern_total:
  "re2_ok R \<Longrightarrow> ascii s \<Longrightarrow> \<exists>r. createRegexPattern R s = Some r"
  using regex_loop_total [of R s "[]" "''^''"] by (auto simp: createRegexPattern_def)

section \<open>URLs made from a template\<close>

text \<open>
  The URL of a template with a value for every parameter, and the templates for which no value
  without a slash can be cut anywhere else: every literal between two parameters starts with one.
\<close>

definition fill_url :: "string \<Rightarrow> string list \<Rightarrow> string list \<Rightarrow> string" where
  "fill_url l0 ls vs = l0 @ concat (map (\<lambda>(v, l). v @ l) (zip vs ls))"

fun separated :: "string list \<Rightarrow> bool" where
  "separated [] = True"
| "separated [l] = (l = [] \<or> hd l = CHR ''/'')"
| "separated (l # l' # ls) = (l \<noteq> [] \<and> hd l = CHR ''/'' \<and> separated (l' # ls))"

definition slash_free :: "string \<Rightarrow> bool" where
  "slash_free v \<longleftrightarrow> v \<noteq> [] \<and> CHR ''/'' \<notin> set v"

definition optional_slash :: "string \<Rightarrow> bool" where
  "optional_slash s \<longleftrightarrow> s = [] \<or> s = ''/''"

lemma try_capture_first:
  assumes "v \<noteq> []" and "rest t = Some cs"
  shows "try_capture rest (v @ t) (length v) = Some (v # cs)"
  using assms by (cases "length v") (auto split: option.splits)

lemma match_tail_fill:
  assumes "length vs = length ls" and "separated ls" and "\<forall>v \<in> set vs. slash_free v"
    and "optional_slash e"
  shows "match_tail ls (concat (map (\<lambda>(v, l). v @ l) (zip vs ls)) @ e) = Some vs"
  using assms
proof (induction ls arbitrary: vs)
  case (Cons l ls)
  then obtain v vs' where vs: "vs = v # vs'" by (cases vs) auto
  define r where "r = concat (map (\<lambda>(v, l). v @ l) (zip vs' ls)) @ e"
  have sep: "separated ls" using Cons.prems(2) by (cases ls) auto
  have "l = [] \<Longrightarrow> ls = [] \<and> vs' = []" using Cons.prems vs by (cases ls) auto
  moreover have "l \<noteq> [] \<Longrightarrow> hd l = CHR ''/''" using Cons.prems by (cases ls) auto
  ultimately have "l @ r = [] \<or> hd (l @ r) = CHR ''/''"
    using Cons.prems(4) by (cases "l = []") (auto simp: r_def optional_slash_def)
  then have "takeWhile (\<lambda>c. c \<noteq> CHR ''/'') (v @ l @ r) = v"
    using Cons.prems(3) vs by (intro span_literal) (auto simp: slash_free_def)
  moreover have "match_tail ls r = Some vs'"
    using Cons.IH [of vs'] Cons.prems sep vs by (simp add: r_def)
  moreover have "starts_with l (l @ r)" by (auto simp: starts_with_iff)
  ultimately have "match_tail (l # ls) (v @ l @ r) = Some (v # vs')"
    using Cons.prems(3) vs try_capture_first [of v _ "l @ r"] by (simp add: slash_free_def)
  then show ?case by (simp add: vs r_def)
qed (auto simp: optional_slash_def)

lemma template_match_fill:
  assumes "length vs = length ls" and "separated ls" and "\<forall>v \<in> set vs. slash_free v"
    and "optional_slash e"
  shows "template_match l0 ls (fill_url l0 ls vs @ e) = Some vs"
  using match_tail_fill [OF assms] by (auto simp: template_match_def fill_url_def starts_with_iff)

definition literals :: "block list \<Rightarrow> string \<Rightarrow> string list" where
  "literals bs l = map fst bs @ [l]"

lemma literal_regex_blocks:
  assumes "\<forall>b \<in> set bs. snd (snd b) = []"
  shows "''^'' @ concat (map (block_regex R) bs) @ re_quote R l @ ''/?$''
    = literal_regex R (hd (literals bs l)) (tl (literals bs l))"
proof -
  have "concat (map (block_regex R) bs) @ re_quote R l
      = re_quote R (hd (literals bs l))
          @ concat (map (\<lambda>l. ''([^/]+)'' @ re_quote R l) (tl (literals bs l)))"
    using assms
  proof (induction bs)
    case (Cons b bs)
    then show ?case
      by (cases bs) (auto simp: literals_def block_regex_def split: prod.splits)
  qed (simp add: literals_def)
  then show ?thesis by (simp add: literal_regex_def)
qed

lemma literals_ascii:
  assumes "\<forall>b \<in> set bs. block_wf b" and "ascii l"
  shows "\<forall>x \<in> set (literals bs l). ascii x"
  using assms by (auto simp: literals_def block_wf_def)

lemma literals_split:
  "literals bs l = hd (literals bs l) # tl (literals bs l)"
  by (simp add: literals_def)

lemma fill_url_ascii:
  assumes "ascii l0" and "\<forall>l \<in> set ls. ascii l" and "\<forall>v \<in> set vs. ascii v"
  shows "ascii (fill_url l0 ls vs)"
proof -
  have "\<forall>l \<in> set ls. ascii l \<Longrightarrow> \<forall>v \<in> set vs. ascii v
      \<Longrightarrow> ascii (concat (map (\<lambda>(v, l). v @ l) (zip vs ls)))"
    by (induction vs ls rule: list_induct2') auto
  with assms show ?thesis by (simp add: fill_url_def)
qed

lemma match_filled_template:
  assumes "re2_ok R" and "\<forall>b \<in> set bs. block_wf b \<and> snd (snd b) = []" and "ascii l"
    and "CHR ''{'' \<notin> set l" and "createRegexPattern R (template_text bs l) = Some (names, pat)"
    and "re_ok R (re_compile R pat)" and "separated (tl (literals bs l))"
    and "length vs = length bs" and "\<forall>v \<in> set vs. slash_free v \<and> ascii v" and "optional_slash e"
  shows "re_match R (re_compile R pat) (fill_url (hd (literals bs l)) (tl (literals bs l)) vs @ e)
           (length names + 1)
    = Some ((fill_url (hd (literals bs l)) (tl (literals bs l)) vs @ e) # vs)"
    and "names = map block_name bs"
proof -
  let ?l0 = "hd (literals bs l)" and ?ls = "tl (literals bs l)"
  have names: "names = map block_name bs"
    and pat: "pat = literal_regex R ?l0 ?ls"
    using createRegexPattern_template_rest [OF assms(1) _ assms(3,4), of bs "[]"] assms(2,5)
      literal_regex_blocks [of bs R l] by auto
  have lits: "ascii ?l0" "\<forall>x \<in> set ?ls. ascii x"
    using literals_ascii [of bs l] literals_split [of bs l] assms(2,3)
    by (metis list.set_intros(1), metis list.set_intros(2))
  have len: "length vs = length ?ls" "length names = length ?ls"
    using assms(8) names by (simp_all add: literals_def)
  have "ascii (fill_url ?l0 ?ls vs @ e)"
    using fill_url_ascii [OF lits, of vs] assms(9,10) by (auto simp: optional_slash_def)
  with re2_literal [OF assms(1) lits, of "fill_url ?l0 ?ls vs @ e"] assms(6) pat len
    template_match_fill [OF len(1) assms(7) _ assms(10)] assms(9)
  show "re_match R (re_compile R pat) (fill_url ?l0 ?ls vs @ e) (length names + 1)
    = Some ((fill_url ?l0 ?ls vs @ e) # vs)" by auto
  show "names = map block_name bs" by (rule names)
qed

section \<open>An RE2 for closed examples\<close>

text \<open>
  It escapes every character that is not a word character, keeps the expression as text, and
  matches by reading the literals back.
\<close>

fun read_literals :: "string \<Rightarrow> string \<Rightarrow> string list" where
  "read_literals acc [] = [acc]"
| "read_literals acc (c # cs) =
     (if c = CHR 0x5C then (case cs of [] \<Rightarrow> [acc] | d # ds \<Rightarrow> read_literals (acc @ [d]) ds)
      else if c = CHR ''('' then acc # read_literals [] (drop 6 cs)
      else if c = CHR ''/'' then [acc]
      else read_literals (acc @ [c]) cs)"

definition quote_char :: "char \<Rightarrow> string" where
  "quote_char c = (if word_char c then [c] else [CHR 0x5C, c])"

definition pad :: "nat \<Rightarrow> string list \<Rightarrow> string list" where
  "pad n cs = take n (cs @ replicate n [])"

definition example_re2 :: "string re2" where
  "example_re2 =
     \<lparr>re_consume = (\<lambda>p s.
        if p = prefix_pattern then
          Some ([takeWhile (\<lambda>c. c \<noteq> CHR ''{'') s], dropWhile (\<lambda>c. c \<noteq> CHR ''{'') s)
        else if p = block_pattern then parse_block s else None),
      re_quote = (\<lambda>s. concat (map quote_char s)),
      re_compile = (\<lambda>p. p),
      re_ok = (\<lambda>r. True),
      re_match = (\<lambda>r s n.
        let ls = read_literals [] (tl r) in
        map_option (\<lambda>cs. pad n (s # cs)) (template_match (hd ls) (tl ls) s))\<rparr>"

lemma read_quoted:
  "read_literals acc (concat (map quote_char l) @ rest) = read_literals (acc @ l) rest"
  by (induction l arbitrary: acc) (auto simp: quote_char_def word_char_def)

lemma read_literal_regex:
  "read_literals [] (tl (literal_regex example_re2 l0 ls)) = l0 # ls"
proof -
  have "read_literals acc (concat (map (\<lambda>l. ''([^/]+)'' @ concat (map quote_char l)) ls) @ ''/?$'')
      = acc # ls" for acc
    by (induction ls arbitrary: acc) (simp_all add: read_quoted)
  then show ?thesis by (simp add: literal_regex_def example_re2_def read_quoted)
qed

lemma try_capture_length:
  assumes "try_capture rest s n = Some cs" and "\<And>t ds. rest t = Some ds \<Longrightarrow> length ds = k"
  shows "length cs = Suc k"
  using assms by (induction n) (auto split: option.splits)

lemma match_tail_length: "match_tail ls s = Some cs \<Longrightarrow> length cs = length ls"
proof (induction ls arbitrary: s cs)
  case (Cons l ls)
  from Cons.prems show ?case
    by (auto dest!: try_capture_length [where k = "length ls"] split: if_splits intro: Cons.IH)
qed (auto split: if_splits)

lemma template_match_length: "template_match l0 ls s = Some cs \<Longrightarrow> length cs = length ls"
  by (auto simp: template_match_def dest: match_tail_length split: if_splits)

lemma prefix_block_pattern: "block_pattern \<noteq> prefix_pattern"
  by (simp add: block_pattern_def prefix_pattern_def)

lemma pad_self: "length cs = n \<Longrightarrow> pad n cs = cs"
  by (simp add: pad_def)

lemma example_re2_ok: "re2_ok example_re2"
proof -
  have "re_match example_re2 (re_compile example_re2 (literal_regex example_re2 l0 ls)) s (length ls + 1)
      = map_option ((#) s) (template_match l0 ls s)" for l0 ls s
    using read_literal_regex [of l0 ls] template_match_length [of l0 ls s]
    by (cases "template_match l0 ls s") (simp_all add: example_re2_def pad_self)
  moreover have "re_match example_re2 r s n = Some cs \<Longrightarrow> length cs = n" for r s n cs
    by (auto simp: example_re2_def pad_def Let_def)
  moreover have "re_consume example_re2 prefix_pattern s
      = Some ([takeWhile (\<lambda>c. c \<noteq> CHR ''{'') s], dropWhile (\<lambda>c. c \<noteq> CHR ''{'') s)" for s
    by (simp add: example_re2_def)
  moreover have "re_consume example_re2 block_pattern s = parse_block s" for s
    using prefix_block_pattern by (simp add: example_re2_def)
  ultimately show ?thesis unfolding re2_ok_def by blast
qed

section \<open>Properties\<close>

text \<open>Compiling a well-formed template gives the names of its parameters in order and the
  expression made piece by piece: every literal quoted, every parameter one capture group, anchored
  at both ends with an optional last slash.\<close>

theorem createRegexPattern_of_template:
  assumes "re2_ok R" and "\<forall>b \<in> set bs. block_wf b" and "ascii l" and "CHR ''{'' \<notin> set l"
  shows "createRegexPattern R (template_text bs l)
    = Some (map block_name bs,
        ''^'' @ concat (map (block_regex R) bs) @ re_quote R l @ ''/?$'')"
  using createRegexPattern_template_rest [OF assms, of "[]"] by simp

theorem createRegexPattern_of_template_witness:
  "createRegexPattern example_re2 (template_text [(''/u/'', ''id'', ''[0-9]+''), (''/'', ''n'', [])] ''/x'')
     = Some ([''id'', ''n''], ''^'' @ concat (map (block_regex example_re2)
         [(''/u/'', ''id'', ''[0-9]+''), (''/'', ''n'', [])]) @ re_quote example_re2 ''/x'' @ ''/?$'')"
proof -
  have "createRegexPattern example_re2 (template_text [(''/u/'', ''id'', ''[0-9]+''), (''/'', ''n'', [])] ''/x'')
     = Some (map block_name [(''/u/'', ''id'', ''[0-9]+''), (''/'', ''n'', [])],
         ''^'' @ concat (map (block_regex example_re2)
         [(''/u/'', ''id'', ''[0-9]+''), (''/'', ''n'', [])]) @ re_quote example_re2 ''/x'' @ ''/?$'')"
    by (rule createRegexPattern_of_template [OF example_re2_ok]) code_simp+
  then show ?thesis by (simp add: block_name_def)
qed



text \<open>A template with a brace that starts no well-formed block is cut there: what follows is
  dropped without an error, so the route answers for the shorter path.\<close>

theorem malformed_block_truncates:
  assumes "re2_ok R" and "\<forall>b \<in> set bs. block_wf b" and "ascii l" and "CHR ''{'' \<notin> set l"
    and "ascii t" and "parse_block (CHR ''{'' # t) = None"
  shows "createRegexPattern R (template_text bs l @ CHR ''{'' # t) = createRegexPattern R (template_text bs l)"
  using createRegexPattern_template_rest [OF assms(1-4), of "CHR ''{'' # t"]
    createRegexPattern_template_rest [OF assms(1-4), of "[]"] assms(5,6)
  by (simp del: parse_block.simps(2))

theorem malformed_block_truncates_witness:
  "createRegexPattern example_re2 ''/files/{file-name}/raw'' = createRegexPattern example_re2 ''/files/''"
proof -
  have "createRegexPattern example_re2 (template_text [] ''/files/'' @ CHR ''{'' # ''file-name}/raw'')
      = createRegexPattern example_re2 (template_text [] ''/files/'')"
    by (rule malformed_block_truncates [OF example_re2_ok]) code_simp+
  then show ?thesis by (simp add: template_text_def)
qed

end
