(* ===== verification/HttpMessage.thy ===== *)
theory HttpMessage
  imports StdString RouteParams
begin

text \<open>
  The HTTP messages the router and the middlewares work on: Boost.Beast's request message as
  data, Beast's header container as a parameter (a record of its operations with their documented
  laws), and the wrappers \<^verbatim>\<open>HttpRequest\<close> and \<^verbatim>\<open>HttpResponse\<close> of
  include/cppgate/Router.h.
\<close>

datatype verb = Verb_get | Verb_head | Verb_post | Verb_put | Verb_patch | Verb_delete
  | Verb_options | Verb_trace | Verb_other string

section \<open>Beast's header container, a parameter\<close>

text \<open>
  \<^verbatim>\<open>beast::http::fields\<close>: \<open>set\<close> replaces every field of a name, \<open>find\<close> gives
  the first, \<open>all\<close> the values of \<^verbatim>\<open>equal_range\<close> in order. For a status and a body,
  \<open>refuses\<close> is whether \<^verbatim>\<open>prepare_payload\<close> of a response throws, and \<open>prepare\<close> its
  effect on the header. The keep-alive operations work on the Connection field for an HTTP version.
\<close>

record 'h fields_lib =
  bf_empty :: 'h
  bf_set :: "string \<Rightarrow> string \<Rightarrow> 'h \<Rightarrow> 'h"
  bf_find :: "'h \<Rightarrow> string \<Rightarrow> string option"
  bf_all :: "'h \<Rightarrow> string \<Rightarrow> string list"
  bf_refuses :: "nat \<Rightarrow> string \<Rightarrow> bool"
  bf_prepare :: "nat \<Rightarrow> string \<Rightarrow> 'h \<Rightarrow> 'h"
  bf_set_keep_alive :: "nat \<Rightarrow> bool \<Rightarrow> 'h \<Rightarrow> 'h"
  bf_keep_alive :: "nat \<Rightarrow> 'h \<Rightarrow> bool"

text \<open>
  Documented behaviour: field names are compared without case, \<open>set\<close> is read back by
  \<open>find\<close> and leaves other names alone, \<^verbatim>\<open>prepare_payload\<close> touches only the
  framing fields and \<^verbatim>\<open>keep_alive(bool)\<close> only Connection, which
  \<^verbatim>\<open>keep_alive()\<close> reads back. \<^verbatim>\<open>prepare_payload\<close> throws
  \<^verbatim>\<open>std::invalid_argument\<close> of a response for a body where HTTP allows none: with an
  informational status, 204 or 304.
\<close>

definition bodiless_status :: "nat \<Rightarrow> bool" where
  "bodiless_status s \<longleftrightarrow> 100 \<le> s \<and> s < 200 \<or> s = 204 \<or> s = 304"

definition framing_field :: "string \<Rightarrow> bool" where
  "framing_field n \<longleftrightarrow> iequals n ''Content-Length'' \<or> iequals n ''Transfer-Encoding''"

definition fields_ok :: "'h fields_lib \<Rightarrow> bool" where
  "fields_ok F \<longleftrightarrow>
     (\<forall>n. bf_find F (bf_empty F) n = None)
   \<and> (\<forall>n v h m. bf_find F (bf_set F n v h) m = (if iequals n m then Some v else bf_find F h m))
   \<and> (\<forall>s b h n. \<not> framing_field n \<longrightarrow> bf_find F (bf_prepare F s b h) n = bf_find F h n)
   \<and> (\<forall>w k h n. \<not> iequals n ''Connection'' \<longrightarrow>
        bf_find F (bf_set_keep_alive F w k h) n = bf_find F h n)
   \<and> (\<forall>w k h. bf_keep_alive F w (bf_set_keep_alive F w k h) = k)
   \<and> (\<forall>w s b h. bf_keep_alive F w (bf_prepare F s b h) = bf_keep_alive F w h)
   \<and> (\<forall>s b. bf_refuses F s b \<longrightarrow> b \<noteq> [] \<and> bodiless_status s)
   \<and> (\<forall>s b. b \<noteq> [] \<and> s \<in> {100, 101, 102, 204, 304} \<longrightarrow> bf_refuses F s b)"

lemma fields_okD:
  assumes "fields_ok F"
  shows "bf_find F (bf_empty F) n = None"
    and "bf_find F (bf_set F n v h) m = (if iequals n m then Some v else bf_find F h m)"
    and "\<not> framing_field n \<Longrightarrow> bf_find F (bf_prepare F s b h) n = bf_find F h n"
    and "bf_keep_alive F w (bf_set_keep_alive F w k h) = k"
    and "bf_keep_alive F w (bf_prepare F s b h) = bf_keep_alive F w h"
    and "bf_refuses F s b \<Longrightarrow> b \<noteq> [] \<and> bodiless_status s"
    and "b \<noteq> [] \<Longrightarrow> s \<in> {100, 101, 102, 204, 304} \<Longrightarrow> bf_refuses F s b"
  using assms by (auto simp: fields_ok_def)

text \<open>
  A concrete container for closed examples: an association list in insertion order, with the
  persistence of the connection written as the Connection field.
\<close>

definition alist_fields :: "(string \<times> string) list fields_lib" where
  "alist_fields =
     \<lparr>bf_empty = [],
      bf_set = (\<lambda>n v h. filter (\<lambda>(m, w). \<not> iequals n m) h @ [(n, v)]),
      bf_find = (\<lambda>h n. map_option snd (List.find (\<lambda>(m, w). iequals m n) h)),
      bf_all = (\<lambda>h n. map snd (filter (\<lambda>(m, w). iequals m n) h)),
      bf_refuses = (\<lambda>s b. b \<noteq> [] \<and> bodiless_status s),
      bf_prepare = (\<lambda>s b h. h),
      bf_set_keep_alive = (\<lambda>w k h.
        filter (\<lambda>(m, w). \<not> iequals ''Connection'' m) h
          @ [(''Connection'', if k then ''keep-alive'' else ''close'')]),
      bf_keep_alive = (\<lambda>w h. (''Connection'', ''close'') \<notin> set h)\<rparr>"

lemma find_append_none:
  "List.find P (xs @ ys) = (case List.find P xs of None \<Rightarrow> List.find P ys | Some x \<Rightarrow> Some x)"
  by (induction xs) auto

lemma find_filter_same:
  assumes "\<And>x. P x \<Longrightarrow> Q x"
  shows "List.find P (filter Q xs) = List.find P xs"
  using assms by (induction xs) auto

lemma find_filter_none:
  assumes "\<And>x. P x \<Longrightarrow> \<not> Q x"
  shows "List.find P (filter Q xs) = None"
  using assms by (induction xs) auto

lemma iequals_trans: "iequals a b \<Longrightarrow> iequals b c \<Longrightarrow> iequals a c"
  by (simp add: iequals_def)

lemma alist_find_set:
  "List.find (\<lambda>(m, w). iequals m k) (filter (\<lambda>(m, w). \<not> iequals n m) h @ [(n, v)])
     = (if iequals n k then Some (n, v) else List.find (\<lambda>(m, w). iequals m k) h)"
proof (cases "iequals n k")
  case True
  then have "List.find (\<lambda>(m, w). iequals m k) (filter (\<lambda>(m, w). \<not> iequals n m) h) = None"
    by (intro find_filter_none) (auto intro: iequals_trans iequals_sym)
  with True show ?thesis by (simp add: find_append_none)
next
  case False
  then have "List.find (\<lambda>(m, w). iequals m k) (filter (\<lambda>(m, w). \<not> iequals n m) h)
      = List.find (\<lambda>(m, w). iequals m k) h"
    by (intro find_filter_same) (auto intro: iequals_trans iequals_sym)
  with False show ?thesis by (simp add: find_append_none split: option.splits)
qed

lemma alist_fields_ok: "fields_ok alist_fields"
  unfolding fields_ok_def alist_fields_def
  by (auto simp: alist_find_set bodiless_status_def dest: iequals_sym)

section \<open>Requests\<close>

text \<open>Beast's parsed request message, constant for the handlers.\<close>

record 'h request_msg =
  rq_method :: verb
  rq_target :: string
  rq_version :: nat
  rq_fields :: 'h
  rq_body :: string

record ('h, 'c) http_request =
  hr_request :: "'h request_msg"
  hr_ip :: string
  hr_peer_ip :: string
  hr_context :: "'c option"
  hr_params :: "route_params option"

definition HttpRequest :: "'h request_msg \<Rightarrow> ('h, 'c) http_request" where
  "HttpRequest request =
     \<lparr>hr_request = request, hr_ip = [], hr_peer_ip = [], hr_context = None, hr_params = None\<rparr>"

definition setContext :: "'c \<Rightarrow> ('h, 'c) http_request \<Rightarrow> ('h, 'c) http_request" where
  "setContext ctx r = r\<lparr>hr_context := Some ctx\<rparr>"

definition getContext :: "('h, 'c) http_request \<Rightarrow> 'c option" where
  "getContext r = hr_context r"

definition setIP :: "string \<Rightarrow> ('h, 'c) http_request \<Rightarrow> ('h, 'c) http_request" where
  "setIP ip r = r\<lparr>hr_ip := ip\<rparr>"

definition setPeerIP :: "string \<Rightarrow> ('h, 'c) http_request \<Rightarrow> ('h, 'c) http_request" where
  "setPeerIP ip r = r\<lparr>hr_peer_ip := ip\<rparr>"

text \<open>\<^verbatim>\<open>Headers::get\<close>: the first field of the name, an empty view without one.\<close>

definition headers_get :: "'h fields_lib \<Rightarrow> 'h request_msg \<Rightarrow> string \<Rightarrow> string" where
  "headers_get F m name = (case bf_find F (rq_fields m) name of None \<Rightarrow> [] | Some v \<Rightarrow> v)"

text \<open>Empty outside of a matched route, where the parameters pointer is null.\<close>

definition urlParam :: "('h, 'c) http_request \<Rightarrow> string \<Rightarrow> string" where
  "urlParam r key = (case hr_params r of None \<Rightarrow> [] | Some p \<Rightarrow> rp_get p key)"

text \<open>
  Query parameters: the parser of Boost.URL is a parameter that gives the decoded parameter list
  of a text, None when it is refused.
\<close>

definition queries_get :: "(string \<times> string) list \<Rightarrow> string \<Rightarrow> string" where
  "queries_get ps name = (case map_of ps name of None \<Rightarrow> [] | Some v \<Rightarrow> v)"

definition queries_contains :: "(string \<times> string) list \<Rightarrow> string \<Rightarrow> bool" where
  "queries_contains ps name = (map_of ps name \<noteq> None)"

definition formQueries ::
  "'h fields_lib \<Rightarrow> (string \<Rightarrow> (string \<times> string) list option) \<Rightarrow> 'h request_msg
     \<Rightarrow> (string \<times> string) list" where
  "formQueries F parse_query m =
     (if headers_get F m ''Content-Type'' = ''application/x-www-form-urlencoded''
      then (case parse_query (rq_body m) of Some ps \<Rightarrow> ps | None \<Rightarrow> [])
      else [])"

definition urlQueries ::
  "(string \<Rightarrow> (string \<times> string) list option) \<Rightarrow> (string \<Rightarrow> (string \<times> string) list option)
     \<Rightarrow> bool \<Rightarrow> 'h request_msg \<Rightarrow> (string \<times> string) list" where
  "urlQueries origin_form_params uri_reference_params strict m =
     (case (if strict then origin_form_params else uri_reference_params) (rq_target m) of
        Some ps \<Rightarrow> ps
      | None \<Rightarrow> [])"

definition queries_empty :: "(string \<times> string) list \<Rightarrow> bool" where
  "queries_empty ps \<longleftrightarrow> ps = []"

text \<open>What handlers read of the message; the parser of Boost.URL is a parameter.\<close>

definition getURLView :: "(string \<Rightarrow> 'u option) \<Rightarrow> ('h, 'c) http_request \<Rightarrow> 'u option" where
  "getURLView parse_uri_reference r = parse_uri_reference (rq_target (hr_request r))"

definition req_body :: "('h, 'c) http_request \<Rightarrow> string" where
  "req_body r = rq_body (hr_request r)"

definition req_target :: "('h, 'c) http_request \<Rightarrow> string" where
  "req_target r = rq_target (hr_request r)"

definition req_method :: "('h, 'c) http_request \<Rightarrow> verb" where
  "req_method r = rq_method (hr_request r)"

definition req_keepAlive :: "'h fields_lib \<Rightarrow> ('h, 'c) http_request \<Rightarrow> bool" where
  "req_keepAlive F r = bf_keep_alive F (rq_version (hr_request r)) (rq_fields (hr_request r))"

definition req_version :: "('h, 'c) http_request \<Rightarrow> nat" where
  "req_version r = rq_version (hr_request r)"

section \<open>Responses\<close>

record 'h http_response =
  res_status :: nat
  res_version :: nat
  res_fields :: 'h
  res_body :: string

text \<open>Status 0 means that nobody answered yet.\<close>

definition HttpResponse :: "'h fields_lib \<Rightarrow> 'h http_response" where
  "HttpResponse F = \<lparr>res_status = 0, res_version = 11, res_fields = bf_empty F, res_body = []\<rparr>"

definition hasResponse :: "'h http_response \<Rightarrow> bool" where
  "hasResponse r \<longleftrightarrow> res_status r \<noteq> 0"

definition res_header :: "'h fields_lib \<Rightarrow> string \<Rightarrow> string \<Rightarrow> 'h http_response \<Rightarrow> 'h http_response" where
  "res_header F name value r = r\<lparr>res_fields := bf_set F name value (res_fields r)\<rparr>"

definition res_keepAlive :: "'h fields_lib \<Rightarrow> 'h http_response \<Rightarrow> bool" where
  "res_keepAlive F r = bf_keep_alive F (res_version r) (res_fields r)"

definition res_set_keepAlive :: "'h fields_lib \<Rightarrow> bool \<Rightarrow> 'h http_response \<Rightarrow> 'h http_response" where
  "res_set_keepAlive F k r = r\<lparr>res_fields := bf_set_keep_alive F (res_version r) k (res_fields r)\<rparr>"

definition res_set_version :: "nat \<Rightarrow> 'h http_response \<Rightarrow> 'h http_response" where
  "res_set_version v r = r\<lparr>res_version := v\<rparr>"

text \<open>
  \<^verbatim>\<open>prepare_payload\<close> may throw, after the status and the body were set. The operations
  that end with it are actions on the response.
\<close>

type_synonym 'h sending = "('h http_response, unit) action"

definition prepare_payload :: "'h fields_lib \<Rightarrow> 'h sending" where
  "prepare_payload F r =
     (if bf_refuses F (res_status r) (res_body r) then Threw r
      else Done () (r\<lparr>res_fields := bf_prepare F (res_status r) (res_body r) (res_fields r)\<rparr>))"

definition res_send :: "'h fields_lib \<Rightarrow> nat \<Rightarrow> string \<Rightarrow> 'h sending" where
  "res_send F status content r = prepare_payload F (r\<lparr>res_status := status, res_body := content\<rparr>)"

definition res_send_typed :: "'h fields_lib \<Rightarrow> nat \<Rightarrow> string \<Rightarrow> string \<Rightarrow> 'h sending" where
  "res_send_typed F status content content_type r =
     res_send F status content (res_header F ''Content-Type'' content_type r)"

definition res_send_ok :: "'h fields_lib \<Rightarrow> string \<Rightarrow> string \<Rightarrow> 'h sending" where
  "res_send_ok F content content_type r = res_send_typed F 200 content content_type r"

definition sendNoContent :: "'h http_response \<Rightarrow> 'h http_response" where
  "sendNoContent r = r\<lparr>res_status := 204\<rparr>"

definition sendContent :: "'h fields_lib \<Rightarrow> string \<Rightarrow> 'h sending" where
  "sendContent F content r = res_send F 200 content r"

definition sendNotFound :: "'h fields_lib \<Rightarrow> string \<Rightarrow> 'h sending" where
  "sendNotFound F content r = res_send F 404 content r"

definition sendUnauthorized :: "'h fields_lib \<Rightarrow> string \<Rightarrow> 'h sending" where
  "sendUnauthorized F content r = res_send F 401 content r"

definition sendJSON :: "'h fields_lib \<Rightarrow> string \<Rightarrow> 'h sending" where
  "sendJSON F content r = res_send_ok F content ''application/json'' r"

text \<open>The response a send leaves when it does not throw, and when that is.\<close>

definition sent :: "'h fields_lib \<Rightarrow> nat \<Rightarrow> string \<Rightarrow> 'h http_response \<Rightarrow> 'h http_response" where
  "sent F s c r = r\<lparr>res_status := s, res_body := c, res_fields := bf_prepare F s c (res_fields r)\<rparr>"

lemmas send_defs = res_send_def res_send_typed_def res_send_ok_def sendNoContent_def sendContent_def
  sendNotFound_def sendUnauthorized_def sendJSON_def prepare_payload_def res_header_def sent_def

lemma prepare_payload_done:
  assumes "fields_ok F" and "\<not> bodiless_status (res_status r)"
  shows "prepare_payload F r = Done () (sent F (res_status r) (res_body r) r)"
  using assms fields_okD(6) [OF assms(1)] by (auto simp: prepare_payload_def sent_def)

lemma send_done:
  assumes "fields_ok F" and "\<not> bodiless_status s"
  shows "res_send F s c r = Done () (sent F s c r)"
    and "res_send_typed F s c t r = Done () (sent F s c (res_header F ''Content-Type'' t r))"
  using assms by (simp_all add: res_send_def res_send_typed_def prepare_payload_done sent_def)

lemma sends_done:
  assumes "fields_ok F"
  shows "res_send_ok F c t r = Done () (sent F 200 c (res_header F ''Content-Type'' t r))"
    and "sendContent F c r = Done () (sent F 200 c r)" and "sendNotFound F c r = Done () (sent F 404 c r)"
    and "sendUnauthorized F c r = Done () (sent F 401 c r)"
    and "sendJSON F c r = Done () (sent F 200 c (res_header F ''Content-Type'' ''application/json'' r))"
  using assms
  by (simp_all add: res_send_ok_def sendContent_def sendNotFound_def sendUnauthorized_def sendJSON_def send_done
      bodiless_status_def)

text \<open>A throwing send leaves the status and the body it set, which HTTP does not allow together.\<close>

lemma send_throws:
  assumes "fields_ok F" and "res_send F s c r = Threw r1"
  shows "bodiless_status s \<and> c \<noteq> [] \<and> r1 = r\<lparr>res_status := s, res_body := c\<rparr>"
  using assms fields_okD(6) [OF assms(1)] by (auto simp: res_send_def prepare_payload_def split: if_splits)

lemma send_state [simp]:
  "res_status (outcome_state (res_send F s c r)) = s" "res_body (outcome_state (res_send F s c r)) = c"
  by (simp_all add: send_defs)

lemma sent_simps [simp]:
  "res_status (sent F s c r) = s" "res_body (sent F s c r) = c" "res_version (sent F s c r) = res_version r"
  "res_fields (sent F s c r) = bf_prepare F s c (res_fields r)"
  "res_status (res_header F n v r) = res_status r" "res_body (res_header F n v r) = res_body r"
  "res_version (res_header F n v r) = res_version r"
  "res_status (sendNoContent r) = 204"
  by (simp_all add: send_defs)

end
