(* ===== verification/TrustedProxies.thy ===== *)
theory TrustedProxies
  imports HttpMessage "HOL-Library.Word" "HOL-Library.Monad_Syntax"
begin

text \<open>
  \<^verbatim>\<open>TrustedProxies\<close> (include/cppgate/TrustedProxies.h, sources/Core/TrustedProxies.cpp):
  parsing of addresses and ranges, membership, and the client address of a request that came
  through proxies. Boost.Asio's address parser, printer and network arithmetic are a parameter.
\<close>

section \<open>Addresses and the Asio operations\<close>

text \<open>A version 6 address carries its scope id.\<close>

datatype address = V4 "32 word" | V6 "128 word" nat

type_synonym network_v4 = "32 word \<times> nat"

type_synonym network_v6 = "(128 word \<times> nat) \<times> nat"

text \<open>
  \<open>canonical_v4 a p\<close> is \<^verbatim>\<open>network_v4(a, p).canonical()\<close>: None when the constructor
  throws \<^verbatim>\<open>std::out_of_range\<close>, else the address with the host bits cleared and the
  prefix length.
\<close>

record asio =
  make_address :: "string \<Rightarrow> address option"
  address_to_string :: "address \<Rightarrow> string"
  is_v4_mapped :: "128 word \<Rightarrow> bool"
  v4_mapped :: "128 word \<Rightarrow> 32 word"
  canonical_v4 :: "32 word \<Rightarrow> nat \<Rightarrow> network_v4 option"
  canonical_v6 :: "128 word \<Rightarrow> nat \<Rightarrow> nat \<Rightarrow> network_v6 option"

text \<open>
  Documented behaviour of \<^verbatim>\<open>network_v4\<close> and \<^verbatim>\<open>network_v6\<close>: the
  constructor throws exactly for a prefix longer than the address, and \<^verbatim>\<open>canonical\<close>
  keeps the prefix length, clears the host bits and keeps the network bits.
\<close>

definition asio_ok :: "asio \<Rightarrow> bool" where
  "asio_ok A \<longleftrightarrow>
     (\<forall>a p. canonical_v4 A a p = None \<longleftrightarrow> 32 < p)
   \<and> (\<forall>a p n. canonical_v4 A a p = Some n \<longrightarrow>
        snd n = p \<and> (\<forall>i<32. bit (fst n) i \<longleftrightarrow> bit a i \<and> 32 - p \<le> i))
   \<and> (\<forall>a s p. canonical_v6 A a s p = None \<longleftrightarrow> 128 < p)
   \<and> (\<forall>a s p n. canonical_v6 A a s p = Some n \<longrightarrow>
        snd n = p \<and> snd (fst n) = s
        \<and> (\<forall>i<128. bit (fst (fst n)) i \<longleftrightarrow> bit a i \<and> 128 - p \<le> i))"

lemma asio_v4:
  assumes "asio_ok A"
  shows "canonical_v4 A a p = None \<longleftrightarrow> 32 < p"
    and "canonical_v4 A a p = Some n \<Longrightarrow> snd n = p"
    and "canonical_v4 A a p = Some n \<Longrightarrow> i < 32 \<Longrightarrow> bit (fst n) i \<longleftrightarrow> bit a i \<and> 32 - p \<le> i"
  using assms unfolding asio_ok_def by blast+

lemma asio_v6:
  assumes "asio_ok A"
  shows "canonical_v6 A b s p = None \<longleftrightarrow> 128 < p"
    and "canonical_v6 A b s p = Some m \<Longrightarrow> snd m = p"
    and "canonical_v6 A b s p = Some m \<Longrightarrow> snd (fst m) = s"
    and "canonical_v6 A b s p = Some m \<Longrightarrow> i < 128 \<Longrightarrow>
           bit (fst (fst m)) i \<longleftrightarrow> bit b i \<and> 128 - p \<le> i"
  using assms unfolding asio_ok_def by blast+

section \<open>The code\<close>

definition is_blank :: "char \<Rightarrow> bool" where
  "is_blank c \<longleftrightarrow> c = CHR '' '' \<or> c = CHR 0x09"

fun trim_front :: "string \<Rightarrow> string" where
  "trim_front [] = []"
| "trim_front (c # cs) = (if is_blank c then trim_front cs else c # cs)"

function trim_back :: "string \<Rightarrow> string" where
  "trim_back s = (if s \<noteq> [] \<and> is_blank (last s) then trim_back (butlast s) else s)"
  by pat_completeness auto
termination
  by (relation "measure length") auto

declare trim_back.simps [simp del]

definition trim :: "string \<Rightarrow> string" where
  "trim text = trim_back (trim_front text)"

fun normalize :: "asio \<Rightarrow> address \<Rightarrow> address" where
  "normalize A (V4 a) = V4 a"
| "normalize A (V6 a scope) = (if is_v4_mapped A a then V4 (v4_mapped A a) else V6 a scope)"

text \<open>The text between the quotes, and the host part of the bracketed and host:port forms.\<close>

definition unquote :: "string \<Rightarrow> string" where
  "unquote text =
     (if 2 \<le> length text \<and> hd text = CHR 0x22 \<and> last text = CHR 0x22
      then sv_substr text 1 (length text - 2) else text)"

definition host_part :: "string \<Rightarrow> string option" where
  "host_part text =
     (if text \<noteq> [] \<and> hd text = CHR ''[''
      then (case sv_find text (CHR '']'') 0 of
              None \<Rightarrow> None
            | Some e \<Rightarrow> Some (sv_substr text 1 (e - 1)))
      else if count_list text (CHR '':'') = 1
      then (case sv_find text (CHR '':'') 0 of
              None \<Rightarrow> Some text
            | Some c \<Rightarrow> Some (sv_substr text 0 c))
      else Some text)"

definition parseAddress :: "asio \<Rightarrow> string \<Rightarrow> address option" where
  "parseAddress A text =
     do { host \<leftarrow> host_part (unquote (trim text));
          address \<leftarrow> make_address A host;
          Some (normalize A address) }"

record trusted_proxies =
  tp_v4 :: "network_v4 list"
  tp_v6 :: "network_v6 list"

definition TrustedProxies_init :: trusted_proxies where
  "TrustedProxies_init = \<lparr>tp_v4 = [], tp_v6 = []\<rparr>"

definition tp_empty :: "trusted_proxies \<Rightarrow> bool" where
  "tp_empty p \<longleftrightarrow> tp_v4 p = [] \<and> tp_v6 p = []"

datatype invalid_argument = Invalid_address string | Invalid_prefix string

text \<open>The digits after the slash: None where \<^verbatim>\<open>add\<close> throws.\<close>

definition parse_prefix :: "string \<Rightarrow> nat option" where
  "parse_prefix digits =
     (if digits = [] \<or> 3 < length digits \<or> (\<exists>c \<in> set digits. c \<notin> set ''0123456789'')
      then None else Some (stoul digits))"

definition add_network ::
  "asio \<Rightarrow> string \<Rightarrow> address \<Rightarrow> nat \<Rightarrow> trusted_proxies
     \<Rightarrow> invalid_argument + trusted_proxies" where
  "add_network A cidr address prefix p =
     (case address of
        V4 a \<Rightarrow> (case canonical_v4 A a (prefix mod 2 ^ 16) of
                   None \<Rightarrow> Inl (Invalid_prefix cidr)
                 | Some n \<Rightarrow> Inr (p\<lparr>tp_v4 := tp_v4 p @ [n]\<rparr>))
      | V6 a scope \<Rightarrow> (case canonical_v6 A a scope (prefix mod 2 ^ 16) of
                   None \<Rightarrow> Inl (Invalid_prefix cidr)
                 | Some n \<Rightarrow> Inr (p\<lparr>tp_v6 := tp_v6 p @ [n]\<rparr>)))"

definition default_prefix :: "address \<Rightarrow> nat" where
  "default_prefix address = (case address of V4 a \<Rightarrow> 32 | V6 a s \<Rightarrow> 128)"

definition tp_add :: "asio \<Rightarrow> string \<Rightarrow> trusted_proxies \<Rightarrow> invalid_argument + trusted_proxies" where
  "tp_add A cidr p =
     (let slash = sv_find cidr (CHR ''/'') 0 in
      case parseAddress A (case slash of None \<Rightarrow> cidr | Some i \<Rightarrow> sv_substr cidr 0 i) of
        None \<Rightarrow> Inl (Invalid_address cidr)
      | Some address \<Rightarrow>
          (case slash of
             None \<Rightarrow> add_network A cidr address (default_prefix address) p
           | Some i \<Rightarrow>
               (case parse_prefix (drop (i + 1) cidr) of
                  None \<Rightarrow> Inl (Invalid_prefix cidr)
                | Some prefix \<Rightarrow> add_network A cidr address prefix p)))"

text \<open>The range loops of \<^verbatim>\<open>contains\<close>; None is an escaping \<^verbatim>\<open>out_of_range\<close>.\<close>

fun contains_v4 :: "asio \<Rightarrow> 32 word \<Rightarrow> network_v4 list \<Rightarrow> bool option" where
  "contains_v4 A a [] = Some False"
| "contains_v4 A a (network # ns) =
     do { n \<leftarrow> canonical_v4 A a (snd network);
          if n = network then Some True else contains_v4 A a ns }"

fun contains_v6 :: "asio \<Rightarrow> 128 word \<Rightarrow> nat \<Rightarrow> network_v6 list \<Rightarrow> bool option" where
  "contains_v6 A a scope [] = Some False"
| "contains_v6 A a scope (network # ns) =
     do { n \<leftarrow> canonical_v6 A a scope (snd network);
          if n = network then Some True else contains_v6 A a scope ns }"

definition tp_contains :: "asio \<Rightarrow> trusted_proxies \<Rightarrow> address \<Rightarrow> bool option" where
  "tp_contains A p address =
     (case normalize A address of
        V4 a \<Rightarrow> contains_v4 A a (tp_v4 p)
      | V6 a scope \<Rightarrow> contains_v6 A a scope (tp_v6 p))"

text \<open>The \<^verbatim>\<open>while (start <= value.size())\<close> loop that cuts a header value at its commas.\<close>

function split_hops :: "string \<Rightarrow> nat \<Rightarrow> string list \<Rightarrow> string list" where
  "split_hops value start hops =
     (if start \<le> length value
      then (let comma = (case sv_find value (CHR '','') start of None \<Rightarrow> length value | Some c \<Rightarrow> c)
            in split_hops value (comma + 1) (hops @ [sv_substr value start (comma - start)]))
      else hops)"
  by pat_completeness auto
termination
proof (relation "measure (\<lambda>(v, start, hops). length v + 1 - start)")
  show "wf (measure (\<lambda>(v :: string, start, hops :: string list). length v + 1 - start))"
    by simp
next
  fix v :: string and start :: nat and hops :: "string list" and comma :: nat
  assume "start \<le> length v"
    and "comma = (case sv_find v (CHR '','') start of None \<Rightarrow> length v | Some c \<Rightarrow> c)"
  moreover from this have "start \<le> comma"
    by (auto dest: sv_find_ge split: option.splits)
  ultimately show "((v, comma + 1, hops @ [sv_substr v start (comma - start)]),
      (v, start, hops)) \<in> measure (\<lambda>(v, start, hops). length v + 1 - start)"
    by auto
qed

declare split_hops.simps [simp del]

definition collect_hops :: "'h fields_lib \<Rightarrow> 'h \<Rightarrow> string list" where
  "collect_hops F headers =
     fold (\<lambda>value hops. split_hops value 0 hops) (bf_all F headers ''X-Forwarded-For'') []"

text \<open>The loop from \<^verbatim>\<open>hops.rbegin()\<close>; its list argument is the hops reversed.\<close>

fun walk_hops :: "asio \<Rightarrow> trusted_proxies \<Rightarrow> address \<Rightarrow> string list \<Rightarrow> string option" where
  "walk_hops A p closest_trusted [] = Some (address_to_string A closest_trusted)"
| "walk_hops A p closest_trusted (hop # hops) =
     (case parseAddress A hop of
        None \<Rightarrow> Some (address_to_string A closest_trusted)
      | Some address \<Rightarrow>
          do { trusted \<leftarrow> tp_contains A p address;
               if \<not> trusted then Some (address_to_string A address)
               else walk_hops A p address hops })"

definition tp_resolve ::
  "'h fields_lib \<Rightarrow> asio \<Rightarrow> trusted_proxies \<Rightarrow> string \<Rightarrow> 'h \<Rightarrow> string option" where
  "tp_resolve F A p peer headers =
     (case parseAddress A peer of
        None \<Rightarrow> Some peer
      | Some peer_address \<Rightarrow>
          do { trusted \<leftarrow> (if tp_empty p then Some False else tp_contains A p peer_address);
               if \<not> trusted then Some (address_to_string A peer_address)
               else (let hops = collect_hops F headers in
                 if hops \<noteq> [] then walk_hops A p peer_address (rev hops)
                 else (case bf_find F headers ''X-Real-IP'' of
                         Some value \<Rightarrow>
                           (case parseAddress A value of
                              Some address \<Rightarrow> Some (address_to_string A address)
                            | None \<Rightarrow> Some (address_to_string A peer_address))
                       | None \<Rightarrow> Some (address_to_string A peer_address))) })"

text \<open>\<^verbatim>\<open>Router::setTrustedProxies\<close> builds the whole list before publishing it.\<close>

fun build_proxies ::
  "asio \<Rightarrow> string list \<Rightarrow> trusted_proxies \<Rightarrow> invalid_argument + trusted_proxies" where
  "build_proxies A [] p = Inr p"
| "build_proxies A (cidr # cidrs) p =
     (case tp_add A cidr p of Inl e \<Rightarrow> Inl e | Inr q \<Rightarrow> build_proxies A cidrs q)"

section \<open>Cutting a header value at its commas\<close>

text \<open>The declarative reading: the pieces between the commas, so joining them gives the value back.\<close>

fun split_commas :: "string \<Rightarrow> string list" where
  "split_commas [] = [[]]"
| "split_commas (c # cs) =
     (if c = CHR '','' then [] # split_commas cs
      else (case split_commas cs of [] \<Rightarrow> [[c]] | x # xs \<Rightarrow> (c # x) # xs))"

fun join_commas :: "string list \<Rightarrow> string" where
  "join_commas [] = []"
| "join_commas [x] = x"
| "join_commas (x # y # ys) = x @ CHR '','' # join_commas (y # ys)"

lemma split_commas_nonempty [simp]: "split_commas s \<noteq> []"
  by (cases s) (auto split: list.splits)

lemma split_commas_none: "CHR '','' \<notin> set s \<Longrightarrow> split_commas s = [s]"
  by (induction s) auto

lemma split_commas_first:
  "index_of (CHR '','') s = Some k \<Longrightarrow>
     split_commas s = take k s # split_commas (drop (Suc k) s)"
  by (induction s arbitrary: k) (auto split: if_splits list.splits)

lemma join_commas_Cons: "xs \<noteq> [] \<Longrightarrow> join_commas (x # xs) = x @ CHR '','' # join_commas xs"
  by (cases xs) auto

lemma join_split_commas: "join_commas (split_commas s) = s"
proof (induction s)
  case (Cons c cs)
  obtain x xs where sp: "split_commas cs = x # xs"
    by (cases "split_commas cs") auto
  with Cons show ?case by (cases xs) auto
qed simp

lemma split_commas_pieces: "h \<in> set (split_commas s) \<Longrightarrow> CHR '','' \<notin> set h"
proof (induction s arbitrary: h)
  case (Cons c cs)
  obtain x xs where "split_commas cs = x # xs"
    by (cases "split_commas cs") auto
  with Cons show ?case by (auto split: if_splits)
qed simp

lemma split_hops_split_commas:
  "start \<le> length v \<Longrightarrow> split_hops v start hops = hops @ split_commas (drop start v)"
proof (induction v start hops rule: split_hops.induct)
  case (1 v start hops)
  note unfolded = split_hops.simps [of v start hops]
  show ?case
  proof (cases "index_of (CHR '','') (drop start v)")
    case None
    then have "CHR '','' \<notin> set (drop start v)" using index_of_None by blast
    with None "1.prems" show ?thesis
      by (simp add: unfolded sv_find_def sv_substr_def split_commas_none
          split_hops.simps [of v "Suc (length v)"] Let_def)
  next
    case (Some k)
    then have "k < length (drop start v)" by (auto dest: index_of_Some)
    with Some "1.prems" "1.IH" [OF "1.prems" refl] show ?thesis
      by (simp add: unfolded sv_find_def sv_substr_def split_commas_first add.commute Let_def)
  qed
qed

lemma collect_hops_concat:
  "collect_hops F headers = concat (map split_commas (bf_all F headers ''X-Forwarded-For''))"
proof -
  have "fold (\<lambda>v hops. split_hops v 0 hops) vs hs = hs @ concat (map split_commas vs)" for vs hs
    by (induction vs arbitrary: hs) (simp_all add: split_hops_split_commas)
  then show ?thesis by (simp add: collect_hops_def)
qed

section \<open>Membership\<close>

definition in_network_v4 :: "32 word \<Rightarrow> network_v4 \<Rightarrow> bool" where
  "in_network_v4 a n \<longleftrightarrow> (\<forall>i<32. 32 - snd n \<le> i \<longrightarrow> bit a i = bit (fst n) i)"

definition in_network_v6 :: "128 word \<Rightarrow> nat \<Rightarrow> network_v6 \<Rightarrow> bool" where
  "in_network_v6 a scope n \<longleftrightarrow> snd (fst n) = scope
     \<and> (\<forall>i<128. 128 - snd n \<le> i \<longrightarrow> bit a i = bit (fst (fst n)) i)"

text \<open>Every stored network was made by \<^verbatim>\<open>canonical\<close>.\<close>

definition made_v4 :: "asio \<Rightarrow> network_v4 \<Rightarrow> bool" where
  "made_v4 A n \<longleftrightarrow> (\<exists>a. canonical_v4 A a (snd n) = Some n)"

definition made_v6 :: "asio \<Rightarrow> network_v6 \<Rightarrow> bool" where
  "made_v6 A n \<longleftrightarrow> (\<exists>a. canonical_v6 A a (snd (fst n)) (snd n) = Some n)"

definition tp_wf :: "asio \<Rightarrow> trusted_proxies \<Rightarrow> bool" where
  "tp_wf A p \<longleftrightarrow> (\<forall>n \<in> set (tp_v4 p). made_v4 A n) \<and> (\<forall>n \<in> set (tp_v6 p). made_v6 A n)"

lemma made_v4I: "asio_ok A \<Longrightarrow> canonical_v4 A a p = Some n \<Longrightarrow> made_v4 A n"
  unfolding made_v4_def using asio_v4(2) by blast

lemma made_v6I: "asio_ok A \<Longrightarrow> canonical_v6 A a s p = Some n \<Longrightarrow> made_v6 A n"
  unfolding made_v6_def using asio_v6(2,3) by blast

lemma canonical_v4_eq_iff:
  assumes "asio_ok A" and n: "canonical_v4 A b (snd n) = Some n"
  obtains m where "canonical_v4 A a (snd n) = Some m" and "m = n \<longleftrightarrow> in_network_v4 a n"
proof -
  have "\<not> 32 < snd n"
    using asio_v4(1) [OF assms(1), of b "snd n"] n by simp
  then obtain m where m: "canonical_v4 A a (snd n) = Some m"
    using asio_v4(1) [OF assms(1), of a "snd n"] by auto
  note mb = asio_v4(2,3) [OF assms(1) m] and nb = asio_v4(3) [OF assms(1) n]
  have "m = n \<longleftrightarrow> (\<forall>i<32. bit (fst m) i = bit (fst n) i)"
    using mb(1) by (auto simp: prod_eq_iff intro!: bit_word_eqI)
  also have "\<dots> \<longleftrightarrow> in_network_v4 a n"
    using mb(2) nb unfolding in_network_v4_def by blast
  finally show ?thesis using m that by blast
qed

lemma canonical_v6_eq_iff:
  assumes "asio_ok A" and n: "canonical_v6 A b (snd (fst n)) (snd n) = Some n"
  obtains m where "canonical_v6 A a s (snd n) = Some m" and "m = n \<longleftrightarrow> in_network_v6 a s n"
proof -
  have "\<not> 128 < snd n"
    using asio_v6(1) [OF assms(1), of b _ "snd n"] n by (metis option.distinct(1))
  then obtain m where m: "canonical_v6 A a s (snd n) = Some m"
    using asio_v6(1) [OF assms(1), of a s "snd n"] by auto
  note mb = asio_v6(2,3,4) [OF assms(1) m] and nb = asio_v6(4) [OF assms(1) n]
  have "m = n \<longleftrightarrow> snd (fst n) = s \<and> (\<forall>i<128. bit (fst (fst m)) i = bit (fst (fst n)) i)"
    using mb(1,2) by (auto simp: prod_eq_iff intro!: bit_word_eqI)
  also have "\<dots> \<longleftrightarrow> in_network_v6 a s n"
    using mb(3) nb unfolding in_network_v6_def by blast
  finally show ?thesis using m that by blast
qed

lemma contains_v4_list:
  assumes "asio_ok A" and "\<forall>n \<in> set ns. made_v4 A n"
  shows "contains_v4 A a ns = Some (\<exists>n \<in> set ns. in_network_v4 a n)"
  using assms(2)
proof (induction ns)
  case (Cons n ns)
  from Cons.prems obtain b where "canonical_v4 A b (snd n) = Some n"
    unfolding made_v4_def by auto
  from canonical_v4_eq_iff [OF assms(1) this] obtain m
    where "canonical_v4 A a (snd n) = Some m" "m = n \<longleftrightarrow> in_network_v4 a n" .
  with Cons show ?case by auto
qed simp

lemma contains_v6_list:
  assumes "asio_ok A" and "\<forall>n \<in> set ns. made_v6 A n"
  shows "contains_v6 A a s ns = Some (\<exists>n \<in> set ns. in_network_v6 a s n)"
  using assms(2)
proof (induction ns)
  case (Cons n ns)
  from Cons.prems obtain b where "canonical_v6 A b (snd (fst n)) (snd n) = Some n"
    unfolding made_v6_def by auto
  from canonical_v6_eq_iff [OF assms(1) this] obtain m
    where "canonical_v6 A a s (snd n) = Some m" "m = n \<longleftrightarrow> in_network_v6 a s n" .
  with Cons show ?case by auto
qed simp

lemma tp_wf_init [simp]: "tp_wf A TrustedProxies_init"
  by (simp add: tp_wf_def TrustedProxies_init_def)

lemma add_network_wf:
  "asio_ok A \<Longrightarrow> tp_wf A p \<Longrightarrow> add_network A cidr address prefix p = Inr q \<Longrightarrow> tp_wf A q"
  unfolding add_network_def tp_wf_def
  by (auto split: address.splits option.splits intro: made_v4I made_v6I)

lemma tp_add_wf: "asio_ok A \<Longrightarrow> tp_wf A p \<Longrightarrow> tp_add A cidr p = Inr q \<Longrightarrow> tp_wf A q"
  by (auto simp: tp_add_def Let_def dest: add_network_wf split: option.splits)

lemma build_proxies_wf:
  "asio_ok A \<Longrightarrow> tp_wf A p \<Longrightarrow> build_proxies A cidrs p = Inr q \<Longrightarrow> tp_wf A q"
  by (induction A cidrs p rule: build_proxies.induct) (auto split: sum.splits dest: tp_add_wf)

lemma tp_contains_total:
  "asio_ok A \<Longrightarrow> tp_wf A p \<Longrightarrow> \<exists>b. tp_contains A p a = Some b"
  by (auto simp: tp_contains_def tp_wf_def contains_v4_list contains_v6_list split: address.splits)

section \<open>What the proxy walk computes\<close>

text \<open>
  The declarative reading of the right-to-left walk: skip the trusted hops next to the server;
  the answer is the first hop that parses to an untrusted address, and the last skipped address
  (the peer without one) when the walk ends or meets garbage.
\<close>

definition trusted_hop :: "asio \<Rightarrow> trusted_proxies \<Rightarrow> string \<Rightarrow> bool" where
  "trusted_hop A p hop =
     (case parseAddress A hop of None \<Rightarrow> False | Some a \<Rightarrow> tp_contains A p a = Some True)"

definition last_trusted :: "asio \<Rightarrow> address \<Rightarrow> string list \<Rightarrow> address" where
  "last_trusted A peer chain = (if chain = [] then peer else the (parseAddress A (last chain)))"

definition client_address :: "asio \<Rightarrow> trusted_proxies \<Rightarrow> address \<Rightarrow> string list \<Rightarrow> address" where
  "client_address A p peer hops =
     (let closest = last_trusted A peer (takeWhile (trusted_hop A p) (rev hops)) in
      case dropWhile (trusted_hop A p) (rev hops) of
        [] \<Rightarrow> closest
      | hop # left \<Rightarrow> (case parseAddress A hop of None \<Rightarrow> closest | Some a \<Rightarrow> a))"

lemma walk_hops_spec:
  assumes "asio_ok A" and "tp_wf A p"
  shows "walk_hops A p c hs =
     Some (address_to_string A
       (case dropWhile (trusted_hop A p) hs of
          [] \<Rightarrow> last_trusted A c (takeWhile (trusted_hop A p) hs)
        | hop # left \<Rightarrow>
            (case parseAddress A hop of
               None \<Rightarrow> last_trusted A c (takeWhile (trusted_hop A p) hs)
             | Some a \<Rightarrow> a)))"
proof (induction hs arbitrary: c)
  case (Cons hop hs)
  show ?case
  proof (cases "parseAddress A hop")
    case (Some a)
    obtain b where b: "tp_contains A p a = Some b"
      using tp_contains_total [OF assms] by blast
    show ?thesis
    proof (cases b)
      case True
      with Some b have th: "trusted_hop A p hop" by (simp add: trusted_hop_def)
      with Some have "last_trusted A a (takeWhile (trusted_hop A p) hs)
          = last_trusted A c (takeWhile (trusted_hop A p) (hop # hs))"
        by (simp add: last_trusted_def)
      then have "last_trusted A c (takeWhile (trusted_hop A p) (hop # hs))
          = last_trusted A a (takeWhile (trusted_hop A p) hs)" by (rule sym)
      with True Some b Cons.IH [of a] th show ?thesis by (simp only: walk_hops.simps) simp
    qed (use Some b in \<open>simp add: trusted_hop_def\<close>)
  qed (simp add: trusted_hop_def last_trusted_def)
qed (simp add: last_trusted_def)

lemma tp_contains_empty: "tp_empty p \<Longrightarrow> tp_contains A p a = Some False"
  by (simp add: tp_empty_def tp_contains_def split: address.splits)

lemma tp_resolve_untrusted:
  assumes "parseAddress A peer = Some a" and "tp_contains A p a = Some False"
  shows "tp_resolve F A p peer h = Some (address_to_string A a)"
  using assms by (simp add: tp_resolve_def)

lemma tp_resolve_hops:
  assumes "asio_ok A" and "tp_wf A p" and "parseAddress A peer = Some a"
    and "tp_contains A p a = Some True" and "collect_hops F h \<noteq> []"
  shows "tp_resolve F A p peer h
           = Some (address_to_string A (client_address A p a (collect_hops F h)))"
proof -
  have "\<not> tp_empty p" using assms(4) tp_contains_empty [of p A a] by auto
  with assms show ?thesis
    by (simp add: tp_resolve_def walk_hops_spec client_address_def Let_def)
qed

lemma client_address_first_untrusted:
  assumes "\<forall>t \<in> set chain. trusted_hop A p t" and "\<not> trusted_hop A p hop"
    and "parseAddress A hop = Some a"
  shows "client_address A p peer (left @ hop # chain) = a"
  using assms by (simp add: client_address_def Let_def dropWhile_append2 dropWhile_append)

lemma tp_resolve_total:
  assumes "asio_ok A" and "tp_wf A p"
  shows "\<exists>ip. tp_resolve F A p peer h = Some ip"
proof (cases "parseAddress A peer")
  case (Some a)
  obtain b where "tp_contains A p a = Some b" using tp_contains_total [OF assms] by blast
  with Some show ?thesis
    by (auto simp: tp_resolve_def Let_def walk_hops_spec [OF assms] split: option.splits)
qed (simp add: tp_resolve_def)

lemma sv_find_first: "c \<notin> set xs \<Longrightarrow> sv_find (xs @ c # ys) c 0 = Some (length xs)"
  by (simp add: sv_find_def index_of_append_first)

lemma tp_add_v4:
  assumes "CHR ''/'' \<notin> set base" and "parseAddress A base = Some (V4 b)"
    and "parse_prefix digits = Some k" and "k \<le> 32"
  shows "tp_add A (base @ CHR ''/'' # digits) p =
     (case canonical_v4 A b k of
        None \<Rightarrow> Inl (Invalid_prefix (base @ CHR ''/'' # digits))
      | Some n \<Rightarrow> Inr (p\<lparr>tp_v4 := tp_v4 p @ [n]\<rparr>))"
  using assms
  by (simp add: tp_add_def Let_def sv_find_first sv_substr_def add_network_def)

lemma in_network_v4_canonical:
  assumes "asio_ok A" and "canonical_v4 A b k = Some n"
  shows "in_network_v4 a n \<longleftrightarrow> (\<forall>i<32. 32 - k \<le> i \<longrightarrow> bit a i = bit b i)"
  using asio_v4(2,3) [OF assms] by (auto simp: in_network_v4_def)

lemma same_prefix_bits:
  fixes a b :: "'a::len word"
  assumes "drop_bit n a = drop_bit n b" and "n \<le> i"
  shows "bit a i = bit b i"
proof -
  have "bit (drop_bit n a) (i - n) = bit (drop_bit n b) (i - n)" using assms(1) by simp
  with assms(2) show ?thesis by (simp add: bit_drop_bit_eq)
qed

section \<open>An Asio for closed examples\<close>

definition example_hosts :: "(string \<times> address) list" where
  "example_hosts =
     [(''10.0.0.1'', V4 0x0A000001), (''10.0.0.2'', V4 0x0A000002), (''10.0.0.0'', V4 0x0A000000),
      (''203.0.113.7'', V4 0xCB007107), (''1.1.1.1'', V4 0x01010101)]"

definition example_asio :: asio where
  "example_asio =
     \<lparr>make_address = map_of example_hosts,
      address_to_string = (\<lambda>a. case map_of (map prod.swap example_hosts) a of
                                 None \<Rightarrow> ''?'' | Some s \<Rightarrow> s),
      is_v4_mapped = (\<lambda>a. drop_bit 32 a = 0xFFFF),
      v4_mapped = ucast,
      canonical_v4 = (\<lambda>a p. if 32 < p then None else Some (push_bit (32 - p) (drop_bit (32 - p) a), p)),
      canonical_v6 = (\<lambda>a s p.
        if 128 < p then None else Some ((push_bit (128 - p) (drop_bit (128 - p) a), s), p))\<rparr>"

lemma example_asio_ok: "asio_ok example_asio"
  unfolding asio_ok_def example_asio_def
  by (auto simp: bit_push_bit_iff bit_drop_bit_eq split: if_splits)

lemma example_proxies_wf: "tp_wf example_asio \<lparr>tp_v4 = [(0x0A000000, 8)], tp_v6 = []\<rparr>"
proof -
  have "canonical_v4 example_asio 0x0A000000 8 = Some (0x0A000000, 8)" by code_simp
  then show ?thesis by (auto simp: tp_wf_def made_v4_def)
qed

section \<open>Properties\<close>

text \<open>C18: A peer that is not a trusted proxy cannot choose its address: whatever forwarding headers
  it sends, the resolved client is the socket peer itself, normalised.\<close>

theorem resolve_ignores_untrusted_headers:
  assumes "asio_ok A" and "build_proxies A cidrs TrustedProxies_init = Inr p"
    and "parseAddress A peer = Some a" and "tp_contains A p a \<noteq> Some True"
  shows "tp_resolve F A p peer h = Some (address_to_string A a)"
proof -
  from assms(1,2) have "tp_wf A p" by (auto intro: build_proxies_wf [OF _ tp_wf_init])
  with assms obtain b where "tp_contains A p a = Some b" using tp_contains_total by blast
  with assms show ?thesis by (intro tp_resolve_untrusted) auto
qed

theorem resolve_ignores_untrusted_headers_witness:
  "tp_resolve alist_fields example_asio \<lparr>tp_v4 = [(0x0A000001, 32)], tp_v6 = []\<rparr>
     ''203.0.113.7'' [(''X-Forwarded-For'', ''1.1.1.1'')] = Some ''203.0.113.7''"
proof -
  have *: "tp_resolve alist_fields example_asio \<lparr>tp_v4 = [(0x0A000001, 32)], tp_v6 = []\<rparr>
     ''203.0.113.7'' [(''X-Forwarded-For'', ''1.1.1.1'')]
       = Some (address_to_string example_asio (V4 0xCB007107))"
    by (rule resolve_ignores_untrusted_headers [OF example_asio_ok, of "[''10.0.0.1'']"]) code_simp+
  show ?thesis unfolding * by code_simp
qed

text \<open>C24: Behind trusted proxies the client is the rightmost hop that is not one of them: every hop to
  its right is trusted, and whatever the client put to its left has no influence on the answer.\<close>

theorem resolve_rightmost_untrusted:
  assumes "asio_ok A" and "tp_wf A p"
    and "parseAddress A peer = Some pa" and "tp_contains A p pa = Some True"
    and "concat (map split_commas (bf_all F h ''X-Forwarded-For'')) = left @ hop # chain"
    and "\<forall>t \<in> set chain. trusted_hop A p t"
    and "parseAddress A hop = Some a" and "tp_contains A p a \<noteq> Some True"
  shows "tp_resolve F A p peer h = Some (address_to_string A a)"
proof -
  have hops: "collect_hops F h = left @ hop # chain"
    using assms(5) by (simp add: collect_hops_concat)
  have "\<not> trusted_hop A p hop" using assms(7,8) by (simp add: trusted_hop_def)
  then have "client_address A p pa (left @ hop # chain) = a"
    using assms(6,7) by (intro client_address_first_untrusted) auto
  with tp_resolve_hops [OF assms(1-4), of F h] hops show ?thesis by simp
qed

theorem resolve_rightmost_untrusted_witness:
  "tp_resolve alist_fields example_asio \<lparr>tp_v4 = [(0x0A000000, 8)], tp_v6 = []\<rparr>
     ''10.0.0.1'' [(''X-Forwarded-For'', ''1.1.1.1, 203.0.113.7, 10.0.0.2'')] = Some ''203.0.113.7''"
proof -
  let ?h = "[(''X-Forwarded-For'', ''1.1.1.1, 203.0.113.7, 10.0.0.2'')]"
    and ?p = "\<lparr>tp_v4 = [(0x0A000000, 8)], tp_v6 = []\<rparr>"
  have "tp_resolve alist_fields example_asio ?p ''10.0.0.1'' ?h
       = Some (address_to_string example_asio (V4 0xCB007107))"
  proof (rule resolve_rightmost_untrusted [OF example_asio_ok example_proxies_wf])
    show "concat (map split_commas (bf_all alist_fields ?h ''X-Forwarded-For''))
        = [''1.1.1.1''] @ '' 203.0.113.7'' # ['' 10.0.0.2'']" by code_simp
    show "\<forall>t \<in> set ['' 10.0.0.2'']. trusted_hop example_asio ?p t" by code_simp
    show "parseAddress example_asio ''10.0.0.1'' = Some (V4 0x0A000001)" by code_simp
    show "parseAddress example_asio '' 203.0.113.7'' = Some (V4 0xCB007107)" by code_simp
    show "tp_contains example_asio ?p (V4 0x0A000001) = Some True" by code_simp
    show "tp_contains example_asio ?p (V4 0xCB007107) \<noteq> Some True"
      by (simp add: tp_contains_def example_asio_def)
  qed
  moreover have "address_to_string example_asio (V4 0xCB007107) = ''203.0.113.7''" by code_simp
  ultimately show ?thesis by (simp only:)
qed

text \<open>C34: The whole answer for a trusted peer with forwarding hops: the loop computes the declarative
  reading \<^verbatim>\<open>client_address\<close>, so garbage in the chain stops at the closest trusted hop and a
  chain of trusted hops only gives the farthest one.\<close>

theorem resolve_refines_client_address:
  assumes "asio_ok A" and "tp_wf A p"
    and "parseAddress A peer = Some pa" and "tp_contains A p pa = Some True"
    and "bf_all F h ''X-Forwarded-For'' \<noteq> []"
  shows "tp_resolve F A p peer h
           = Some (address_to_string A
               (client_address A p pa (concat (map split_commas (bf_all F h ''X-Forwarded-For'')))))"
proof -
  have "collect_hops F h \<noteq> []"
    using assms(5) by (cases "bf_all F h ''X-Forwarded-For''") (simp_all add: collect_hops_concat)
  from tp_resolve_hops [OF assms(1-4) this] show ?thesis by (simp add: collect_hops_concat)
qed

theorem resolve_refines_client_address_witness:
  "tp_resolve alist_fields example_asio \<lparr>tp_v4 = [(0x0A000000, 8)], tp_v6 = []\<rparr>
     ''10.0.0.1'' [(''X-Forwarded-For'', ''203.0.113.7, unknown, 10.0.0.2'')] = Some ''10.0.0.2''"
proof -
  let ?h = "[(''X-Forwarded-For'', ''203.0.113.7, unknown, 10.0.0.2'')]"
    and ?p = "\<lparr>tp_v4 = [(0x0A000000, 8)], tp_v6 = []\<rparr>"
  have "tp_resolve alist_fields example_asio ?p ''10.0.0.1'' ?h
      = Some (address_to_string example_asio (client_address example_asio ?p (V4 0x0A000001)
          (concat (map split_commas (bf_all alist_fields ?h ''X-Forwarded-For'')))))"
  proof (rule resolve_refines_client_address [OF example_asio_ok example_proxies_wf])
    show "parseAddress example_asio ''10.0.0.1'' = Some (V4 0x0A000001)" by code_simp
    show "tp_contains example_asio ?p (V4 0x0A000001) = Some True" by code_simp
    show "bf_all alist_fields ?h ''X-Forwarded-For'' \<noteq> []" by code_simp
  qed
  moreover have "client_address example_asio ?p (V4 0x0A000001)
      (concat (map split_commas (bf_all alist_fields ?h ''X-Forwarded-For''))) = V4 0x0A000002"
    by code_simp
  moreover have "address_to_string example_asio (V4 0x0A000002) = ''10.0.0.2''" by code_simp
  ultimately show ?thesis by (simp only:)
qed

text \<open>Adding a version 4 range trusts exactly the addresses that share its first bits, besides
  those trusted before; a range with host bits set is normalised.\<close>

theorem add_range_trusts_prefix:
  assumes "asio_ok A" and "tp_wf A p"
    and "CHR ''/'' \<notin> set base" and "parseAddress A base = Some (V4 b)"
    and "parse_prefix digits = Some k" and "k \<le> 32"
    and "normalize A addr = V4 a"
  shows "\<exists>q. tp_add A (base @ CHR ''/'' # digits) p = Inr q
    \<and> tp_contains A q addr
        = Some (tp_contains A p addr = Some True \<or> (\<forall>i<32. 32 - k \<le> i \<longrightarrow> bit a i = bit b i))"
proof -
  from assms(6) obtain n where n: "canonical_v4 A b k = Some n"
    using asio_v4(1) [OF assms(1), of b k] by auto
  define q where "q = p\<lparr>tp_v4 := tp_v4 p @ [n]\<rparr>"
  have add: "tp_add A (base @ CHR ''/'' # digits) p = Inr q"
    by (simp only: tp_add_v4 [OF assms(3-6)] n q_def option.case)
  then have "tp_wf A q" by (rule tp_add_wf [OF assms(1,2)])
  with add assms show ?thesis
    by (auto simp: tp_contains_def tp_wf_def contains_v4_list q_def
        in_network_v4_canonical [OF assms(1) n])
qed

theorem add_range_trusts_prefix_witness:
  "\<exists>q. tp_add example_asio ''10.0.0.1/8'' TrustedProxies_init = Inr q
     \<and> tp_contains example_asio q (V4 0x0AC80001) = Some True"
proof -
  have "\<exists>q. tp_add example_asio (''10.0.0.1'' @ CHR ''/'' # ''8'') TrustedProxies_init = Inr q
    \<and> tp_contains example_asio q (V4 0x0AC80001)
        = Some (tp_contains example_asio TrustedProxies_init (V4 0x0AC80001) = Some True
            \<or> (\<forall>i<32. 32 - 8 \<le> i \<longrightarrow> bit (0x0AC80001 :: 32 word) i = bit (0x0A000001 :: 32 word) i))"
  proof (rule add_range_trusts_prefix [OF example_asio_ok])
    show "parseAddress example_asio ''10.0.0.1'' = Some (V4 0x0A000001)" by code_simp
    show "parse_prefix ''8'' = Some 8" by code_simp
  qed simp_all
  moreover have bits: "drop_bit 24 (0x0AC80001 :: 32 word) = drop_bit 24 0x0A000001" by code_simp
  have "\<forall>i<32. 32 - 8 \<le> i \<longrightarrow> bit (0x0AC80001 :: 32 word) i = bit (0x0A000001 :: 32 word) i"
    by (intro allI impI same_prefix_bits [OF bits]) simp
  ultimately show ?thesis by simp
qed

text \<open>Resolving a client never lets an exception escape: with a list accepted by
  \<^verbatim>\<open>setTrustedProxies\<close>, \<^verbatim>\<open>contains\<close> never builds a network with a prefix out of
  range, whatever the peer and the headers.\<close>

theorem resolve_never_throws:
  assumes "asio_ok A" and "build_proxies A cidrs TrustedProxies_init = Inr p"
  shows "\<exists>ip. tp_resolve F A p peer h = Some ip"
  using assms by (intro tp_resolve_total) (auto intro: build_proxies_wf [OF _ tp_wf_init])

theorem resolve_never_throws_witness:
  "\<exists>ip. tp_resolve alist_fields example_asio \<lparr>tp_v4 = [(0x0A000001, 32)], tp_v6 = []\<rparr>
     ''10.0.0.2'' [] = Some ip"
  by (rule resolve_never_throws [OF example_asio_ok, of "[''10.0.0.1'']"]) code_simp

end
