(* ===== verification/WebSocketContext.thy ===== *)
theory WebSocketContext
  imports HttpMessage
begin

text \<open>
  \<^verbatim>\<open>WebSocketContext\<close> and \<^verbatim>\<open>WebSocketMessage\<close> of
  include/cppgate/WebSocketContext.h: the data of one server-side WebSocket connection that
  handlers and the router see, and the three emit operations. A callback is an identifier; an emit
  operation gives the calls it makes, which the session runs.
\<close>

section \<open>Messages and close codes\<close>

record ws_message_view =
  wm_data :: string
  wm_is_text :: bool

definition wm_isText :: "ws_message_view \<Rightarrow> bool" where
  "wm_isText m = wm_is_text m"

definition wm_isBinary :: "ws_message_view \<Rightarrow> bool" where
  "wm_isBinary m = (\<not> wm_is_text m)"

definition wm_size :: "ws_message_view \<Rightarrow> nat" where
  "wm_size m = length (wm_data m)"

text \<open>Values of \<^verbatim>\<open>websocket::close_code\<close> the sources name.\<close>

type_synonym close_code = nat

abbreviation cc_none :: close_code where "cc_none \<equiv> 0"

abbreviation cc_normal :: close_code where "cc_normal \<equiv> 1000"

abbreviation cc_going_away :: close_code where "cc_going_away \<equiv> 1001"

abbreviation cc_no_status :: close_code where "cc_no_status \<equiv> 1005"

abbreviation cc_abnormal :: close_code where "cc_abnormal \<equiv> 1006"

abbreviation cc_policy_error :: close_code where "cc_policy_error \<equiv> 1008"

abbreviation cc_internal_error :: close_code where "cc_internal_error \<equiv> 1011"

section \<open>The context\<close>

text \<open>\<open>reject_status\<close> 0 is \<^verbatim>\<open>status::unknown\<close>; \<open>no_route\<close> is the largest \<^verbatim>\<open>size_t\<close>.\<close>

record ('h, 'c, 'cb) ws_context =
  wc_request :: "'h request_msg"
  wc_on_message :: "'cb option"
  wc_on_close :: "'cb option"
  wc_on_error :: "'cb option"
  wc_context :: "'c option"
  wc_ip :: string
  wc_peer_ip :: string
  wc_params :: "param list"
  wc_reject_status :: nat
  wc_reject_body :: string
  wc_route_index :: nat
  wc_closed :: bool

definition no_route :: nat where
  "no_route = 2 ^ 64 - 1"

definition WebSocketContext :: "'h request_msg \<Rightarrow> string \<Rightarrow> ('h, 'c, 'cb) ws_context" where
  "WebSocketContext request peer_ip =
     \<lparr>wc_request = request, wc_on_message = None, wc_on_close = None, wc_on_error = None,
      wc_context = None, wc_ip = peer_ip, wc_peer_ip = peer_ip, wc_params = [],
      wc_reject_status = 0, wc_reject_body = [], wc_route_index = no_route, wc_closed = False\<rparr>"

definition ws_onMessage :: "'cb \<Rightarrow> ('h, 'c, 'cb) ws_context \<Rightarrow> ('h, 'c, 'cb) ws_context" where
  "ws_onMessage callback c = c\<lparr>wc_on_message := Some callback\<rparr>"

definition ws_onClose :: "'cb \<Rightarrow> ('h, 'c, 'cb) ws_context \<Rightarrow> ('h, 'c, 'cb) ws_context" where
  "ws_onClose callback c = c\<lparr>wc_on_close := Some callback\<rparr>"

definition ws_onError :: "'cb \<Rightarrow> ('h, 'c, 'cb) ws_context \<Rightarrow> ('h, 'c, 'cb) ws_context" where
  "ws_onError callback c = c\<lparr>wc_on_error := Some callback\<rparr>"

definition ws_setContext :: "'c \<Rightarrow> ('h, 'c, 'cb) ws_context \<Rightarrow> ('h, 'c, 'cb) ws_context" where
  "ws_setContext ctx c = c\<lparr>wc_context := Some ctx\<rparr>"

fun ws_find_param :: "param list \<Rightarrow> string \<Rightarrow> string" where
  "ws_find_param [] key = []"
| "ws_find_param ((k, v) # ps) key = (if k = key then v else ws_find_param ps key)"

definition ws_urlParam :: "('h, 'c, 'cb) ws_context \<Rightarrow> string \<Rightarrow> string" where
  "ws_urlParam c key = ws_find_param (wc_params c) key"

definition ws_reject :: "nat \<Rightarrow> string \<Rightarrow> ('h, 'c, 'cb) ws_context \<Rightarrow> ('h, 'c, 'cb) ws_context" where
  "ws_reject status body c = c\<lparr>wc_reject_status := status, wc_reject_body := body\<rparr>"

section \<open>Emitting events\<close>

datatype ('cb, 'ec) ws_call = OnMessage 'cb ws_message_view | OnError 'cb 'ec | OnClose 'cb close_code

definition emitMessage ::
  "string \<Rightarrow> bool \<Rightarrow> ('h, 'c, 'cb) ws_context \<Rightarrow> ('h, 'c, 'cb) ws_context \<times> ('cb, 'ec) ws_call list" where
  "emitMessage data is_text c =
     (c, case wc_on_message c of
           Some cb \<Rightarrow> if \<not> wc_closed c then [OnMessage cb \<lparr>wm_data = data, wm_is_text = is_text\<rparr>] else []
         | None \<Rightarrow> [])"

definition emitError ::
  "'ec \<Rightarrow> ('h, 'c, 'cb) ws_context \<Rightarrow> ('h, 'c, 'cb) ws_context \<times> ('cb, 'ec) ws_call list" where
  "emitError ec c =
     (c, case wc_on_error c of
           Some cb \<Rightarrow> if \<not> wc_closed c then [OnError cb ec] else []
         | None \<Rightarrow> [])"

text \<open>The close callback is moved out of the context; the other two are dropped with it.\<close>

definition emitClose ::
  "close_code \<Rightarrow> ('h, 'c, 'cb) ws_context \<Rightarrow> ('h, 'c, 'cb) ws_context \<times> ('cb, 'ec) ws_call list" where
  "emitClose code c =
     (if wc_closed c then (c, [])
      else (c\<lparr>wc_closed := True, wc_on_close := None, wc_on_message := None, wc_on_error := None\<rparr>,
            case wc_on_close c of Some cb \<Rightarrow> [OnClose cb code] | None \<Rightarrow> []))"

lemmas emit_defs = emitMessage_def emitError_def emitClose_def

lemma ws_find_param_first: "ws_find_param ps key = first_value ps key"
  by (induction ps key rule: ws_find_param.induct) auto

interpretation ws_params: param_reader wc_params ws_urlParam "\<lambda>c. True"
  by unfold_locales (simp add: ws_urlParam_def ws_find_param_first)

section \<open>Something that happens at most once\<close>

text \<open>
  The shared contract of the one-shot notifications (a connection's close, a request's
  completion): a flag that once set stays set, an operation that sets it, and what the operation
  puts out, which is nothing when the flag was already set.
\<close>

locale one_shot =
  fixes fired :: "'s \<Rightarrow> bool"
    and fire :: "'a \<Rightarrow> 's \<Rightarrow> 's \<times> 'o list"
  assumes fire_sets: "fired (fst (fire a s))"
    and fire_silent: "fired s \<Longrightarrow> fire a s = (s, [])"
    and fire_single: "length (snd (fire a s)) \<le> 1"
begin

lemma fire_again: "fire b (fst (fire a s)) = (fst (fire a s), [])"
  by (rule fire_silent) (rule fire_sets)

lemma fold_silent: "fired s \<Longrightarrow> fold (\<lambda>a (s, os). (fst (fire a s), os @ snd (fire a s))) as (s, os) = (s, os)"
  by (induction "as") (auto simp: fire_silent)

lemma fold_at_most_once:
  "length (snd (fold (\<lambda>a (s, os). (fst (fire a s), os @ snd (fire a s))) as (s, []))) \<le> 1"
proof (cases "as")
  case (Cons a as')
  then show ?thesis
    using fold_silent [of "fst (fire a s)" as' "snd (fire a s)"] fire_sets [of a s]
      fire_single [of a s]
    by simp
qed simp

end

interpretation ws_close: one_shot wc_closed
  "emitClose :: close_code \<Rightarrow> ('h, 'c, 'cb) ws_context \<Rightarrow> ('h, 'c, 'cb) ws_context \<times> ('cb, 'ec) ws_call list"
  by unfold_locales (auto simp: emitClose_def split: option.splits)

end
