(* ===== verification/Router.thy ===== *)
theory Router
  imports RoutePattern TrustedProxies WebSocketContext
begin

text \<open>
  The router of sources/Core/Router.cpp: routes with their middleware chains, registration and
  groups, the dispatch of an HTTP request (\<^verbatim>\<open>Router::route\<close>), the acceptance of a
  WebSocket upgrade (\<^verbatim>\<open>Router::upgrade\<close>) and the start of an accepted connection
  (\<^verbatim>\<open>Router::open\<close>). Handlers and middlewares are arbitrary actions that may answer,
  change the world or throw.
\<close>

section \<open>Handlers\<close>

text \<open>
  What an HTTP handler works on: the request, the response and the application's world; a
  WebSocket handler has the connection's context instead.
\<close>

record ('h, 'c, 'w) exchange =
  ex_request :: "('h, 'c) http_request"
  ex_response :: "'h http_response"
  ex_world :: 'w

record ('h, 'c, 'b, 'w) ws_exchange =
  wx_context :: "('h, 'c, 'b) ws_context"
  wx_world :: 'w

datatype ('h, 'c, 'b, 'w) handler =
    HttpHandler "(('h, 'c, 'w) exchange, unit) action"
  | WebSocketHandler "(('h, 'c, 'b, 'w) ws_exchange, bool) action"

text \<open>\<^verbatim>\<open>std::get\<close> on the other alternative throws \<^verbatim>\<open>bad_variant_access\<close>.\<close>

fun get_http :: "('h, 'c, 'b, 'w) handler \<Rightarrow> (('h, 'c, 'w) exchange, unit) action" where
  "get_http (HttpHandler f) = f"
| "get_http (WebSocketHandler f) = Threw"

fun get_websocket :: "('h, 'c, 'b, 'w) handler \<Rightarrow> (('h, 'c, 'b, 'w) ws_exchange, bool) action" where
  "get_websocket (WebSocketHandler f) = f"
| "get_websocket (HttpHandler f) = Threw"

fun is_websocket :: "('h, 'c, 'b, 'w) handler \<Rightarrow> bool" where
  "is_websocket (WebSocketHandler f) = True"
| "is_websocket (HttpHandler f) = False"

text \<open>The libraries the router calls; \<open>lb_url_path\<close> is the decoded path of a URI reference.\<close>

record ('h, 'p) libs =
  lb_fields :: "'h fields_lib"
  lb_re2 :: "'p re2"
  lb_asio :: asio
  lb_url_path :: "string \<Rightarrow> string option"

section \<open>Routes\<close>

record ('h, 'c, 'b, 'w, 'p) route =
  ro_handler :: "('h, 'c, 'b, 'w) handler"
  ro_pattern :: 'p
  ro_path :: string
  ro_param_names :: "string list"
  ro_methods :: "verb set"
  ro_pre :: "('h, 'c, 'b, 'w) handler list"
  ro_post :: "('h, 'c, 'b, 'w) handler list"

definition Route ::
  "'p re2 \<Rightarrow> verb set \<Rightarrow> string \<Rightarrow> ('h, 'c, 'b, 'w) handler list \<Rightarrow> ('h, 'c, 'b, 'w) handler
     \<Rightarrow> ('h, 'c, 'b, 'w) handler list \<Rightarrow> ('h, 'c, 'b, 'w, 'p) route option" where
  "Route R methods path pre_middlewares handler post_middlewares =
     (case createRegexPattern R path of
        None \<Rightarrow> None
      | Some (names, regex) \<Rightarrow>
          Some \<lparr>ro_handler = handler, ro_pattern = re_compile R regex, ro_path = path,
                ro_param_names = names, ro_methods = methods,
                ro_pre = pre_middlewares, ro_post = post_middlewares\<rparr>)"

definition pathMatch ::
  "'p re2 \<Rightarrow> ('h, 'c, 'b, 'w, 'p) route \<Rightarrow> string \<Rightarrow> route_params \<Rightarrow> bool \<times> route_params" where
  "pathMatch R route input params = path_match R (ro_pattern route) (ro_param_names route) input params"

definition methodMatch :: "('h, 'c, 'b, 'w, 'p) route \<Rightarrow> verb \<Rightarrow> bool" where
  "methodMatch route method \<longleftrightarrow> method \<in> ro_methods route"

definition isWebSocket :: "('h, 'c, 'b, 'w, 'p) route \<Rightarrow> bool" where
  "isWebSocket route = is_websocket (ro_handler route)"

text \<open>A middleware loop: HTTP middlewares only, up to the first that answers.\<close>

fun run_http_chain :: "('h, 'c, 'b, 'w) handler list \<Rightarrow> (('h, 'c, 'w) exchange, unit) action" where
  "run_http_chain [] e = Done () e"
| "run_http_chain (WebSocketHandler f # ms) e = run_http_chain ms e"
| "run_http_chain (HttpHandler f # ms) e =
     (case f e of
        Threw e1 \<Rightarrow> Threw e1
      | Done u e1 \<Rightarrow> if hasResponse (ex_response e1) then Done () e1 else run_http_chain ms e1)"

definition Route_call :: "('h, 'c, 'b, 'w, 'p) route \<Rightarrow> (('h, 'c, 'w) exchange, unit) action" where
  "Route_call route e =
     (case run_http_chain (ro_pre route) e of
        Threw e1 \<Rightarrow> Threw e1
      | Done u e1 \<Rightarrow>
          if \<not> hasResponse (ex_response e1)
          then (case get_http (ro_handler route) e1 of
                  Threw e2 \<Rightarrow> Threw e2
                | Done u e2 \<Rightarrow>
                    if \<not> hasResponse (ex_response e2) then run_http_chain (ro_post route) e2
                    else Done () e2)
          else Done () e1)"

fun run_ws_pre :: "('h, 'c, 'b, 'w) handler list \<Rightarrow> (('h, 'c, 'b, 'w) ws_exchange, bool) action" where
  "run_ws_pre [] x = Done True x"
| "run_ws_pre (HttpHandler f # ms) x = run_ws_pre ms x"
| "run_ws_pre (WebSocketHandler f # ms) x =
     (case f x of
        Threw x1 \<Rightarrow> Threw x1
      | Done go x1 \<Rightarrow> if \<not> go then Done False x1 else run_ws_pre ms x1)"

definition Route_upgrade :: "('h, 'c, 'b, 'w, 'p) route \<Rightarrow> (('h, 'c, 'b, 'w) ws_exchange, bool) action" where
  "Route_upgrade route x = run_ws_pre (ro_pre route) x"

fun run_ws_post :: "('h, 'c, 'b, 'w) handler list \<Rightarrow> (('h, 'c, 'b, 'w) ws_exchange, unit) action" where
  "run_ws_post [] x = Done () x"
| "run_ws_post (HttpHandler f # ms) x = run_ws_post ms x"
| "run_ws_post (WebSocketHandler f # ms) x =
     (case f x of
        Threw x1 \<Rightarrow> Threw x1
      | Done go x1 \<Rightarrow> if \<not> go then Done () x1 else run_ws_post ms x1)"

definition Route_open :: "('h, 'c, 'b, 'w, 'p) route \<Rightarrow> (('h, 'c, 'b, 'w) ws_exchange, unit) action" where
  "Route_open route x =
     (case get_websocket (ro_handler route) x of
        Threw x1 \<Rightarrow> Threw x1
      | Done go x1 \<Rightarrow> if \<not> go then Done () x1 else run_ws_post (ro_post route) x1)"

section \<open>The router\<close>

record ('h, 'c, 'b, 'w, 'p) router =
  rt_not_found :: "('h, 'c, 'b, 'w) handler"
  rt_method_not_allowed :: "('h, 'c, 'b, 'w) handler"
  rt_internal_error :: "('h, 'c, 'b, 'w) handler"
  rt_routes :: "('h, 'c, 'b, 'w, 'p) route list"
  rt_globals :: "(('h, 'c, 'w) exchange, unit) action list"
  rt_proxies :: trusted_proxies

text \<open>A handler that only sends; an exception of the send is an exception of the handler.\<close>

definition responding :: "'h sending \<Rightarrow> (('h, 'c, 'w) exchange, unit) action" where
  "responding f e =
     (case f (ex_response e) of
        Done u r \<Rightarrow> Done () (e\<lparr>ex_response := r\<rparr>)
      | Threw r \<Rightarrow> Threw (e\<lparr>ex_response := r\<rparr>))"

definition default_not_found :: "'h fields_lib \<Rightarrow> ('h, 'c, 'b, 'w) handler" where
  "default_not_found F = HttpHandler (responding (sendNotFound F ''Handler not found''))"

definition default_method_not_allowed :: "'h fields_lib \<Rightarrow> ('h, 'c, 'b, 'w) handler" where
  "default_method_not_allowed F = HttpHandler (responding (res_send F 405 ''Method Not Allowed''))"

definition default_internal_error :: "'h fields_lib \<Rightarrow> ('h, 'c, 'b, 'w) handler" where
  "default_internal_error F = HttpHandler (responding (res_send F 500 ''Internal Server Error''))"

definition Router_init :: "'h fields_lib \<Rightarrow> ('h, 'c, 'b, 'w, 'p) router" where
  "Router_init F =
     \<lparr>rt_not_found = default_not_found F, rt_method_not_allowed = default_method_not_allowed F,
      rt_internal_error = default_internal_error F, rt_routes = [], rt_globals = [],
      rt_proxies = TrustedProxies_init\<rparr>"

definition setNotFoundHandler ::
  "('h, 'c, 'b, 'w) handler \<Rightarrow> ('h, 'c, 'b, 'w, 'p) router \<Rightarrow> ('h, 'c, 'b, 'w, 'p) router" where
  "setNotFoundHandler handler rt = rt\<lparr>rt_not_found := handler\<rparr>"

definition setMethodNotAllowedHandler ::
  "('h, 'c, 'b, 'w) handler \<Rightarrow> ('h, 'c, 'b, 'w, 'p) router \<Rightarrow> ('h, 'c, 'b, 'w, 'p) router" where
  "setMethodNotAllowedHandler handler rt = rt\<lparr>rt_method_not_allowed := handler\<rparr>"

definition router_use ::
  "(('h, 'c, 'w) exchange, unit) action \<Rightarrow> ('h, 'c, 'b, 'w, 'p) router \<Rightarrow> ('h, 'c, 'b, 'w, 'p) router" where
  "router_use middleware rt = rt\<lparr>rt_globals := rt_globals rt @ [middleware]\<rparr>"

text \<open>The list is built completely, then published; an invalid entry leaves the old one.\<close>

definition setTrustedProxies ::
  "asio \<Rightarrow> string list \<Rightarrow> ('h, 'c, 'b, 'w, 'p) router \<Rightarrow> invalid_argument + ('h, 'c, 'b, 'w, 'p) router" where
  "setTrustedProxies A cidrs rt =
     (case build_proxies A cidrs TrustedProxies_init of
        Inl e \<Rightarrow> Inl e
      | Inr p \<Rightarrow> Inr (rt\<lparr>rt_proxies := p\<rparr>))"

text \<open>
  Both \<^verbatim>\<open>add\<close> overloads: a route whose expression did not compile is dropped. None is
  the pattern loop not returning.
\<close>

definition add_entry ::
  "'p re2 \<Rightarrow> ('h, 'c, 'b, 'w, 'p) route option \<Rightarrow> ('h, 'c, 'b, 'w, 'p) router
     \<Rightarrow> ('h, 'c, 'b, 'w, 'p) router option" where
  "add_entry R entry rt =
     (case entry of
        None \<Rightarrow> None
      | Some r \<Rightarrow> Some (if \<not> re_ok R (ro_pattern r) then rt else rt\<lparr>rt_routes := rt_routes rt @ [r]\<rparr>))"

definition Router_add_ws ::
  "'p re2 \<Rightarrow> string \<Rightarrow> ('h, 'c, 'b, 'w) handler list \<Rightarrow> (('h, 'c, 'b, 'w) ws_exchange, bool) action
     \<Rightarrow> ('h, 'c, 'b, 'w) handler list \<Rightarrow> ('h, 'c, 'b, 'w, 'p) router
     \<Rightarrow> ('h, 'c, 'b, 'w, 'p) router option" where
  "Router_add_ws R path pre handler post rt =
     add_entry R (Route R {} path pre (WebSocketHandler handler) post) rt"

definition Router_add_http ::
  "'p re2 \<Rightarrow> verb set \<Rightarrow> string \<Rightarrow> ('h, 'c, 'b, 'w) handler list \<Rightarrow> (('h, 'c, 'w) exchange, unit) action
     \<Rightarrow> ('h, 'c, 'b, 'w) handler list \<Rightarrow> ('h, 'c, 'b, 'w, 'p) router
     \<Rightarrow> ('h, 'c, 'b, 'w, 'p) router option" where
  "Router_add_http R methods path pre handler post rt =
     add_entry R (Route R methods path pre (HttpHandler handler) post) rt"

fun group_add ::
  "'p re2 \<Rightarrow> string \<Rightarrow> ('h, 'c, 'b, 'w) handler list \<Rightarrow> ('h, 'c, 'b, 'w) handler list
     \<Rightarrow> ('h, 'c, 'b, 'w, 'p) route list \<Rightarrow> ('h, 'c, 'b, 'w, 'p) router
     \<Rightarrow> ('h, 'c, 'b, 'w, 'p) router option" where
  "group_add R prefix pre post [] rt = Some rt"
| "group_add R prefix pre post (r # rs) rt =
     (let pre_combined = pre @ ro_pre r; post_combined = post @ ro_post r;
          full_path = prefix @ ro_path r in
      case (case ro_handler r of
              HttpHandler f \<Rightarrow> Router_add_http R (ro_methods r) full_path pre_combined f post_combined rt
            | WebSocketHandler f \<Rightarrow> Router_add_ws R full_path pre_combined f post_combined rt) of
        None \<Rightarrow> None
      | Some rt1 \<Rightarrow> group_add R prefix pre post rs rt1)"

text \<open>Only the routes of the subrouter are taken over, whatever else \<open>fn\<close> set on it.\<close>

definition Router_group ::
  "('h, 'p) libs \<Rightarrow> string \<Rightarrow> ('h, 'c, 'b, 'w) handler list \<Rightarrow> ('h, 'c, 'b, 'w) handler list
     \<Rightarrow> (('h, 'c, 'b, 'w, 'p) router \<Rightarrow> ('h, 'c, 'b, 'w, 'p) router option)
     \<Rightarrow> ('h, 'c, 'b, 'w, 'p) router \<Rightarrow> ('h, 'c, 'b, 'w, 'p) router option" where
  "Router_group L prefix pre post fn rt =
     (case fn (Router_init (lb_fields L)) of
        None \<Rightarrow> None
      | Some subrouter \<Rightarrow> group_add (lb_re2 L) prefix pre post (rt_routes subrouter) rt)"

section \<open>Dispatching a request\<close>

definition set_params ::
  "route_params option \<Rightarrow> ('h, 'c, 'w) exchange \<Rightarrow> ('h, 'c, 'w) exchange" where
  "set_params p e = e\<lparr>ex_request := (ex_request e)\<lparr>hr_params := p\<rparr>\<rparr>"

text \<open>The params pointer is cleared after the handler returned; a throw passes it by.\<close>

fun clear_params :: "(('h, 'c, 'w) exchange, unit) outcome \<Rightarrow> (('h, 'c, 'w) exchange, unit) outcome" where
  "clear_params (Done u e) = Done u (set_params None e)"
| "clear_params (Threw e) = Threw e"

text \<open>The global middlewares: \<open>Inl\<close> ends the request with this outcome.\<close>

fun run_globals ::
  "('h, 'c, 'b, 'w) handler \<Rightarrow> (('h, 'c, 'w) exchange, unit) action list \<Rightarrow> ('h, 'c, 'w) exchange
     \<Rightarrow> (('h, 'c, 'w) exchange, unit) outcome + ('h, 'c, 'w) exchange" where
  "run_globals h500 [] e = Inr e"
| "run_globals h500 (m # ms) e =
     (case m e of
        Threw e1 \<Rightarrow> Inl (get_http h500 e1)
      | Done u e1 \<Rightarrow> if hasResponse (ex_response e1) then Inl (Done () e1) else run_globals h500 ms e1)"

text \<open>A matched route: its chain under \<^verbatim>\<open>try\<close>, the 500 handler when it threw or did not answer.\<close>

definition serve_route ::
  "('h, 'c, 'b, 'w) handler \<Rightarrow> ('h, 'c, 'b, 'w, 'p) route \<Rightarrow> (('h, 'c, 'w) exchange, unit) action" where
  "serve_route h500 route e =
     clear_params
       (case Route_call route e of
          Threw e1 \<Rightarrow> get_http h500 e1
        | Done u e1 \<Rightarrow> if hasResponse (ex_response e1) then Done () e1 else get_http h500 e1)"

fun scan_routes ::
  "'p re2 \<Rightarrow> ('h, 'c, 'b, 'w, 'p) router \<Rightarrow> string \<Rightarrow> ('h, 'c, 'b, 'w, 'p) route list \<Rightarrow> bool
     \<Rightarrow> route_params \<Rightarrow> (('h, 'c, 'w) exchange, unit) action" where
  "scan_routes R rt path [] path_matched params e =
     clear_params
       (get_http (if path_matched then rt_method_not_allowed rt else rt_not_found rt)
          (set_params (Some params) e))"
| "scan_routes R rt path (route # rs) path_matched params e =
     (if isWebSocket route then scan_routes R rt path rs path_matched params e
      else (case pathMatch R route path params of (matched, params1) \<Rightarrow>
        if matched then
          (if methodMatch route (rq_method (hr_request (ex_request e)))
           then serve_route (rt_internal_error rt) route (set_params (Some params1) e)
           else scan_routes R rt path rs True params1 e)
        else scan_routes R rt path rs path_matched params1 e))"

definition Router_route ::
  "('h, 'p) libs \<Rightarrow> ('h, 'c, 'b, 'w, 'p) router \<Rightarrow> (('h, 'c, 'w) exchange, unit) action" where
  "Router_route L rt e =
     (case tp_resolve (lb_fields L) (lb_asio L) (rt_proxies rt) (hr_peer_ip (ex_request e))
             (rq_fields (hr_request (ex_request e))) of
        None \<Rightarrow> Threw e
      | Some ip \<Rightarrow>
          (case run_globals (rt_internal_error rt) (rt_globals rt)
                  (e\<lparr>ex_request := setIP ip (ex_request e)\<rparr>) of
             Inl out \<Rightarrow> out
           | Inr e1 \<Rightarrow>
               (case lb_url_path L (rq_target (hr_request (ex_request e1))) of
                  None \<Rightarrow> get_http (rt_internal_error rt) e1
                | Some path \<Rightarrow>
                    scan_routes (lb_re2 L) rt path (rt_routes rt) False RouteParams_init e1)))"

section \<open>Accepting and opening a WebSocket connection\<close>

type_synonym ('h, 'c, 'b, 'w) upgrade_state = "('h, 'c, 'b, 'w) ws_exchange \<times> 'h http_response"

text \<open>An HTTP handler answers the upgrade request, which is then refused.\<close>

definition refuse_with ::
  "('h, 'c, 'b, 'w) handler \<Rightarrow> ('h, 'c) http_request
     \<Rightarrow> (('h, 'c, 'b, 'w) upgrade_state, bool) action" where
  "refuse_with h request s =
     (case get_http h \<lparr>ex_request = request, ex_response = snd s, ex_world = wx_world (fst s)\<rparr> of
        Threw e \<Rightarrow> Threw ((fst s)\<lparr>wx_world := ex_world e\<rparr>, ex_response e)
      | Done u e \<Rightarrow> Done False ((fst s)\<lparr>wx_world := ex_world e\<rparr>, ex_response e))"

definition with_context ::
  "(('h, 'c, 'b) ws_context \<Rightarrow> ('h, 'c, 'b) ws_context)
     \<Rightarrow> ('h, 'c, 'b, 'w) ws_exchange \<Rightarrow> ('h, 'c, 'b, 'w) ws_exchange" where
  "with_context f x = x\<lparr>wx_context := f (wx_context x)\<rparr>"

text \<open>The connection's own copy of the params: cleared, then one entry per \<^verbatim>\<open>forEach\<close> call.\<close>

definition copy_params ::
  "route_params \<Rightarrow> ('h, 'c, 'b) ws_context \<Rightarrow> ('h, 'c, 'b) ws_context" where
  "copy_params params c =
     rp_forEach (\<lambda>key val c. c\<lparr>wc_params := wc_params c @ [(key, val)]\<rparr>) params (c\<lparr>wc_params := []\<rparr>)"

text \<open>The response of a middleware's rejection, sent outside of the \<^verbatim>\<open>try\<close>.\<close>

definition reject_upgrade :: "'h fields_lib \<Rightarrow> ('h, 'c, 'b) ws_context \<Rightarrow> 'h sending" where
  "reject_upgrade F c response =
     (if wc_reject_status c = 0 then res_send F 403 ''Forbidden'' response
      else res_send F (wc_reject_status c) (wc_reject_body c) response)"

definition try_upgrade ::
  "'h fields_lib \<Rightarrow> ('h, 'c, 'b, 'w, 'p) router \<Rightarrow> ('h, 'c) http_request
     \<Rightarrow> ('h, 'c, 'b, 'w, 'p) route \<Rightarrow> nat \<Rightarrow> (('h, 'c, 'b, 'w) upgrade_state, bool) action" where
  "try_upgrade F rt request route i s =
     (case Route_upgrade route (fst s) of
        Threw x \<Rightarrow> refuse_with (rt_internal_error rt) request (x, snd s)
      | Done accepted x \<Rightarrow>
          if \<not> accepted then
            (case reject_upgrade F (wx_context x) (snd s) of
               Done u r \<Rightarrow> Done False (x, r)
             | Threw r \<Rightarrow> Threw (x, r))
          else Done True (with_context (\<lambda>c. c\<lparr>wc_route_index := i\<rparr>) x, snd s))"

fun scan_upgrade ::
  "('h, 'p) libs \<Rightarrow> ('h, 'c, 'b, 'w, 'p) router \<Rightarrow> ('h, 'c) http_request \<Rightarrow> string
     \<Rightarrow> ('h, 'c, 'b, 'w, 'p) route list \<Rightarrow> nat \<Rightarrow> route_params
     \<Rightarrow> (('h, 'c, 'b, 'w) upgrade_state, bool) action" where
  "scan_upgrade L rt request path [] i params s = refuse_with (rt_not_found rt) request s"
| "scan_upgrade L rt request path (route # rs) i params s =
     (if \<not> isWebSocket route then scan_upgrade L rt request path rs (i + 1) params s
      else (case pathMatch (lb_re2 L) route path params of (matched, params1) \<Rightarrow>
        if matched
        then try_upgrade (lb_fields L) rt request route i
               (with_context (copy_params params1) (fst s), snd s)
        else scan_upgrade L rt request path rs (i + 1) params1 s))"

definition Router_upgrade ::
  "('h, 'p) libs \<Rightarrow> ('h, 'c, 'b, 'w, 'p) router \<Rightarrow> (('h, 'c, 'b, 'w) upgrade_state, bool) action" where
  "Router_upgrade L rt s =
     (let c = wx_context (fst s); message = wc_request c in
      case tp_resolve (lb_fields L) (lb_asio L) (rt_proxies rt) (wc_peer_ip c) (rq_fields message) of
        None \<Rightarrow> Threw s
      | Some ip \<Rightarrow>
          (let request = setIP ip (setPeerIP (wc_peer_ip c) (HttpRequest message));
               s1 = (with_context (\<lambda>c. c\<lparr>wc_ip := ip\<rparr>) (fst s), snd s) in
           case lb_url_path L (rq_target message) of
             None \<Rightarrow> refuse_with (rt_internal_error rt) request s1
           | Some path \<Rightarrow>
               scan_upgrade L rt request path (rt_routes rt) 0 RouteParams_init s1))"

text \<open>\<open>close\<close> is the context's virtual \<^verbatim>\<open>close\<close>, which the session implements.\<close>

definition Router_open ::
  "(close_code \<Rightarrow> ('h, 'c, 'b, 'w) ws_exchange \<Rightarrow> ('h, 'c, 'b, 'w) ws_exchange)
     \<Rightarrow> ('h, 'c, 'b, 'w, 'p) router \<Rightarrow> (('h, 'c, 'b, 'w) ws_exchange, unit) action" where
  "Router_open close rt x =
     (let i = wc_route_index (wx_context x) in
      if i \<ge> length (rt_routes rt) then Done () x
      else (case Route_open (rt_routes rt ! i) x of
              Threw x1 \<Rightarrow> Done () (close cc_internal_error x1)
            | Done u x1 \<Rightarrow> Done () x1))"

section \<open>Middleware chains\<close>

text \<open>The declarative chain: actions in order, up to the first that answers or throws.\<close>

fun first_answer :: "(('h, 'c, 'w) exchange, unit) action list \<Rightarrow> (('h, 'c, 'w) exchange, unit) action" where
  "first_answer [] e = Done () e"
| "first_answer (a # as) e =
     (case a e of
        Threw e1 \<Rightarrow> Threw e1
      | Done u e1 \<Rightarrow> if hasResponse (ex_response e1) then Done () e1 else first_answer as e1)"

fun http_actions :: "('h, 'c, 'b, 'w) handler list \<Rightarrow> (('h, 'c, 'w) exchange, unit) action list" where
  "http_actions [] = []"
| "http_actions (HttpHandler f # hs) = f # http_actions hs"
| "http_actions (WebSocketHandler f # hs) = http_actions hs"

lemma run_http_chain_first_answer: "run_http_chain hs e = first_answer (http_actions hs) e"
  by (induction hs e rule: run_http_chain.induct) (auto split: outcome.splits)

lemma first_answer_append:
  "first_answer (as @ bs) e =
     (case first_answer as e of
        Threw e1 \<Rightarrow> Threw e1
      | Done u e1 \<Rightarrow> if hasResponse (ex_response e1) \<and> as \<noteq> [] then Done () e1 else first_answer bs e1)"
proof (induction "as" arbitrary: e)
  case (Cons a as')
  show ?case
  proof (cases "a e")
    case (Done u e1)
    show ?thesis
    proof (cases "hasResponse (ex_response e1)")
      case False
      with Done Cons.IH [of e1] show ?thesis by (cases as') (auto split: outcome.splits)
    qed (use Done in simp)
  qed simp
qed simp

lemma http_actions_append: "http_actions (xs @ ys) = http_actions xs @ http_actions ys"
  by (induction xs rule: http_actions.induct) auto

lemma first_answer_Done_no: "\<not> hasResponse (ex_response e) \<Longrightarrow> first_answer [] e = Done () e"
  by simp

lemma Route_call_chain:
  assumes "ro_handler route = HttpHandler h" and "\<not> hasResponse (ex_response e)"
  shows "Route_call route e
    = first_answer (http_actions (ro_pre route) @ h # http_actions (ro_post route)) e"
proof (cases "first_answer (http_actions (ro_pre route)) e")
  case (Done u e1)
  then show ?thesis
    using assms
    by (auto simp: Route_call_def run_http_chain_first_answer first_answer_append split: outcome.splits)
qed (use assms in \<open>simp add: Route_call_def run_http_chain_first_answer first_answer_append\<close>)

section \<open>Setting a router up\<close>

text \<open>The public registration calls as operations, None where a call throws or does not return.\<close>

datatype ('h, 'c, 'b, 'w, 'p) setup_op =
    Use "(('h, 'c, 'w) exchange, unit) action"
  | SetNotFound "('h, 'c, 'b, 'w) handler"
  | SetMethodNotAllowed "('h, 'c, 'b, 'w) handler"
  | SetTrustedProxies "string list"
  | AddHttp "verb set" string "('h, 'c, 'b, 'w) handler list" "(('h, 'c, 'w) exchange, unit) action"
      "('h, 'c, 'b, 'w) handler list"
  | AddWs string "('h, 'c, 'b, 'w) handler list" "(('h, 'c, 'b, 'w) ws_exchange, bool) action"
      "('h, 'c, 'b, 'w) handler list"
  | Group string "('h, 'c, 'b, 'w) handler list" "('h, 'c, 'b, 'w) handler list"
      "('h, 'c, 'b, 'w, 'p) router \<Rightarrow> ('h, 'c, 'b, 'w, 'p) router option"

fun setup_call ::
  "('h, 'p) libs \<Rightarrow> ('h, 'c, 'b, 'w, 'p) setup_op \<Rightarrow> ('h, 'c, 'b, 'w, 'p) router
     \<Rightarrow> ('h, 'c, 'b, 'w, 'p) router option" where
  "setup_call L (Use m) rt = Some (router_use m rt)"
| "setup_call L (SetNotFound h) rt = Some (setNotFoundHandler h rt)"
| "setup_call L (SetMethodNotAllowed h) rt = Some (setMethodNotAllowedHandler h rt)"
| "setup_call L (SetTrustedProxies cidrs) rt =
     (case setTrustedProxies (lb_asio L) cidrs rt of Inl e \<Rightarrow> None | Inr rt1 \<Rightarrow> Some rt1)"
| "setup_call L (AddHttp methods path pre f post) rt =
     Router_add_http (lb_re2 L) methods path pre f post rt"
| "setup_call L (AddWs path pre f post) rt = Router_add_ws (lb_re2 L) path pre f post rt"
| "setup_call L (Group prefix pre post fn) rt = Router_group L prefix pre post fn rt"

definition router_step ::
  "('h, 'p) libs \<Rightarrow> ('h, 'c, 'b, 'w, 'p) router \<Rightarrow> ('h, 'c, 'b, 'w, 'p) setup_op
     \<Rightarrow> ('h, 'c, 'b, 'w, 'p) router \<Rightarrow> bool" where
  "router_step L rt op rt1 \<longleftrightarrow> setup_call L op rt = Some rt1"

definition router_starts :: "('h, 'p) libs \<Rightarrow> ('h, 'c, 'b, 'w, 'p) router \<Rightarrow> bool" where
  "router_starts L rt \<longleftrightarrow> rt = Router_init (lb_fields L)"

definition libs_ok :: "('h, 'p) libs \<Rightarrow> bool" where
  "libs_ok L \<longleftrightarrow> fields_ok (lb_fields L) \<and> re2_ok (lb_re2 L) \<and> asio_ok (lb_asio L)"

text \<open>
  What every router set up through these calls satisfies: the 500 handler is the built-in one,
  every route carries the compiled expression of its path, and the proxy list is well formed.
\<close>

definition route_wf :: "'p re2 \<Rightarrow> ('h, 'c, 'b, 'w, 'p) route \<Rightarrow> bool" where
  "route_wf R r \<longleftrightarrow> re_ok R (ro_pattern r)
     \<and> map_option (\<lambda>(ns, x). (ns, re_compile R x)) (createRegexPattern R (ro_path r))
         = Some (ro_param_names r, ro_pattern r)
     \<and> (isWebSocket r \<longrightarrow> ro_methods r = {})"

definition router_wf :: "('h, 'p) libs \<Rightarrow> ('h, 'c, 'b, 'w, 'p) router \<Rightarrow> bool" where
  "router_wf L rt \<longleftrightarrow> rt_internal_error rt = default_internal_error (lb_fields L)
     \<and> (\<forall>r \<in> set (rt_routes rt). route_wf (lb_re2 L) r) \<and> tp_wf (lb_asio L) (rt_proxies rt)"

lemma router_wf_init: "router_wf L (Router_init (lb_fields L))"
  by (simp add: router_wf_def Router_init_def)

lemma add_entry_wf:
  assumes "router_wf L rt" and "add_entry (lb_re2 L) (Route (lb_re2 L) ms path pre h post) rt = Some rt1"
    and "is_websocket h \<longrightarrow> ms = {}"
  shows "router_wf L rt1"
  using assms
  by (auto simp: add_entry_def Route_def router_wf_def route_wf_def isWebSocket_def
      split: option.splits if_splits)

lemma Router_add_wf:
  assumes "router_wf L rt"
  shows "Router_add_http (lb_re2 L) ms path pre f post rt = Some rt1 \<Longrightarrow> router_wf L rt1"
    and "Router_add_ws (lb_re2 L) path pre g post rt = Some rt1 \<Longrightarrow> router_wf L rt1"
  using add_entry_wf [OF assms] by (auto simp: Router_add_http_def Router_add_ws_def)

lemma group_add_wf:
  "router_wf L rt \<Longrightarrow> group_add (lb_re2 L) prefix pre post rs rt = Some rt1 \<Longrightarrow> router_wf L rt1"
proof (induction rs arbitrary: rt)
  case (Cons r rs)
  from Cons.prems(2) obtain rt2 where rt2: "group_add (lb_re2 L) prefix pre post rs rt2 = Some rt1"
    and "(case ro_handler r of
            HttpHandler f \<Rightarrow> Router_add_http (lb_re2 L) (ro_methods r) (prefix @ ro_path r)
              (pre @ ro_pre r) f (post @ ro_post r) rt
          | WebSocketHandler f \<Rightarrow> Router_add_ws (lb_re2 L) (prefix @ ro_path r)
              (pre @ ro_pre r) f (post @ ro_post r) rt) = Some rt2"
    by (auto simp: Let_def split: option.splits)
  with Cons.prems(1) have "router_wf L rt2"
    by (auto split: handler.splits intro: Router_add_wf)
  from Cons.IH [OF this rt2] show ?case .
qed simp

lemma setup_call_wf:
  assumes "libs_ok L" and "router_wf L rt" and "setup_call L op rt = Some rt1"
  shows "router_wf L rt1"
proof (cases op)
  case (SetTrustedProxies cidrs)
  with assms obtain p where "build_proxies (lb_asio L) cidrs TrustedProxies_init = Inr p"
    "rt1 = rt\<lparr>rt_proxies := p\<rparr>"
    by (auto simp: setTrustedProxies_def split: sum.splits)
  with assms show ?thesis
    by (auto simp: router_wf_def libs_ok_def intro: build_proxies_wf [OF _ tp_wf_init])
next
  case (Group prefix pre post fn)
  with assms show ?thesis
    by (auto simp: Router_group_def split: option.splits intro: group_add_wf)
next
  case (AddHttp ms path pre f post)
  with assms show ?thesis by (auto intro: Router_add_wf)
next
  case (AddWs path pre f post)
  with assms show ?thesis by (auto intro: Router_add_wf)
qed (use assms in \<open>auto simp: router_wf_def router_use_def setNotFoundHandler_def
      setMethodNotAllowedHandler_def\<close>)

interpretation router_setup: invariant_system
  "\<lambda>rt. libs_ok L \<and> router_starts L rt" "router_step L" "\<lambda>rt. libs_ok L \<and> router_wf L rt"
  for L :: "('h, 'p) libs"
  by unfold_locales
    (auto simp: router_starts_def router_wf_init router_step_def intro: setup_call_wf)

text \<open>A router as an application sets it up.\<close>

definition built_router :: "('h, 'p) libs \<Rightarrow> ('h, 'c, 'b, 'w, 'p) router \<Rightarrow> bool" where
  "built_router L rt \<longleftrightarrow> reachable (\<lambda>rt. libs_ok L \<and> router_starts L rt) (router_step L) rt"

lemma built_router_wf: "built_router L rt \<Longrightarrow> libs_ok L \<and> router_wf L rt"
  unfolding built_router_def by (rule router_setup.reachable_inv)

section \<open>Dispatch\<close>

text \<open>Whether a route's expression matches the path, and the bindings of that match.\<close>

definition path_matches :: "'p re2 \<Rightarrow> ('h, 'c, 'b, 'w, 'p) route \<Rightarrow> string \<Rightarrow> bool" where
  "path_matches R r path \<longleftrightarrow> re_match R (ro_pattern r) path (length (ro_param_names r) + 1) \<noteq> None"

definition bindings :: "'p re2 \<Rightarrow> ('h, 'c, 'b, 'w, 'p) route \<Rightarrow> string \<Rightarrow> param list" where
  "bindings R r path =
     (case re_match R (ro_pattern r) path (length (ro_param_names r) + 1) of
        Some cs \<Rightarrow> zip (ro_param_names r) (tl cs)
      | None \<Rightarrow> [])"

definition http_candidate :: "'p re2 \<Rightarrow> string \<Rightarrow> ('h, 'c, 'b, 'w, 'p) route \<Rightarrow> bool" where
  "http_candidate R path r \<longleftrightarrow> \<not> isWebSocket r \<and> path_matches R r path"

definition ws_candidate :: "'p re2 \<Rightarrow> string \<Rightarrow> ('h, 'c, 'b, 'w, 'p) route \<Rightarrow> bool" where
  "ws_candidate R path r \<longleftrightarrow> isWebSocket r \<and> path_matches R r path"

definition serves :: "'p re2 \<Rightarrow> string \<Rightarrow> verb \<Rightarrow> ('h, 'c, 'b, 'w, 'p) route \<Rightarrow> bool" where
  "serves R path method r \<longleftrightarrow> http_candidate R path r \<and> methodMatch r method"

definition always_answers :: "('h, 'c, 'b, 'w) handler \<Rightarrow> bool" where
  "always_answers h \<longleftrightarrow> (\<forall>e. \<exists>e1. get_http h e = Done () e1 \<and> hasResponse (ex_response e1))"

lemma default_handlers_done:
  assumes "fields_ok F"
  shows "get_http (default_not_found F) e
      = Done () (e\<lparr>ex_response := sent F 404 ''Handler not found'' (ex_response e)\<rparr>)"
    and "get_http (default_method_not_allowed F) e
      = Done () (e\<lparr>ex_response := sent F 405 ''Method Not Allowed'' (ex_response e)\<rparr>)"
    and "get_http (default_internal_error F) e
      = Done () (e\<lparr>ex_response := sent F 500 ''Internal Server Error'' (ex_response e)\<rparr>)"
  by (simp_all add: default_not_found_def default_method_not_allowed_def default_internal_error_def
      responding_def sends_done [OF assms] send_done [OF assms] bodiless_status_def)

lemma default_handlers_answer:
  assumes "fields_ok F"
  shows "always_answers (default_not_found F)" and "always_answers (default_method_not_allowed F)"
    and "always_answers (default_internal_error F)"
  by (simp_all add: always_answers_def default_handlers_done [OF assms] hasResponse_def)

lemmas example_handlers_answer [simp] = default_handlers_answer [OF alist_fields_ok]

lemma built_500_answers:
  "libs_ok L \<Longrightarrow> router_wf L rt \<Longrightarrow> always_answers (rt_internal_error rt)"
  by (simp add: router_wf_def libs_ok_def default_handlers_answer)

lemma pathMatch_cases:
  assumes "re2_ok R" and "rp_inv p"
  obtains q where "pathMatch R r path p = (path_matches R r path, q)" and "rp_inv q"
    and "path_matches R r path \<Longrightarrow> rp_list q = bindings R r path"
proof (cases "re_match R (ro_pattern r) path (length (ro_param_names r) + 1)")
  case None
  then show ?thesis
    using assms by (intro that [of "rp_reset p"])
      (simp_all add: pathMatch_def path_match_def path_matches_def rp_inv_reset)
next
  case (Some cs)
  then have len: "length cs = length (ro_param_names r) + 1"
    using assms(1) by (rule re2_length [rotated])
  let ?q = "fold (\<lambda>(k, v). rp_add k v) (zip (ro_param_names r) (tl cs)) (rp_reset p)"
  have "pathMatch R r path p = (True, ?q)"
    using path_match_bindings [OF Some len] by (simp add: pathMatch_def)
  moreover have "rp_inv ?q" using assms(2) by (intro route_store.fill_ok rp_inv_reset)
  moreover have "rp_list ?q = bindings R r path"
    using assms(2) Some by (simp add: route_store.fill_entries rp_inv_reset bindings_def)
  ultimately show ?thesis using Some by (intro that [of ?q]) (simp_all add: path_matches_def)
qed

lemma scan_routes_first:
  assumes "re2_ok R" and "rp_inv p"
    and "\<forall>r' \<in> set before. \<not> serves R path (rq_method (hr_request (ex_request e))) r'"
    and "serves R path (rq_method (hr_request (ex_request e))) r"
  shows "\<exists>q. rp_inv q \<and> rp_list q = bindings R r path
    \<and> scan_routes R rt path (before @ r # after) pm p e
        = serve_route (rt_internal_error rt) r (set_params (Some q) e)"
  using assms(2,3)
proof (induction before arbitrary: pm p)
  case Nil
  obtain q where "pathMatch R r path p = (path_matches R r path, q)" "rp_inv q"
    "path_matches R r path \<Longrightarrow> rp_list q = bindings R r path"
    using pathMatch_cases [OF assms(1) Nil(1)] by blast
  with assms(4) show ?case by (auto simp: serves_def http_candidate_def)
next
  case (Cons r' rs)
  obtain q where q: "pathMatch R r' path p = (path_matches R r' path, q)" "rp_inv q"
    using pathMatch_cases [OF assms(1) Cons.prems(1)] by blast
  from Cons.IH [OF q(2)] Cons.IH [OF Cons.prems(1)] Cons.prems(2) q(1) show ?case
    by (auto simp: serves_def http_candidate_def)
qed

lemma scan_routes_none:
  assumes "re2_ok R" and "rp_inv p"
    and "\<forall>r \<in> set rs. \<not> serves R path (rq_method (hr_request (ex_request e))) r"
  shows "\<exists>q. rp_inv q \<and> scan_routes R rt path rs pm p e
    = clear_params (get_http
        (if pm \<or> (\<exists>r \<in> set rs. http_candidate R path r)
         then rt_method_not_allowed rt else rt_not_found rt) (set_params (Some q) e))"
  using assms(2,3)
proof (induction rs arbitrary: pm p)
  case (Cons r rs)
  obtain q where q: "pathMatch R r path p = (path_matches R r path, q)" "rp_inv q"
    using pathMatch_cases [OF assms(1) Cons.prems(1)] by blast
  from Cons.IH [OF q(2), of True] Cons.IH [OF q(2), of pm] Cons.IH [OF Cons.prems(1), of pm]
    Cons.prems(2) q(1) show ?case
    by (auto simp: serves_def http_candidate_def)
qed auto

lemma clear_params_answers:
  "get_http h e = Done () e1 \<Longrightarrow> hasResponse (ex_response e1)
     \<Longrightarrow> \<exists>e2. clear_params (get_http h e) = Done () e2 \<and> hasResponse (ex_response e2)"
  by (simp add: set_params_def)

lemma serve_route_answers:
  assumes "always_answers h500"
  shows "\<exists>e1. serve_route h500 r e = Done () e1 \<and> hasResponse (ex_response e1)"
proof (cases "Route_call r e")
  case (Done u e1)
  with assms show ?thesis
    by (cases "hasResponse (ex_response e1)")
       (auto simp: serve_route_def set_params_def always_answers_def
         dest: spec [where x = e1])
next
  case (Threw e1)
  with assms show ?thesis
    by (auto simp: serve_route_def set_params_def always_answers_def dest: spec [where x = e1])
qed

lemma scan_routes_answers:
  assumes "always_answers (rt_internal_error rt)" and "always_answers (rt_not_found rt)"
    and "always_answers (rt_method_not_allowed rt)"
  shows "\<exists>e1. scan_routes R rt path rs pm p e = Done () e1 \<and> hasResponse (ex_response e1)"
proof (induction rs arbitrary: pm p)
  case Nil
  obtain e1 where "get_http (if pm then rt_method_not_allowed rt else rt_not_found rt)
      (set_params (Some p) e) = Done () e1" "hasResponse (ex_response e1)"
    using assms(2,3) unfolding always_answers_def by (cases pm) fastforce+
  from clear_params_answers [OF this] show ?case by simp
next
  case (Cons r rs)
  show ?case
    using Cons.IH serve_route_answers [OF assms(1)]
    by (cases "pathMatch R r path p") auto
qed

lemma run_globals_answers:
  assumes "always_answers h500" and "run_globals h500 ms e = Inl out"
  shows "\<exists>e1. out = Done () e1 \<and> hasResponse (ex_response e1)"
  using assms(2)
proof (induction ms arbitrary: e)
  case (Cons m ms)
  show ?case
  proof (cases "m e")
    case (Done u e1)
    with Cons show ?thesis by (cases "hasResponse (ex_response e1)") auto
  next
    case (Threw e1)
    with Cons.prems assms(1) show ?thesis by (auto simp: always_answers_def)
  qed
qed simp

lemma Router_route_resolved:
  assumes "libs_ok L" and "router_wf L rt"
  shows "\<exists>ip. tp_resolve (lb_fields L) (lb_asio L) (rt_proxies rt) peer headers = Some ip"
  using assms by (intro tp_resolve_total) (simp_all add: libs_ok_def router_wf_def)

text \<open>What the global middlewares hand on when all of them let the request through.\<close>

definition admitted ::
  "('h, 'p) libs \<Rightarrow> ('h, 'c, 'b, 'w, 'p) router \<Rightarrow> ('h, 'c, 'w) exchange
     \<Rightarrow> ('h, 'c, 'w) exchange \<Rightarrow> string \<Rightarrow> bool" where
  "admitted L rt e e1 path \<longleftrightarrow>
     (\<exists>ip. tp_resolve (lb_fields L) (lb_asio L) (rt_proxies rt) (hr_peer_ip (ex_request e))
             (rq_fields (hr_request (ex_request e))) = Some ip
       \<and> run_globals (rt_internal_error rt) (rt_globals rt)
             (e\<lparr>ex_request := setIP ip (ex_request e)\<rparr>) = Inr e1)
     \<and> lb_url_path L (rq_target (hr_request (ex_request e1))) = Some path"

lemma Router_route_admitted:
  "admitted L rt e e1 path \<Longrightarrow>
     Router_route L rt e = scan_routes (lb_re2 L) rt path (rt_routes rt) False RouteParams_init e1"
  by (auto simp: admitted_def Router_route_def)

section \<open>Groups\<close>

text \<open>The parts of a route that registration decides, and those a group gives to its route.\<close>

type_synonym ('h, 'c, 'b, 'w) route_parts =
  "string \<times> verb set \<times> ('h, 'c, 'b, 'w) handler list \<times> ('h, 'c, 'b, 'w) handler \<times> ('h, 'c, 'b, 'w) handler list"

definition parts :: "('h, 'c, 'b, 'w, 'p) route \<Rightarrow> ('h, 'c, 'b, 'w) route_parts" where
  "parts r = (ro_path r, ro_methods r, ro_pre r, ro_handler r, ro_post r)"

definition grouped_parts ::
  "string \<Rightarrow> ('h, 'c, 'b, 'w) handler list \<Rightarrow> ('h, 'c, 'b, 'w) handler list
     \<Rightarrow> ('h, 'c, 'b, 'w, 'p) route \<Rightarrow> ('h, 'c, 'b, 'w) route_parts" where
  "grouped_parts prefix pre post r =
     (prefix @ ro_path r, if isWebSocket r then {} else ro_methods r, pre @ ro_pre r,
      ro_handler r, post @ ro_post r)"

definition compiles :: "'p re2 \<Rightarrow> string \<Rightarrow> bool" where
  "compiles R path =
     (case createRegexPattern R path of
        Some (names, regex) \<Rightarrow> re_ok R (re_compile R regex)
      | None \<Rightarrow> False)"

lemma add_entry_parts:
  assumes "re2_ok R" and "ascii path"
  shows "\<exists>new. add_entry R (Route R ms path pre h post) rt = Some (rt\<lparr>rt_routes := rt_routes rt @ new\<rparr>)
    \<and> map parts new = (if compiles R path then [(path, ms, pre, h, post)] else [])"
proof -
  obtain names regex where "createRegexPattern R path = Some (names, regex)"
    using createRegexPattern_total [OF assms] by auto
  then show ?thesis
    by (cases "re_ok R (re_compile R regex)")
       (force simp: add_entry_def Route_def compiles_def parts_def)+
qed

lemma group_add_parts:
  assumes "re2_ok R" and "\<forall>r \<in> set rs. ascii (prefix @ ro_path r)"
  shows "\<exists>new. group_add R prefix pre post rs rt = Some (rt\<lparr>rt_routes := rt_routes rt @ new\<rparr>)
    \<and> map parts new
        = map (grouped_parts prefix pre post) (filter (\<lambda>r. compiles R (prefix @ ro_path r)) rs)"
  using assms(2)
proof (induction rs arbitrary: rt)
  case (Cons r rs)
  let ?h = "ro_handler r" and ?ms = "if isWebSocket r then {} else ro_methods r"
  have call: "(case ?h of
      HttpHandler f \<Rightarrow> Router_add_http R (ro_methods r) (prefix @ ro_path r) (pre @ ro_pre r) f (post @ ro_post r) rt
    | WebSocketHandler f \<Rightarrow> Router_add_ws R (prefix @ ro_path r) (pre @ ro_pre r) f (post @ ro_post r) rt)
    = add_entry R (Route R ?ms (prefix @ ro_path r) (pre @ ro_pre r) ?h (post @ ro_post r)) rt"
    by (cases ?h) (simp_all add: Router_add_http_def Router_add_ws_def isWebSocket_def)
  obtain new where new: "add_entry R (Route R ?ms (prefix @ ro_path r) (pre @ ro_pre r) ?h (post @ ro_post r)) rt
      = Some (rt\<lparr>rt_routes := rt_routes rt @ new\<rparr>)"
    "map parts new = (if compiles R (prefix @ ro_path r) then [grouped_parts prefix pre post r] else [])"
    using add_entry_parts [OF assms(1), of "prefix @ ro_path r" ?ms "pre @ ro_pre r" ?h "post @ ro_post r" rt]
      Cons.prems unfolding grouped_parts_def by auto
  obtain new2 where "group_add R prefix pre post rs (rt\<lparr>rt_routes := rt_routes rt @ new\<rparr>)
      = Some (rt\<lparr>rt_routes := rt_routes rt @ new @ new2\<rparr>)"
    "map parts new2 = map (grouped_parts prefix pre post) (filter (\<lambda>r. compiles R (prefix @ ro_path r)) rs)"
    using Cons.IH [of "rt\<lparr>rt_routes := rt_routes rt @ new\<rparr>"] Cons.prems by auto
  with new show ?case
    by (intro exI [of _ "new @ new2"]) (simp add: call Let_def del: append.simps)
qed simp

section \<open>Upgrades\<close>

lemma copy_params_list:
  assumes "rp_inv q"
  shows "copy_params q c = c\<lparr>wc_params := rp_list q\<rparr>"
proof -
  have "fold (\<lambda>(k, v) c. c\<lparr>wc_params := wc_params c @ [(k, v)]\<rparr>) ps d
      = d\<lparr>wc_params := wc_params d @ ps\<rparr>" for ps and d :: "('a, 'b, 'c) ws_context"
    by (induction ps arbitrary: d) auto
  then show ?thesis using assms by (simp add: copy_params_def rp_forEach_list)
qed

lemma scan_upgrade_first:
  assumes "re2_ok (lb_re2 L)" and "rp_inv p"
    and "\<forall>r' \<in> set before. \<not> ws_candidate (lb_re2 L) path r'" and "ws_candidate (lb_re2 L) path r"
  shows "scan_upgrade L rt request path (before @ r # after) i p s
    = try_upgrade (lb_fields L) rt request r (i + length before)
        (with_context (\<lambda>c. c\<lparr>wc_params := bindings (lb_re2 L) r path\<rparr>) (fst s), snd s)"
  using assms(2,3)
proof (induction before arbitrary: i p)
  case Nil
  obtain q where "pathMatch (lb_re2 L) r path p = (path_matches (lb_re2 L) r path, q)" "rp_inv q"
    "path_matches (lb_re2 L) r path \<Longrightarrow> rp_list q = bindings (lb_re2 L) r path"
    using pathMatch_cases [OF assms(1) Nil(1)] by blast
  with assms(4) show ?case by (simp add: ws_candidate_def with_context_def copy_params_list)
next
  case (Cons r' rs)
  obtain q where q: "pathMatch (lb_re2 L) r' path p = (path_matches (lb_re2 L) r' path, q)" "rp_inv q"
    using pathMatch_cases [OF assms(1) Cons.prems(1)] by blast
  from Cons.IH [OF q(2)] Cons.IH [OF Cons.prems(1)] Cons.prems(2) q(1) show ?case
    by (auto simp: ws_candidate_def)
qed

text \<open>A rejection HTTP has no response for: a body with a status that allows none.\<close>

definition bodiless_reject :: "('h, 'c, 'b) ws_context \<Rightarrow> bool" where
  "bodiless_reject c \<longleftrightarrow> bodiless_status (wc_reject_status c) \<and> wc_reject_body c \<noteq> []"

definition refused_answered ::
  "(('h, 'c, 'b, 'w) upgrade_state, bool) outcome \<Rightarrow> bool" where
  "refused_answered out \<longleftrightarrow>
     (case out of
        Done ok s \<Rightarrow> ok \<or> hasResponse (snd s)
      | Threw s \<Rightarrow> bodiless_reject (wx_context (fst s)))"

lemma reject_upgrade_cases:
  assumes "fields_ok F"
  shows "case reject_upgrade F c r of Done u r1 \<Rightarrow> hasResponse r1 | Threw r1 \<Rightarrow> bodiless_reject c"
proof (cases "reject_upgrade F c r")
  case (Done u r1)
  then have "res_status r1 \<noteq> 0"
    by (auto simp: reject_upgrade_def res_send_def prepare_payload_def split: if_splits)
  with Done show ?thesis by (simp add: hasResponse_def)
next
  case (Threw r1)
  with send_throws [OF assms] have "bodiless_reject c"
    by (fastforce simp: reject_upgrade_def bodiless_reject_def bodiless_status_def split: if_splits)
  with Threw show ?thesis by simp
qed

lemma refuse_with_answered:
  assumes "always_answers h"
  shows "refused_answered (refuse_with h request s)"
proof -
  obtain e1 where "get_http h \<lparr>ex_request = request, ex_response = snd s, ex_world = wx_world (fst s)\<rparr>
      = Done () e1" "hasResponse (ex_response e1)"
    using assms unfolding always_answers_def by blast
  then show ?thesis by (simp add: refuse_with_def refused_answered_def)
qed

lemma try_upgrade_answered:
  assumes "fields_ok F" and "always_answers (rt_internal_error rt)"
  shows "refused_answered (try_upgrade F rt request r i s)"
proof (cases "Route_upgrade r (fst s)")
  case (Done ok x)
  with reject_upgrade_cases [OF assms(1), of "wx_context x" "snd s"] show ?thesis
    by (cases ok) (auto simp: try_upgrade_def refused_answered_def split: outcome.splits)
qed (use assms(2) in \<open>simp add: try_upgrade_def refuse_with_answered\<close>)

lemma scan_upgrade_answered:
  assumes "fields_ok (lb_fields L)" and "always_answers (rt_internal_error rt)" and "always_answers (rt_not_found rt)"
  shows "refused_answered (scan_upgrade L rt request path rs i p s)"
proof (induction rs arbitrary: i p)
  case (Cons r rs)
  then show ?case
    using try_upgrade_answered [OF assms(1,2)] by (cases "pathMatch (lb_re2 L) r path p") auto
qed (simp add: refuse_with_answered assms)

lemma refuse_with_not_accepted: "refuse_with h request s \<noteq> Done True t"
  by (auto simp: refuse_with_def split: outcome.splits)

lemma try_upgrade_accepted:
  assumes "try_upgrade F rt request r i s = Done True t"
  shows "wc_route_index (wx_context (fst t)) = i"
    and "\<exists>x. Route_upgrade r (fst s) = Done True x
      \<and> fst t = with_context (\<lambda>c. c\<lparr>wc_route_index := i\<rparr>) x"
proof -
  obtain ok x where "Route_upgrade r (fst s) = Done ok x" and ok
    and "t = (with_context (\<lambda>c. c\<lparr>wc_route_index := i\<rparr>) x, snd s)"
    using assms by (auto simp: try_upgrade_def refuse_with_not_accepted split: outcome.splits if_splits)
  then show "wc_route_index (wx_context (fst t)) = i"
    and "\<exists>x. Route_upgrade r (fst s) = Done True x
      \<and> fst t = with_context (\<lambda>c. c\<lparr>wc_route_index := i\<rparr>) x"
    by (auto simp: with_context_def)
qed

lemma scan_upgrade_accepted:
  assumes "re2_ok (lb_re2 L)" and "rp_inv p"
    and "scan_upgrade L rt request path rs i p s = Done True t"
  shows "\<exists>k < length rs. wc_route_index (wx_context (fst t)) = i + k
    \<and> ws_candidate (lb_re2 L) path (rs ! k) \<and> (\<forall>j<k. \<not> ws_candidate (lb_re2 L) path (rs ! j))"
proof -
  have "\<exists>r \<in> set rs. ws_candidate (lb_re2 L) path r"
  proof (rule ccontr)
    assume "\<not> (\<exists>r \<in> set rs. ws_candidate (lb_re2 L) path r)"
    then have "\<forall>r \<in> set rs. \<not> ws_candidate (lb_re2 L) path r" by blast
    then have "scan_upgrade L rt request path rs i p s = refuse_with (rt_not_found rt) request s"
      using assms(2)
    proof (induction rs arbitrary: i p)
      case (Cons r rs)
      obtain q where q: "pathMatch (lb_re2 L) r path p = (path_matches (lb_re2 L) r path, q)" "rp_inv q"
        using pathMatch_cases [OF assms(1) Cons.prems(2)] by blast
      with Cons show ?case by (auto simp: ws_candidate_def)
    qed simp
    with assms(3) refuse_with_not_accepted show False by metis
  qed
  from split_list_first_prop [OF this] obtain before r after where
    rs: "rs = before @ r # after" "ws_candidate (lb_re2 L) path r"
      "\<forall>r' \<in> set before. \<not> ws_candidate (lb_re2 L) path r'" by blast
  with assms(3) scan_upgrade_first [OF assms(1,2) rs(3,2)]
  have "wc_route_index (wx_context (fst t)) = i + length before"
    using try_upgrade_accepted(1) by metis
  with rs show ?thesis by (intro exI [of _ "length before"]) (simp add: nth_append)
qed

lemma route_always_answers_lemma:
  assumes "built_router L rt" and "always_answers (rt_not_found rt)"
    and "always_answers (rt_method_not_allowed rt)"
  shows "\<exists>e1. Router_route L rt e = Done () e1 \<and> hasResponse (ex_response e1)"
proof -
  from built_router_wf [OF assms(1)] have wf: "libs_ok L" "router_wf L rt" by auto
  then have h500: "always_answers (rt_internal_error rt)" by (rule built_500_answers)
  then obtain e1 where e1: "get_http (rt_internal_error rt) e2 = Done () (e1 e2)"
      "hasResponse (ex_response (e1 e2))" for e2
    unfolding always_answers_def by metis
  obtain ip where ip: "tp_resolve (lb_fields L) (lb_asio L) (rt_proxies rt) (hr_peer_ip (ex_request e))
      (rq_fields (hr_request (ex_request e))) = Some ip"
    using Router_route_resolved [OF wf] by blast
  show ?thesis
    using run_globals_answers [OF h500] scan_routes_answers [OF h500 assms(2,3)] ip e1
    by (simp add: Router_route_def split: sum.splits option.splits)
qed

section \<open>A router for closed examples\<close>

type_synonym example_h = "(string \<times> string) list"

definition example_libs :: "(example_h, string) libs" where
  "example_libs =
     \<lparr>lb_fields = alist_fields, lb_re2 = example_re2, lb_asio = example_asio,
      lb_url_path = (\<lambda>s. if CHR '' '' \<in> set s then None else Some (takeWhile (\<lambda>c. c \<noteq> CHR ''?'') s))\<rparr>"

text \<open>One GET route \<^verbatim>\<open>/u/{id}\<close> that greets, one POST route of the same path that throws.\<close>

definition greet :: "((example_h, unit, nat) exchange, unit) action" where
  "greet e = responding (res_send alist_fields 200 (urlParam (ex_request e) ''id'')) e"

definition example_routes :: "(example_h, unit, unit, nat, string) route list" where
  "example_routes =
     [\<lparr>ro_handler = HttpHandler greet, ro_pattern = literal_regex example_re2 ''/u/'' [[]],
       ro_path = ''/u/{id}'', ro_param_names = [''id''], ro_methods = {Verb_get}, ro_pre = [], ro_post = []\<rparr>,
      \<lparr>ro_handler = HttpHandler Threw, ro_pattern = literal_regex example_re2 ''/u/'' [[]],
       ro_path = ''/u/{id}'', ro_param_names = [''id''], ro_methods = {Verb_post}, ro_pre = [], ro_post = []\<rparr>,
      \<lparr>ro_handler = WebSocketHandler (Done True), ro_pattern = literal_regex example_re2 ''/u/'' [[]],
       ro_path = ''/u/{id}'', ro_param_names = [''id''], ro_methods = {}, ro_pre = [], ro_post = []\<rparr>]"

definition example_router :: "(example_h, unit, unit, nat, string) router" where
  "example_router = (Router_init alist_fields)\<lparr>rt_routes := example_routes\<rparr>"

definition example_request :: "verb \<Rightarrow> string \<Rightarrow> (example_h, unit, nat) exchange" where
  "example_request method target =
     \<lparr>ex_request = setPeerIP ''203.0.113.7''
        (HttpRequest \<lparr>rq_method = method, rq_target = target, rq_version = 11, rq_fields = [], rq_body = []\<rparr>),
      ex_response = HttpResponse alist_fields, ex_world = 0\<rparr>"

definition example_ws :: "string \<Rightarrow> (example_h, unit, unit, nat) ws_exchange" where
  "example_ws target =
     \<lparr>wx_context = WebSocketContext (hr_request (ex_request (example_request Verb_get target)))
        ''203.0.113.7'', wx_world = 0\<rparr>"

lemma example_libs_simps [simp]:
  "lb_fields example_libs = alist_fields" "lb_re2 example_libs = example_re2"
  "lb_asio example_libs = example_asio"
  by (simp_all add: example_libs_def)

lemma example_libs_ok: "libs_ok example_libs"
  by (simp add: libs_ok_def alist_fields_ok example_re2_ok example_asio_ok)

lemma example_template:
  "createRegexPattern example_re2 ''/u/{id}'' = Some ([''id''], literal_regex example_re2 ''/u/'' [[]])"
proof -
  have "createRegexPattern example_re2 (template_text [(''/u/'', ''id'', [])] [] @ [])
      = Some (map block_name [(''/u/'', ''id'', [])], ''^'' @ concat (map (block_regex example_re2)
          [(''/u/'', ''id'', [])]) @ re_quote example_re2 [] @ ''/?$'')"
    by (rule createRegexPattern_template_rest [OF example_re2_ok]) code_simp+
  then show ?thesis
    by (simp add: template_text_def block_text_def literal_regex_def block_name_def block_regex_def)
qed

lemma example_re2_accepts [simp]: "re_ok example_re2 p" "re_compile example_re2 p = p"
  by (simp_all add: example_re2_def)

lemma example_router_built: "built_router example_libs example_router"
proof -
  let ?ops = "[AddHttp {Verb_get} ''/u/{id}'' [] greet [], AddHttp {Verb_post} ''/u/{id}'' [] Threw [],
      AddWs ''/u/{id}'' [] (Done True) []]"
  have "run (router_step example_libs) (Router_init alist_fields) ?ops example_router"
    by (auto simp: run_cons_simp router_step_def Router_add_http_def Router_add_ws_def add_entry_def
        Route_def example_template example_router_def example_routes_def Router_init_def)
  then show ?thesis
    unfolding built_router_def
    by (rule reachable_run) (auto intro: reachable_init simp: example_libs_ok router_starts_def)
qed

lemma example_resolve:
  "tp_resolve alist_fields example_asio TrustedProxies_init ''203.0.113.7'' [] = Some ''203.0.113.7''"
  by code_simp

lemma example_match:
  "re_match example_re2 (literal_regex example_re2 ''/u/'' [[]]) ''/u/7'' (Suc (Suc 0)) = Some [''/u/7'', ''7'']"
  "re_match example_re2 (literal_regex example_re2 ''/u/'' [[]]) ''/x'' (Suc (Suc 0)) = None"
  by code_simp+

lemma example_admitted:
  assumes "CHR '' '' \<notin> set target" and "CHR ''?'' \<notin> set target"
  shows "admitted example_libs example_router (example_request m target)
    ((example_request m target)\<lparr>ex_request := setIP ''203.0.113.7'' (ex_request (example_request m target))\<rparr>)
    target"
proof -
  have "takeWhile (\<lambda>c. c \<noteq> CHR ''?'') target = target"
    using assms(2) by (induction target) auto
  with assms show ?thesis
    by (simp add: admitted_def example_router_def Router_init_def example_request_def HttpRequest_def
        setPeerIP_def setIP_def example_resolve)
       (simp add: example_libs_def)
qed

section \<open>Properties\<close>

text \<open>C1: A request always gets an answer: whatever the middlewares and the route's handlers do, throw
  or stay silent, \<^verbatim>\<open>route\<close> returns with a response, provided the 404 and 405 handlers
  answer, as the built-in ones do.\<close>

theorem route_always_answers:
  assumes "built_router L rt" and "always_answers (rt_not_found rt)"
    and "always_answers (rt_method_not_allowed rt)"
  shows "\<exists>e1. Router_route L rt e = Done () e1 \<and> hasResponse (ex_response e1)"
  by (rule route_always_answers_lemma [OF assms])

theorem route_always_answers_witness:
  "\<exists>e1. Router_route example_libs example_router (example_request Verb_post ''/u/7'') = Done () e1
     \<and> hasResponse (ex_response e1)"
  by (rule route_always_answers [OF example_router_built])
    (simp_all add: example_router_def Router_init_def)

text \<open>The first registered HTTP route whose path matches and whose methods contain the request's
  serves it, with the captures of its own match bound to its parameter names and nothing left of
  the routes tried before; WebSocket routes never serve a request.\<close>

theorem route_first_match:
  assumes "libs_ok L" and "admitted L rt e e1 path" and "rt_routes rt = before @ r # after"
    and "\<forall>r' \<in> set before. \<not> serves (lb_re2 L) path (rq_method (hr_request (ex_request e1))) r'"
    and "serves (lb_re2 L) path (rq_method (hr_request (ex_request e1))) r"
  shows "\<exists>q. rp_inv q \<and> rp_list q = bindings (lb_re2 L) r path
    \<and> Router_route L rt e = serve_route (rt_internal_error rt) r (set_params (Some q) e1)"
  unfolding Router_route_admitted [OF assms(2)] assms(3)
  using assms(1,4,5) by (intro scan_routes_first) (simp_all add: libs_ok_def)

theorem route_first_match_witness:
  "\<exists>q. rp_inv q \<and> rp_list q = [(''id'', ''7'')]
     \<and> Router_route example_libs example_router (example_request Verb_post ''/u/7'')
         = serve_route (default_internal_error alist_fields) (example_routes ! 1)
             (set_params (Some q) ((example_request Verb_post ''/u/7'')
                \<lparr>ex_request := setIP ''203.0.113.7'' (ex_request (example_request Verb_post ''/u/7''))\<rparr>))"
proof -
  let ?e1 = "(example_request Verb_post ''/u/7'')
      \<lparr>ex_request := setIP ''203.0.113.7'' (ex_request (example_request Verb_post ''/u/7''))\<rparr>"
  have adm: "admitted example_libs example_router (example_request Verb_post ''/u/7'') ?e1 ''/u/7''"
    by (rule example_admitted) simp_all
  have "\<exists>q. rp_inv q \<and> rp_list q = bindings (lb_re2 example_libs) (example_routes ! 1) ''/u/7''
     \<and> Router_route example_libs example_router (example_request Verb_post ''/u/7'')
         = serve_route (rt_internal_error example_router) (example_routes ! 1) (set_params (Some q) ?e1)"
  proof (rule route_first_match [OF example_libs_ok adm])
    show "rt_routes example_router = [example_routes ! 0] @ example_routes ! 1 # [example_routes ! 2]"
      by (simp add: example_router_def example_routes_def)
  qed (simp_all add: serves_def http_candidate_def path_matches_def methodMatch_def example_routes_def
      example_request_def HttpRequest_def setPeerIP_def setIP_def isWebSocket_def example_match)
  then show ?thesis
    by (simp add: example_router_def Router_init_def bindings_def example_routes_def example_match)
qed

text \<open>C2: Dispatch as the documentation has it: of the HTTP routes in the order of registration the first one whose
  pattern matches the path and whose methods allow the request serves it, with exactly its own
  captures bound; without one the handler for 405 answers when some HTTP route has the path, and
  the one for 404 otherwise.\<close>

theorem route_dispatch:
  assumes "libs_ok L" and "admitted L rt e e1 path"
  shows "\<exists>q. rp_inv q \<and>
    (case List.find (serves (lb_re2 L) path (rq_method (hr_request (ex_request e1)))) (rt_routes rt) of
       Some r \<Rightarrow> rp_list q = bindings (lb_re2 L) r path
         \<and> Router_route L rt e = serve_route (rt_internal_error rt) r (set_params (Some q) e1)
     | None \<Rightarrow> Router_route L rt e =
         clear_params (get_http (if \<exists>r \<in> set (rt_routes rt). http_candidate (lb_re2 L) path r
           then rt_method_not_allowed rt else rt_not_found rt) (set_params (Some q) e1)))"
proof (cases "List.find (serves (lb_re2 L) path (rq_method (hr_request (ex_request e1)))) (rt_routes rt)")
  case None
  then have "\<forall>r \<in> set (rt_routes rt). \<not> serves (lb_re2 L) path (rq_method (hr_request (ex_request e1))) r"
    by (simp add: find_None_iff)
  with None assms(1) scan_routes_none [of "lb_re2 L" RouteParams_init "rt_routes rt" path e1 rt False] show ?thesis
    by (simp add: Router_route_admitted [OF assms(2)] libs_ok_def)
next
  case (Some r)
  then obtain i where i: "i < length (rt_routes rt)" "rt_routes rt ! i = r"
    "serves (lb_re2 L) path (rq_method (hr_request (ex_request e1))) r"
    "\<forall>j < i. \<not> serves (lb_re2 L) path (rq_method (hr_request (ex_request e1))) (rt_routes rt ! j)"
    by (auto simp: find_Some_iff)
  let ?before = "take i (rt_routes rt)" and ?after = "drop (Suc i) (rt_routes rt)"
  have split: "rt_routes rt = ?before @ r # ?after" using id_take_nth_drop [OF i(1)] i(2) by simp
  have "\<forall>r' \<in> set ?before. \<not> serves (lb_re2 L) path (rq_method (hr_request (ex_request e1))) r'"
    using i(1,4) by (auto simp: in_set_conv_nth)
  then have "\<exists>q. rp_inv q \<and> rp_list q = bindings (lb_re2 L) r path
    \<and> scan_routes (lb_re2 L) rt path (?before @ r # ?after) False RouteParams_init e1
        = serve_route (rt_internal_error rt) r (set_params (Some q) e1)"
    using assms(1) i(3) by (intro scan_routes_first) (simp_all add: libs_ok_def)
  with split Some show ?thesis by (simp add: Router_route_admitted [OF assms(2)])
qed

theorem route_dispatch_witness:
  "(\<exists>q. rp_list q = [(''id'', ''7'')]
     \<and> Router_route example_libs example_router (example_request Verb_post ''/u/7'')
         = serve_route (default_internal_error alist_fields) (example_routes ! 1)
             (set_params (Some q) ((example_request Verb_post ''/u/7'')
                \<lparr>ex_request := setIP ''203.0.113.7'' (ex_request (example_request Verb_post ''/u/7''))\<rparr>)))
   \<and> (\<exists>e2. Router_route example_libs example_router (example_request Verb_delete ''/u/7'') = Done () e2
     \<and> res_status (ex_response e2) = 405)"
proof
  let ?e1 = "\<lambda>m. (example_request m ''/u/7'')
      \<lparr>ex_request := setIP ''203.0.113.7'' (ex_request (example_request m ''/u/7''))\<rparr>"
  note defs = serves_def http_candidate_def path_matches_def methodMatch_def example_routes_def
    example_router_def Router_init_def example_request_def HttpRequest_def setPeerIP_def setIP_def
    isWebSocket_def example_match bindings_def
  have "admitted example_libs example_router (example_request Verb_post ''/u/7'') (?e1 Verb_post) ''/u/7''"
    by (rule example_admitted) simp_all
  from route_dispatch [OF example_libs_ok this]
  show "\<exists>q. rp_list q = [(''id'', ''7'')]
     \<and> Router_route example_libs example_router (example_request Verb_post ''/u/7'')
         = serve_route (default_internal_error alist_fields) (example_routes ! 1) (set_params (Some q) (?e1 Verb_post))"
    by (simp add: defs) blast
  have "admitted example_libs example_router (example_request Verb_delete ''/u/7'') (?e1 Verb_delete) ''/u/7''"
    by (rule example_admitted) simp_all
  from route_dispatch [OF example_libs_ok this]
  show "\<exists>e2. Router_route example_libs example_router (example_request Verb_delete ''/u/7'') = Done () e2
     \<and> res_status (ex_response e2) = 405"
    by (auto simp: defs default_handlers_done [OF alist_fields_ok] set_params_def)
qed

text \<open>When no route serves the request, the answer is the built-in 405 if some HTTP route has the
  path, and the built-in 404 otherwise.\<close>

theorem route_unmatched_404_405:
  assumes "libs_ok L" and "admitted L rt e e1 path"
    and "\<forall>r \<in> set (rt_routes rt). \<not> serves (lb_re2 L) path (rq_method (hr_request (ex_request e1))) r"
    and "rt_not_found rt = default_not_found (lb_fields L)"
    and "rt_method_not_allowed rt = default_method_not_allowed (lb_fields L)"
  shows "\<exists>e2. Router_route L rt e = Done () e2 \<and>
    (res_status (ex_response e2), res_body (ex_response e2))
      = (if \<exists>r \<in> set (rt_routes rt). http_candidate (lb_re2 L) path r
         then (405, ''Method Not Allowed'') else (404, ''Handler not found''))"
proof -
  obtain q where "scan_routes (lb_re2 L) rt path (rt_routes rt) False RouteParams_init e1
    = clear_params (get_http
        (if \<exists>r \<in> set (rt_routes rt). http_candidate (lb_re2 L) path r
         then rt_method_not_allowed rt else rt_not_found rt) (set_params (Some q) e1))"
    using scan_routes_none [of "lb_re2 L" RouteParams_init "rt_routes rt" path e1 rt False] assms(1,3)
    by (auto simp: libs_ok_def)
  then show ?thesis
    unfolding Router_route_admitted [OF assms(2)] assms(4,5)
    using assms(1) by (auto simp: default_handlers_done libs_ok_def set_params_def)
qed

theorem route_unmatched_404_405_witness:
  "\<exists>e2. Router_route example_libs example_router (example_request Verb_delete ''/u/7'') = Done () e2
     \<and> (res_status (ex_response e2), res_body (ex_response e2)) = (405, ''Method Not Allowed'')"
proof -
  let ?e1 = "(example_request Verb_delete ''/u/7'')
      \<lparr>ex_request := setIP ''203.0.113.7'' (ex_request (example_request Verb_delete ''/u/7''))\<rparr>"
  have adm: "admitted example_libs example_router (example_request Verb_delete ''/u/7'') ?e1 ''/u/7''"
    by (rule example_admitted) simp_all
  note defs = serves_def http_candidate_def path_matches_def methodMatch_def example_routes_def
    example_router_def Router_init_def example_request_def HttpRequest_def setPeerIP_def setIP_def
    isWebSocket_def example_match
  have "\<exists>e2. Router_route example_libs example_router (example_request Verb_delete ''/u/7'') = Done () e2 \<and>
    (res_status (ex_response e2), res_body (ex_response e2))
      = (if \<exists>r \<in> set (rt_routes example_router). http_candidate (lb_re2 example_libs) ''/u/7'' r
         then (405, ''Method Not Allowed'') else (404, ''Handler not found''))"
    by (rule route_unmatched_404_405 [OF example_libs_ok adm]) (simp_all add: defs)
  then show ?thesis by (simp add: defs)
qed

text \<open>On a request nobody answered yet, a route runs its HTTP middlewares, its handler and its HTTP
  post-middlewares in this order, up to the first that answers or throws; middlewares of the
  WebSocket kind are skipped.\<close>

theorem Route_call_first_answer:
  assumes "ro_handler route = HttpHandler h" and "\<not> hasResponse (ex_response e)"
  shows "Route_call route e
    = first_answer (http_actions (ro_pre route) @ h # http_actions (ro_post route)) e"
  by (rule Route_call_chain [OF assms])

theorem Route_call_first_answer_witness:
  "Route_call ((example_routes ! 0)\<lparr>ro_pre := [WebSocketHandler Threw, HttpHandler
       (responding (sendUnauthorized alist_fields ''no''))]\<rparr>) (example_request Verb_get ''/u/7'')
   = responding (sendUnauthorized alist_fields ''no'') (example_request Verb_get ''/u/7'')"
proof -
  let ?r = "(example_routes ! 0)\<lparr>ro_pre := [WebSocketHandler Threw, HttpHandler
       (responding (sendUnauthorized alist_fields ''no''))]\<rparr>"
  have "Route_call ?r (example_request Verb_get ''/u/7'')
      = first_answer (http_actions (ro_pre ?r) @ greet # http_actions (ro_post ?r))
          (example_request Verb_get ''/u/7'')"
    by (rule Route_call_first_answer)
      (simp_all add: example_routes_def example_request_def HttpResponse_def hasResponse_def)
  then show ?thesis by (simp add: example_routes_def responding_def hasResponse_def sends_done [OF alist_fields_ok])
qed

text \<open>A matched route whose chain throws, or ends without an answer, is answered with the built-in
  500; header fields set before the failure stay in the response.\<close>

theorem failed_route_500:
  assumes "Route_call r e = Threw e1 \<or> Route_call r e = Done () e1 \<and> \<not> hasResponse (ex_response e1)"
    and "fields_ok F" and "\<not> framing_field name"
  shows "\<exists>e2. serve_route (default_internal_error F) r e = Done () e2
    \<and> res_status (ex_response e2) = 500 \<and> res_body (ex_response e2) = ''Internal Server Error''
    \<and> bf_find F (res_fields (ex_response e2)) name = bf_find F (res_fields (ex_response e1)) name
    \<and> hr_params (ex_request e2) = None"
  using assms(1,3) fields_okD(3) [OF assms(2)]
  by (auto simp: serve_route_def default_handlers_done [OF assms(2)] set_params_def)

theorem failed_route_500_witness:
  "\<exists>e2. serve_route (default_internal_error alist_fields) (example_routes ! 1)
        (example_request Verb_post ''/u/7'') = Done () e2
     \<and> res_status (ex_response e2) = 500 \<and> res_body (ex_response e2) = ''Internal Server Error''
     \<and> bf_find alist_fields (res_fields (ex_response e2)) ''Allow''
         = bf_find alist_fields (res_fields (ex_response (example_request Verb_post ''/u/7''))) ''Allow''
     \<and> hr_params (ex_request e2) = None"
proof (rule failed_route_500 [OF _ alist_fields_ok])
  show "Route_call (example_routes ! 1) (example_request Verb_post ''/u/7'')
      = Threw (example_request Verb_post ''/u/7'') \<or>
    Route_call (example_routes ! 1) (example_request Verb_post ''/u/7'')
      = Done () (example_request Verb_post ''/u/7'') \<and>
    \<not> hasResponse (ex_response (example_request Verb_post ''/u/7''))"
    by (simp add: example_routes_def Route_call_def example_request_def HttpResponse_def hasResponse_def)
  show "\<not> framing_field ''Allow''" by code_simp
qed

text \<open>A custom 404 handler runs outside the router's protection: when it throws, \<^verbatim>\<open>route\<close>
  throws, no 500 is written, and the request keeps the pointer to the parameters of the call.\<close>

theorem throwing_404_handler_escapes:
  assumes "libs_ok L" and "admitted L rt e e1 path"
    and "\<forall>r \<in> set (rt_routes rt). \<not> http_candidate (lb_re2 L) path r"
    and "rt_not_found rt = HttpHandler Threw"
  shows "\<exists>e2. Router_route L rt e = Threw e2 \<and> ex_response e2 = ex_response e1
    \<and> hr_params (ex_request e2) \<noteq> None"
proof -
  have "\<not> (\<exists>r \<in> set (rt_routes rt). http_candidate (lb_re2 L) path r)" using assms(3) by blast
  moreover obtain q where "scan_routes (lb_re2 L) rt path (rt_routes rt) False RouteParams_init e1
    = clear_params (get_http
        (if \<exists>r \<in> set (rt_routes rt). http_candidate (lb_re2 L) path r
         then rt_method_not_allowed rt else rt_not_found rt) (set_params (Some q) e1))"
    using scan_routes_none [of "lb_re2 L" RouteParams_init "rt_routes rt" path e1 rt False] assms(1,3)
    by (auto simp: libs_ok_def serves_def)
  ultimately show ?thesis
    unfolding Router_route_admitted [OF assms(2)] using assms(4) by (simp add: set_params_def)
qed

theorem throwing_404_handler_escapes_witness:
  "\<exists>e2. Router_route example_libs (setNotFoundHandler (HttpHandler Threw) (Router_init alist_fields)
          :: (example_h, unit, unit, nat, string) router)
        (example_request Verb_get ''/x'' :: (example_h, unit, nat) exchange) = Threw e2
     \<and> ex_response e2 = HttpResponse alist_fields \<and> hr_params (ex_request e2) \<noteq> None"
proof -
  let ?rt = "setNotFoundHandler (HttpHandler Threw) (Router_init alist_fields)
    :: (example_h, unit, unit, nat, string) router"
  let ?e1 = "(example_request Verb_get ''/x'')
      \<lparr>ex_request := setIP ''203.0.113.7'' (ex_request (example_request Verb_get ''/x''))\<rparr>"
  have "\<exists>e2. Router_route example_libs ?rt (example_request Verb_get ''/x'') = Threw e2
     \<and> ex_response e2 = ex_response ?e1 \<and> hr_params (ex_request e2) \<noteq> None"
  proof (rule throwing_404_handler_escapes [OF example_libs_ok])
    show "admitted example_libs ?rt (example_request Verb_get ''/x'') ?e1 ''/x''"
      using example_admitted [of "''/x''" Verb_get]
      by (simp add: admitted_def setNotFoundHandler_def example_router_def Router_init_def)
  qed (simp_all add: setNotFoundHandler_def Router_init_def)
  then show ?thesis by (simp add: example_request_def setNotFoundHandler_def)
qed

text \<open>A group adds to the router, after the routes it has, every route its callback registered whose
  prefixed path compiles: in their order, with the prefix before the path and the group's
  middlewares before the route's own, and changes nothing else, so what the callback set on the
  subrouter besides routes (global middlewares, handlers, proxies) is dropped.\<close>

theorem group_prefixes_routes:
  assumes "libs_ok L" and "fn (Router_init (lb_fields L)) = Some sub"
    and "\<forall>r \<in> set (rt_routes sub). ascii (prefix @ ro_path r)"
  shows "\<exists>new. Router_group L prefix pre post fn rt = Some (rt\<lparr>rt_routes := rt_routes rt @ new\<rparr>)
    \<and> map parts new = map (grouped_parts prefix pre post)
        (filter (\<lambda>r. compiles (lb_re2 L) (prefix @ ro_path r)) (rt_routes sub))"
  using assms group_add_parts [of "lb_re2 L" "rt_routes sub" prefix]
  by (simp add: Router_group_def libs_ok_def)

theorem group_prefixes_routes_witness:
  "\<exists>new. Router_group example_libs ''/api'' [HttpHandler Threw] [] (\<lambda>rt. Some example_router) example_router
       = Some (example_router\<lparr>rt_routes := rt_routes example_router @ new\<rparr>)
     \<and> map parts new = map (grouped_parts ''/api'' [HttpHandler Threw] [])
         (filter (\<lambda>r. compiles (lb_re2 example_libs) (''/api'' @ ro_path r)) (rt_routes example_router))"
proof (rule group_prefixes_routes [OF example_libs_ok])
  show "\<forall>r \<in> set (rt_routes example_router). ascii (''/api'' @ ro_path r)"
    by (simp add: example_router_def example_routes_def)
qed simp

text \<open>A WebSocket upgrade is offered to the first registered WebSocket route whose path matches, with
  the resolved client address and the captures of that match in the context before its
  pre-middlewares run.\<close>

theorem upgrade_first_match:
  assumes "libs_ok L" and "rt_routes rt = before @ r # after"
    and "tp_resolve (lb_fields L) (lb_asio L) (rt_proxies rt) (wc_peer_ip (wx_context x))
           (rq_fields (wc_request (wx_context x))) = Some ip"
    and "lb_url_path L (rq_target (wc_request (wx_context x))) = Some path"
    and "\<forall>r' \<in> set before. \<not> ws_candidate (lb_re2 L) path r'" and "ws_candidate (lb_re2 L) path r"
  shows "Router_upgrade L rt (x, response)
    = try_upgrade (lb_fields L) rt
        (setIP ip (setPeerIP (wc_peer_ip (wx_context x)) (HttpRequest (wc_request (wx_context x)))))
        r (length before)
        (with_context (\<lambda>c. c\<lparr>wc_ip := ip, wc_params := bindings (lb_re2 L) r path\<rparr>) x, response)"
  using assms scan_upgrade_first [of L RouteParams_init before path r rt _ after 0]
  by (simp add: Router_upgrade_def Let_def libs_ok_def with_context_def)

theorem upgrade_first_match_witness:
  "Router_upgrade example_libs example_router (example_ws ''/u/7'', HttpResponse alist_fields)
    = Done True (with_context (\<lambda>c. c\<lparr>wc_params := [(''id'', ''7'')], wc_route_index := 2\<rparr>)
        (example_ws ''/u/7''), HttpResponse alist_fields)"
proof -
  let ?x = "example_ws ''/u/7''"
  note defs = example_router_def Router_init_def example_request_def HttpRequest_def setPeerIP_def
    setIP_def WebSocketContext_def example_ws_def
  have "Router_upgrade example_libs example_router (?x, HttpResponse alist_fields)
    = try_upgrade (lb_fields example_libs) example_router
        (setIP ''203.0.113.7'' (setPeerIP (wc_peer_ip (wx_context ?x)) (HttpRequest (wc_request (wx_context ?x)))))
        (example_routes ! 2) (length (take 2 example_routes))
        (with_context (\<lambda>c. c\<lparr>wc_ip := ''203.0.113.7'',
            wc_params := bindings (lb_re2 example_libs) (example_routes ! 2) ''/u/7''\<rparr>) ?x, HttpResponse alist_fields)"
  proof (rule upgrade_first_match [OF example_libs_ok])
    show "rt_routes example_router = take 2 example_routes @ example_routes ! 2 # []"
      by (simp add: example_router_def example_routes_def)
    show "lb_url_path example_libs (rq_target (wc_request (wx_context ?x))) = Some ''/u/7''"
      by (simp add: defs example_libs_def)
  qed (simp_all add: defs example_resolve ws_candidate_def example_routes_def isWebSocket_def
      path_matches_def example_match)
  then show ?thesis
    by (simp add: try_upgrade_def Route_upgrade_def bindings_def example_match with_context_def
        example_routes_def defs)
qed

text \<open>C33: An upgrade that is refused has an HTTP response and \<^verbatim>\<open>upgrade\<close> returns, whatever
  the middlewares of the route do, throwing included, provided the 404 handler answers. The one
  exception is a middleware that rejects with a body and a status HTTP allows no body with: the
  response is sent outside of the \<^verbatim>\<open>try\<close>, so only then can \<^verbatim>\<open>upgrade\<close> throw.\<close>

theorem refused_upgrade_answered:
  assumes "built_router L rt" and "always_answers (rt_not_found rt)"
  shows "refused_answered (Router_upgrade L rt s)"
proof -
  from built_router_wf [OF assms(1)] have wf: "libs_ok L" "router_wf L rt" by auto
  then have h500: "always_answers (rt_internal_error rt)" by (rule built_500_answers)
  have F: "fields_ok (lb_fields L)" using wf(1) by (simp add: libs_ok_def)
  obtain ip where "tp_resolve (lb_fields L) (lb_asio L) (rt_proxies rt) (wc_peer_ip (wx_context (fst s)))
      (rq_fields (wc_request (wx_context (fst s)))) = Some ip"
    using Router_route_resolved [OF wf] by blast
  then show ?thesis
    by (auto simp: Router_upgrade_def Let_def refuse_with_answered [OF h500]
        scan_upgrade_answered [OF F h500 assms(2)] split: option.splits)
qed

theorem refused_upgrade_answered_witness:
  "refused_answered (Router_upgrade example_libs example_router
      (example_ws ''/x'', HttpResponse alist_fields))"
  by (rule refused_upgrade_answered [OF example_router_built])
    (simp add: example_router_def Router_init_def)

text \<open>Such a rejection does throw: 204 or 304 with a body is not answered, the exception of the send
  leaves \<^verbatim>\<open>upgrade\<close>.\<close>

theorem bodiless_reject_escapes:
  assumes "fields_ok F" and "Route_upgrade r (fst s) = Done False x"
    and "wc_reject_status (wx_context x) \<in> {204, 304}" and "wc_reject_body (wx_context x) \<noteq> []"
  shows "try_upgrade F rt request r i s
    = Threw (x, (snd s)\<lparr>res_status := wc_reject_status (wx_context x),
                        res_body := wc_reject_body (wx_context x)\<rparr>)"
  using assms fields_okD(7) [OF assms(1,4), of "wc_reject_status (wx_context x)"]
  by (auto simp: try_upgrade_def reject_upgrade_def res_send_def prepare_payload_def)

theorem bodiless_reject_escapes_witness:
  "\<exists>s. try_upgrade alist_fields example_router (HttpRequest (wc_request (wx_context (example_ws ''/u/7''))))
      ((example_routes ! 2)\<lparr>ro_pre := [WebSocketHandler (\<lambda>x. Done False
         (with_context (ws_reject 204 ''no'') x))]\<rparr>) 2 (example_ws ''/u/7'', HttpResponse alist_fields) = Threw s"
proof -
  let ?r = "(example_routes ! 2)\<lparr>ro_pre := [WebSocketHandler (\<lambda>x. Done False
         (with_context (ws_reject 204 ''no'') x))]\<rparr>"
  have r: "Route_upgrade ?r (fst (example_ws ''/u/7'', HttpResponse alist_fields))
      = Done False (with_context (ws_reject 204 ''no'') (example_ws ''/u/7''))"
    by (simp add: Route_upgrade_def)
  show ?thesis
    by (intro exI, rule bodiless_reject_escapes [OF alist_fields_ok r])
      (simp_all add: with_context_def ws_reject_def)
qed

text \<open>The connection of an accepted upgrade is opened on the route that accepted it, the first
  WebSocket route whose path matches; a handler that throws there closes the connection with an
  internal error and nothing escapes.\<close>

theorem accepted_upgrade_opens_route:
  assumes "libs_ok L" and "Router_upgrade L rt s = Done True t"
    and "lb_url_path L (rq_target (wc_request (wx_context (fst s)))) = Some path"
  shows "\<exists>k < length (rt_routes rt). ws_candidate (lb_re2 L) path (rt_routes rt ! k)
    \<and> (\<forall>j<k. \<not> ws_candidate (lb_re2 L) path (rt_routes rt ! j))
    \<and> Router_open close rt (fst t)
        = Done () (case Route_open (rt_routes rt ! k) (fst t) of
                     Done u x \<Rightarrow> x | Threw x \<Rightarrow> close cc_internal_error x)"
proof -
  obtain request s1 where
    scan: "scan_upgrade L rt request path (rt_routes rt) 0 RouteParams_init s1 = Done True t"
    using assms(2,3) by (auto simp: Router_upgrade_def Let_def split: option.splits)
  have "re2_ok (lb_re2 L)" using assms(1) by (simp add: libs_ok_def)
  from scan_upgrade_accepted [OF this rp_inv_init scan] obtain k where k: "k < length (rt_routes rt)" "wc_route_index (wx_context (fst t)) = k"
    "ws_candidate (lb_re2 L) path (rt_routes rt ! k)"
    "\<forall>j<k. \<not> ws_candidate (lb_re2 L) path (rt_routes rt ! j)"
    by auto
  then show ?thesis
    by (intro exI [of _ k]) (auto simp: Router_open_def Let_def split: outcome.splits)
qed

theorem accepted_upgrade_opens_route_witness:
  "\<exists>k < length example_routes. ws_candidate example_re2 ''/u/7'' (example_routes ! k)
     \<and> Router_open (\<lambda>code x. x) example_router
         (with_context (\<lambda>c. c\<lparr>wc_params := [(''id'', ''7'')], wc_route_index := 2\<rparr>) (example_ws ''/u/7''))
       = Done () (case Route_open (example_routes ! k)
           (with_context (\<lambda>c. c\<lparr>wc_params := [(''id'', ''7'')], wc_route_index := 2\<rparr>) (example_ws ''/u/7'')) of
             Done u x \<Rightarrow> x | Threw x \<Rightarrow> x)"
proof -
  note defs = example_router_def Router_init_def example_request_def HttpRequest_def setPeerIP_def
    setIP_def WebSocketContext_def example_ws_def
  have accepted: "Router_upgrade example_libs example_router (example_ws ''/u/7'', HttpResponse alist_fields)
      = Done True (with_context (\<lambda>c. c\<lparr>wc_params := [(''id'', ''7'')], wc_route_index := 2\<rparr>) (example_ws ''/u/7''),
          HttpResponse alist_fields)"
    by (simp add: Router_upgrade_def Let_def example_resolve defs with_context_def pathMatch_def
        path_match_def example_match isWebSocket_def example_routes_def copy_params_def rp_forEach_def
        rp_add_def rp_reset_def RouteParams_init_def inline_capacity_def try_upgrade_def
        Route_upgrade_def store_captures_def capture_slots_def example_libs_def)
  have "lb_url_path example_libs (rq_target (wc_request (wx_context (fst (example_ws ''/u/7'', HttpResponse alist_fields)))))
      = Some ''/u/7''"
    by (simp add: defs example_libs_def)
  from accepted_upgrade_opens_route [OF example_libs_ok accepted this, of "\<lambda>code x. x"]
  show ?thesis by (simp only: fst_conv example_libs_simps) (auto simp: example_router_def)
qed

text \<open>C28: A router built through its calls is well-typed, and dispatch keeps it so: each route has a compiled
  pattern, and trying it on a path leaves well-formed parameters, which after a match are exactly
  the route's declared names, in order; WebSocket routes have no methods.\<close>

theorem built_routes_well_typed:
  assumes "built_router L rt" and "r \<in> set (rt_routes rt)" and "rp_inv params"
    and "pathMatch (lb_re2 L) r path params = (matched, params1)"
  shows "re_ok (lb_re2 L) (ro_pattern r) \<and> rp_inv params1
    \<and> (matched \<longrightarrow> map fst (rp_list params1) = ro_param_names r) \<and> (isWebSocket r \<longrightarrow> ro_methods r = {})"
proof -
  from built_router_wf [OF assms(1)] have R: "re2_ok (lb_re2 L)" and wf: "route_wf (lb_re2 L) r"
    using assms(2) by (auto simp: libs_ok_def router_wf_def)
  from pathMatch_cases [OF R assms(3), of r path] assms(4)
  have q: "rp_inv params1" "matched = path_matches (lb_re2 L) r path"
    "matched \<Longrightarrow> rp_list params1 = bindings (lb_re2 L) r path"
    by auto
  have "map fst (bindings (lb_re2 L) r path) = ro_param_names r" if "path_matches (lb_re2 L) r path"
    using that re2_length [OF R] by (fastforce simp: path_matches_def bindings_def)
  with q wf show ?thesis by (simp add: route_wf_def)
qed

theorem built_routes_well_typed_witness:
  "\<exists>params1. pathMatch example_re2 (example_routes ! 0) ''/u/7'' RouteParams_init = (True, params1)
     \<and> rp_inv params1 \<and> map fst (rp_list params1) = [''id'']"
proof -
  let ?r = "example_routes ! 0"
  have route: "?r \<in> set (rt_routes example_router)" by (simp add: example_router_def example_routes_def)
  have match: "fst (pathMatch example_re2 ?r ''/u/7'' RouteParams_init)"
    by (simp add: example_routes_def pathMatch_def path_match_def example_match)
  obtain params1 where eq: "pathMatch (lb_re2 example_libs) ?r ''/u/7'' RouteParams_init = (True, params1)"
    using match by (cases "pathMatch example_re2 ?r ''/u/7'' RouteParams_init") auto
  from built_routes_well_typed [OF example_router_built route rp_inv_init eq] eq
  show ?thesis by (auto simp: example_routes_def)
qed

end
