(* ===== verification/Cors.thy ===== *)
theory Cors
  imports Router
begin

text \<open>
  The CORS middleware of sources/Middleware/Cors.cpp: compiling the options into a policy, deciding
  whether an origin is allowed, and the handler that Router::use installs. Header names and status
  codes are Beast's constants, \<^verbatim>\<open>http::to_string\<close> of a verb is a parameter.
\<close>

section \<open>Options and policy\<close>

record cors_options =
  allowed_origins :: "string list"
  allowed_methods :: "verb list"
  allowed_headers :: "string list"
  exposed_headers :: "string list"
  allow_credentials :: bool
  cors_max_age :: int

definition CorsOptions :: cors_options where
  "CorsOptions =
     \<lparr>allowed_origins = [''*''],
      allowed_methods = [Verb_get, Verb_head, Verb_post, Verb_put, Verb_patch, Verb_delete],
      allowed_headers = [], exposed_headers = [], allow_credentials = False, cors_max_age = 600\<rparr>"

record policy =
  any_origin :: bool
  exact_origins :: "string list"
  subdomain_prefixes :: "string list"
  subdomain_suffixes :: "string list"
  pol_methods :: string
  pol_headers :: string
  pol_exposed :: string
  pol_max_age :: string
  pol_credentials :: bool

definition Policy_init :: policy where
  "Policy_init =
     \<lparr>any_origin = False, exact_origins = [], subdomain_prefixes = [], subdomain_suffixes = [],
      pol_methods = [], pol_headers = [], pol_exposed = [], pol_max_age = [], pol_credentials = False\<rparr>"

fun join_loop :: "string list \<Rightarrow> string \<Rightarrow> string" where
  "join_loop [] out = out"
| "join_loop (item # items) out =
     join_loop items ((if out \<noteq> [] then out @ '', '' else out) @ item)"

definition join :: "string list \<Rightarrow> string" where
  "join items = join_loop items []"

text \<open>\<^verbatim>\<open>std::to_string\<close> of an integer.\<close>

fun digits_of :: "nat \<Rightarrow> string" where
  "digits_of n = (if n < 10 then [char_of (48 + n)] else digits_of (n div 10) @ [char_of (48 + n mod 10)])"

declare digits_of.simps [simp del]

definition to_string :: "int \<Rightarrow> string" where
  "to_string i = (if i < 0 then CHR ''-'' # digits_of (nat (- i)) else digits_of (nat i))"

section \<open>Allowed origins\<close>

text \<open>One subdomain pattern: prefix, at least one character of a plain label, suffix.\<close>

definition subdomain_allows :: "string \<Rightarrow> string \<Rightarrow> string \<Rightarrow> bool" where
  "subdomain_allows origin prefix suffix \<longleftrightarrow>
     length origin > length prefix + length suffix
     \<and> sv_substr origin 0 (length prefix) = prefix
     \<and> sv_substr origin (length origin - length suffix) (length origin) = suffix
     \<and> \<not> sv_find_first_of
          (sv_substr origin (length prefix) (length origin - length prefix - length suffix)) ''/:@''"

fun subdomains_allow :: "string \<Rightarrow> string list \<Rightarrow> string list \<Rightarrow> bool" where
  "subdomains_allow origin (prefix # ps) (suffix # ss) =
     (subdomain_allows origin prefix suffix \<or> subdomains_allow origin ps ss)"
| "subdomains_allow origin ps ss = False"

definition policy_allows :: "policy \<Rightarrow> string \<Rightarrow> bool" where
  "policy_allows p origin =
     (if any_origin p then True
      else if origin \<in> set (exact_origins p) then True
      else subdomains_allow origin (subdomain_prefixes p) (subdomain_suffixes p))"

section \<open>Compiling\<close>

text \<open>The origins in order; \<open>Inl\<close> is the origin \<^verbatim>\<open>invalid_argument\<close> is thrown for.\<close>

fun compile_origins :: "string list \<Rightarrow> policy \<Rightarrow> string + policy" where
  "compile_origins [] p = Inr p"
| "compile_origins (origin # origins) p =
     (if origin = ''*'' then compile_origins origins (p\<lparr>any_origin := True\<rparr>)
      else case sv_find_str origin ''://*.'' of
        Some wildcard \<Rightarrow>
          compile_origins origins
            (p\<lparr>subdomain_prefixes := subdomain_prefixes p @ [sv_substr origin 0 (wildcard + 3)],
               subdomain_suffixes := subdomain_suffixes p @ [drop (wildcard + 4) origin]\<rparr>)
      | None \<Rightarrow>
          if CHR ''*'' \<in> set origin \<or> sv_find_str origin ''://'' = None \<or> last origin = CHR ''/''
          then Inl origin
          else compile_origins origins (p\<lparr>exact_origins := exact_origins p @ [origin]\<rparr>))"

definition cors_compile :: "(verb \<Rightarrow> string) \<Rightarrow> cors_options \<Rightarrow> string + policy" where
  "cors_compile verb_name opts =
     (case compile_origins (allowed_origins opts) Policy_init of
        Inl e \<Rightarrow> Inl e
      | Inr p \<Rightarrow>
          Inr (p\<lparr>pol_methods := join (map verb_name (allowed_methods opts)),
                 pol_headers := join (allowed_headers opts),
                 pol_exposed := join (exposed_headers opts),
                 pol_max_age := to_string (cors_max_age opts),
                 pol_credentials := allow_credentials opts\<rparr>))"

section \<open>The handler\<close>

definition cors_varies :: "policy \<Rightarrow> bool" where
  "cors_varies p = (\<not> (any_origin p \<and> \<not> pol_credentials p))"

definition is_preflight :: "'h fields_lib \<Rightarrow> 'h request_msg \<Rightarrow> bool" where
  "is_preflight F m =
     (rq_method m = Verb_options \<and> headers_get F m ''Access-Control-Request-Method'' \<noteq> [])"

text \<open>The header fields of a preflight answer, then the 204.\<close>

definition answer_preflight ::
  "'h fields_lib \<Rightarrow> policy \<Rightarrow> 'h request_msg \<Rightarrow> 'h http_response \<Rightarrow> 'h http_response" where
  "answer_preflight F p m r =
     (let r1 = res_header F ''Access-Control-Allow-Methods'' (pol_methods p) r;
          requested = headers_get F m ''Access-Control-Request-Headers'';
          r2 = (if pol_headers p \<noteq> [] then res_header F ''Access-Control-Allow-Headers'' (pol_headers p) r1
                else if requested \<noteq> [] then res_header F ''Access-Control-Allow-Headers'' requested r1
                else r1);
          r3 = res_header F ''Access-Control-Max-Age'' (pol_max_age p) r2;
          r4 = res_header F ''Vary''
                 ''Origin, Access-Control-Request-Method, Access-Control-Request-Headers'' r3
      in sendNoContent r4)"

definition cors_respond ::
  "'h fields_lib \<Rightarrow> policy \<Rightarrow> 'h request_msg \<Rightarrow> 'h sending" where
  "cors_respond F p m r0 =
     (let varies = cors_varies p;
          r1 = (if varies then res_header F ''Vary'' ''Origin'' r0 else r0);
          origin = headers_get F m ''Origin'';
          preflight = is_preflight F m
      in if origin = [] then Done () r1
         else if \<not> policy_allows p origin then
           (if preflight then res_send_typed F 403 ''CORS origin not allowed'' ''text/plain'' r1 else Done () r1)
         else
           (let r2 = res_header F ''Access-Control-Allow-Origin'' (if varies then origin else ''*'') r1;
                r3 = (if pol_credentials p
                      then res_header F ''Access-Control-Allow-Credentials'' ''true'' r2 else r2)
            in Done () (if \<not> preflight then
                 (if pol_exposed p \<noteq> []
                  then res_header F ''Access-Control-Expose-Headers'' (pol_exposed p) r3 else r3)
               else answer_preflight F p m r3)))"

definition cors_handler :: "'h fields_lib \<Rightarrow> policy \<Rightarrow> (('h, 'c, 'w) exchange, unit) action" where
  "cors_handler F p e = responding (cors_respond F p (hr_request (ex_request e))) e"

definition cors ::
  "'h fields_lib \<Rightarrow> (verb \<Rightarrow> string) \<Rightarrow> cors_options
     \<Rightarrow> string + (('h, 'c, 'w) exchange, unit) action" where
  "cors F verb_name opts =
     (case cors_compile verb_name opts of Inl e \<Rightarrow> Inl e | Inr p \<Rightarrow> Inr (cors_handler F p))"

section \<open>What the handler puts into the response\<close>

definition cors_field :: "'h fields_lib \<Rightarrow> 'h http_response \<Rightarrow> string \<Rightarrow> string option" where
  "cors_field F r name = bf_find F (res_fields r) name"

lemma cors_field_header:
  "fields_ok F \<Longrightarrow> cors_field F (res_header F n v r) m = (if iequals n m then Some v else cors_field F r m)"
  by (simp add: cors_field_def res_header_def fields_okD(2))

lemma cors_field_no_content [simp]: "cors_field F (sendNoContent r) m = cors_field F r m"
  by (simp add: cors_field_def sendNoContent_def)

lemma cors_field_send:
  "fields_ok F \<Longrightarrow> \<not> framing_field m \<Longrightarrow> cors_field F (sent F s c r) m = cors_field F r m"
  by (simp add: cors_field_def fields_okD(3))

lemma header_names [simp]:
  "\<not> iequals ''Vary'' ''Access-Control-Allow-Origin''"
  "\<not> iequals ''Access-Control-Allow-Credentials'' ''Access-Control-Allow-Origin''"
  "\<not> iequals ''Access-Control-Expose-Headers'' ''Access-Control-Allow-Origin''"
  "\<not> iequals ''Access-Control-Allow-Methods'' ''Access-Control-Allow-Origin''"
  "\<not> iequals ''Access-Control-Allow-Headers'' ''Access-Control-Allow-Origin''"
  "\<not> iequals ''Access-Control-Max-Age'' ''Access-Control-Allow-Origin''"
  "\<not> iequals ''Content-Type'' ''Access-Control-Allow-Origin''"
  "\<not> framing_field ''Access-Control-Allow-Origin''"
  by code_simp+

lemma answer_preflight_facts:
  assumes "fields_ok F"
  shows "res_status (answer_preflight F p m r) = 204"
    and "cors_field F (answer_preflight F p m r) ''Access-Control-Allow-Origin''
           = cors_field F r ''Access-Control-Allow-Origin''"
  using assms by (simp_all add: answer_preflight_def Let_def cors_field_header)

text \<open>Every case of the handler: the answer and the field that opens the response to a page.\<close>

lemma cors_respond_cases:
  assumes "fields_ok F"
  shows "res_status (outcome_state (cors_respond F p m r)) =
     (if headers_get F m ''Origin'' = [] then res_status r
      else if \<not> policy_allows p (headers_get F m ''Origin'')
        then (if is_preflight F m then 403 else res_status r)
      else if is_preflight F m then 204 else res_status r)"
    and "cors_field F (outcome_state (cors_respond F p m r)) ''Access-Control-Allow-Origin'' =
     (if headers_get F m ''Origin'' \<noteq> [] \<and> policy_allows p (headers_get F m ''Origin'')
      then Some (if cors_varies p then headers_get F m ''Origin'' else ''*'')
      else cors_field F r ''Access-Control-Allow-Origin'')"
  using assms
  by (simp_all add: cors_respond_def Let_def cors_field_header send_done cors_field_send bodiless_status_def
      answer_preflight_facts)

text \<open>The handler never throws.\<close>

lemma cors_handler_done:
  assumes "fields_ok F"
  shows "cors_handler F p e
    = Done () (e\<lparr>ex_response := outcome_state (cors_respond F p (hr_request (ex_request e)) (ex_response e))\<rparr>)"
  using assms by (simp add: cors_handler_def responding_def cors_respond_def Let_def send_done bodiless_status_def)

section \<open>Subdomain patterns\<close>

lemma subdomain_allows_iff:
  "subdomain_allows origin prefix suffix \<longleftrightarrow>
     (\<exists>label. origin = prefix @ label @ suffix \<and> label \<noteq> [] \<and> \<not> sv_find_first_of label ''/:@'')"
proof
  assume a: "subdomain_allows origin prefix suffix"
  define rest where "rest = drop (length prefix) origin"
  define label where "label = take (length rest - length suffix) rest"
  have pre: "origin = prefix @ rest"
    using a append_take_drop_id [of "length prefix" origin]
    by (simp add: subdomain_allows_def sv_substr_def rest_def)
  have len: "length rest > length suffix" using a pre by (auto simp: subdomain_allows_def)
  have "drop (length origin - length suffix) origin = suffix"
    using a by (simp add: subdomain_allows_def sv_substr_def)
  then have "drop (length rest - length suffix) rest = suffix"
    using pre len by (simp add: drop_append)
  then have "rest = label @ suffix" unfolding label_def by (metis append_take_drop_id)
  moreover have "\<not> sv_find_first_of label ''/:@''"
    using a pre by (simp add: subdomain_allows_def sv_substr_def label_def)
  moreover have "label \<noteq> []" using len by (auto simp: label_def)
  ultimately show "\<exists>label. origin = prefix @ label @ suffix \<and> label \<noteq> [] \<and> \<not> sv_find_first_of label ''/:@''"
    using pre by blast
qed (auto simp: subdomain_allows_def sv_substr_def)

lemma find_wildcard:
  assumes "CHR ''*'' \<notin> set scheme"
  shows "sv_find_str (scheme @ ''://*.'' @ domain) ''://*.'' = Some (length scheme)"
  using assms
proof (induction scheme)
  case (Cons c cs)
  have "\<not> starts_with ''://*.'' (c # cs @ ''://*.'' @ domain)"
    using Cons.prems by (cases cs; cases "tl cs"; cases "tl (tl cs)") (auto simp: starts_with_iff)
  with Cons show ?case by simp
qed simp

text \<open>The origins an option list stands for: the declarative reading of the documentation.\<close>

definition matches_pattern :: "string \<Rightarrow> string \<Rightarrow> bool" where
  "matches_pattern origin pat \<longleftrightarrow> pat = ''*'' \<or> pat = origin
     \<or> (\<exists>scheme label domain. pat = scheme @ ''://*.'' @ domain \<and> CHR ''*'' \<notin> set scheme
          \<and> origin = scheme @ ''://'' @ label @ ''.'' @ domain \<and> label \<noteq> []
          \<and> \<not> sv_find_first_of label ''/:@'')"

text \<open>
  A pattern as the documentation writes it: the star, an exact origin without a star, or one
  subdomain star after the scheme.
\<close>

definition plain_pattern :: "string \<Rightarrow> bool" where
  "plain_pattern pat \<longleftrightarrow> pat = ''*'' \<or> CHR ''*'' \<notin> set pat
     \<or> (\<exists>scheme domain. pat = scheme @ ''://*.'' @ domain \<and> CHR ''*'' \<notin> set scheme)"

lemma subdomains_allow_append:
  "length ps = length ss \<Longrightarrow> subdomains_allow origin (ps @ [p]) (ss @ [s])
     \<longleftrightarrow> subdomains_allow origin ps ss \<or> subdomain_allows origin p s"
  by (induction ps ss rule: list_induct2) auto

definition policy_ok :: "policy \<Rightarrow> bool" where
  "policy_ok p \<longleftrightarrow> length (subdomain_prefixes p) = length (subdomain_suffixes p)"

lemma sv_find_str_star: "sv_find_str s ''://*.'' = Some i \<Longrightarrow> CHR ''*'' \<in> set s"
proof -
  assume "sv_find_str s ''://*.'' = Some i"
  from sv_find_str_Some [OF this] obtain r where "s = take i s @ ''://*.'' @ r" by blast
  then have "set s = set (take i s @ ''://*.'' @ r)" by (rule arg_cong)
  then show ?thesis by simp
qed

lemma matches_wildcard:
  assumes "CHR ''*'' \<notin> set scheme" and "scheme @ ''://*.'' @ domain \<noteq> origin"
  shows "matches_pattern origin (scheme @ ''://*.'' @ domain)
    \<longleftrightarrow> subdomain_allows origin (scheme @ ''://'') (CHR ''.'' # domain)"
proof -
  have unique: "scheme' = scheme \<and> domain' = domain"
    if "scheme @ ''://*.'' @ domain = scheme' @ ''://*.'' @ domain'" "CHR ''*'' \<notin> set scheme'" for scheme' domain'
  proof -
    have "takeWhile (\<lambda>c. c \<noteq> CHR ''*'') ((scheme @ ''://'') @ ''*.'' @ domain) = scheme @ ''://''"
      using assms(1) by (intro span_literal) simp_all
    moreover have "takeWhile (\<lambda>c. c \<noteq> CHR ''*'') ((scheme' @ ''://'') @ ''*.'' @ domain') = scheme' @ ''://''"
      using that(2) by (intro span_literal) simp_all
    ultimately have "scheme = scheme'" using that(1) by simp
    with that(1) show ?thesis by simp
  qed
  have "scheme @ ''://*.'' @ domain \<noteq> ''*''" by (cases scheme) auto
  with assms(2) show ?thesis
    using assms(1) unique unfolding matches_pattern_def subdomain_allows_iff by fastforce
qed

lemma compile_origins_spec:
  assumes "compile_origins origins p = Inr q" and "policy_ok p"
    and "\<forall>o' \<in> set origins. plain_pattern o'" and "CHR ''*'' \<notin> set origin"
  shows "policy_ok q \<and> (policy_allows q origin
    \<longleftrightarrow> policy_allows p origin \<or> (\<exists>o' \<in> set origins. matches_pattern origin o'))"
  using assms(1-3)
proof (induction origins p rule: compile_origins.induct)
  case (2 o' origins p)
  show ?case
  proof (cases "o' = ''*''")
    case True
    with 2 show ?thesis by (auto simp: policy_ok_def policy_allows_def matches_pattern_def)
  next
    case False
    note star = False
    show ?thesis
    proof (cases "sv_find_str o' ''://*.''")
      case None
      with 2 star have plain: "CHR ''*'' \<notin> set o'"
        and rest: "compile_origins origins (p\<lparr>exact_origins := exact_origins p @ [o']\<rparr>) = Inr q"
        by (auto split: if_splits)
      have "matches_pattern origin o' \<longleftrightarrow> o' = origin"
        using star plain by (auto simp: matches_pattern_def)
      moreover have "policy_ok q \<and> (policy_allows q origin
          \<longleftrightarrow> policy_allows (p\<lparr>exact_origins := exact_origins p @ [o']\<rparr>) origin
            \<or> (\<exists>o' \<in> set origins. matches_pattern origin o'))"
        using "2.IH"(2) [OF star None] plain rest "2.prems" star None by (auto simp: policy_ok_def split: if_splits)
      ultimately show ?thesis by (auto simp: policy_allows_def)
    next
      case (Some w)
      then have "CHR ''*'' \<in> set o'" by (rule sv_find_str_star)
      with star "2.prems"(3) obtain scheme domain where
        o': "o' = scheme @ ''://*.'' @ domain" "CHR ''*'' \<notin> set scheme"
        unfolding plain_pattern_def by auto
      with Some find_wildcard have w: "w = length scheme" by simp
      let ?p = "p\<lparr>subdomain_prefixes := subdomain_prefixes p @ [scheme @ ''://''],
          subdomain_suffixes := subdomain_suffixes p @ [CHR ''.'' # domain]\<rparr>"
      have pieces: "sv_substr o' 0 (w + 3) = scheme @ ''://''" "drop (w + 4) o' = CHR ''.'' # domain"
        by (simp_all add: o' w sv_substr_def)
      have "policy_ok q \<and> (policy_allows q origin
          \<longleftrightarrow> policy_allows ?p origin \<or> (\<exists>o' \<in> set origins. matches_pattern origin o'))"
        using "2.IH"(3) [OF star Some] "2.prems" star Some pieces by (simp add: policy_ok_def)
      moreover have "o' \<noteq> origin" using o' assms(4) by auto
      then have "matches_pattern origin o' \<longleftrightarrow> subdomain_allows origin (scheme @ ''://'') (CHR ''.'' # domain)"
        using matches_wildcard o' by simp
      ultimately show ?thesis
        using "2.prems"(2) by (auto simp: policy_allows_def policy_ok_def subdomains_allow_append)
    qed
  qed
qed simp

lemma cors_compile_allows:
  assumes "cors_compile verb_name opts = Inr p"
    and "\<forall>o' \<in> set (allowed_origins opts). plain_pattern o'" and "CHR ''*'' \<notin> set origin"
  shows "policy_allows p origin \<longleftrightarrow> (\<exists>o' \<in> set (allowed_origins opts). matches_pattern origin o')"
proof -
  obtain q where q: "compile_origins (allowed_origins opts) Policy_init = Inr q"
    using assms(1) by (auto simp: cors_compile_def split: sum.splits)
  have "policy_allows q origin \<longleftrightarrow> policy_allows p origin"
    using assms(1) q by (auto simp: cors_compile_def policy_allows_def)
  with compile_origins_spec [OF q _ assms(2,3)] show ?thesis
    by (auto simp: policy_ok_def Policy_init_def policy_allows_def)
qed

section \<open>A policy for closed examples\<close>

definition example_cors_options :: cors_options where
  "example_cors_options =
     CorsOptions\<lparr>allowed_origins := [''https://app.org'', ''https://*.example.com''], allow_credentials := True\<rparr>"

definition example_verb_name :: "verb \<Rightarrow> string" where
  "example_verb_name v = (case v of Verb_get \<Rightarrow> ''GET'' | Verb_head \<Rightarrow> ''HEAD'' | Verb_post \<Rightarrow> ''POST''
     | Verb_put \<Rightarrow> ''PUT'' | Verb_patch \<Rightarrow> ''PATCH'' | Verb_delete \<Rightarrow> ''DELETE''
     | Verb_options \<Rightarrow> ''OPTIONS'' | Verb_trace \<Rightarrow> ''TRACE'' | Verb_other s \<Rightarrow> s)"

definition example_policy :: policy where
  "example_policy =
     \<lparr>any_origin = False, exact_origins = [''https://app.org''], subdomain_prefixes = [''https://''],
      subdomain_suffixes = [''.example.com''], pol_methods = ''GET, HEAD, POST, PUT, PATCH, DELETE'',
      pol_headers = [], pol_exposed = [], pol_max_age = ''600'', pol_credentials = True\<rparr>"

lemma example_compile: "cors_compile example_verb_name example_cors_options = Inr example_policy"
  by code_simp

definition cors_request :: "verb \<Rightarrow> string \<Rightarrow> (example_h, unit, nat) exchange" where
  "cors_request method origin =
     (let e = example_request method ''/u/7'' in
      e\<lparr>ex_request := (ex_request e)\<lparr>hr_request := (hr_request (ex_request e))\<lparr>rq_fields :=
          [(''Origin'', origin), (''Access-Control-Request-Method'', ''PUT'')]\<rparr>\<rparr>\<rparr>)"

section \<open>Properties\<close>

text \<open>C32: An accepted list of origins means what its documentation says: an origin is allowed exactly
  when one of the patterns is the star, is that origin, or is a subdomain pattern that it matches
  with a non-empty label free of slashes, colons and at signs.\<close>

theorem cors_allows_documented_origins:
  assumes "cors_compile verb_name opts = Inr p"
    and "\<forall>pat \<in> set (allowed_origins opts). plain_pattern pat" and "CHR ''*'' \<notin> set origin"
  shows "policy_allows p origin \<longleftrightarrow> (\<exists>pat \<in> set (allowed_origins opts). matches_pattern origin pat)"
  by (rule cors_compile_allows [OF assms])

theorem cors_allows_documented_origins_witness:
  "policy_allows example_policy ''https://a.example.com''
     \<longleftrightarrow> (\<exists>pat \<in> set (allowed_origins example_cors_options). matches_pattern ''https://a.example.com'' pat)"
proof (rule cors_allows_documented_origins [OF example_compile])
  have "plain_pattern (''https'' @ ''://*.'' @ ''example.com'')"
    unfolding plain_pattern_def by (intro disjI2 exI conjI) (rule refl, simp)
  then show "\<forall>pat \<in> set (allowed_origins example_cors_options). plain_pattern pat"
    by (simp add: example_cors_options_def CorsOptions_def plain_pattern_def)
qed simp

text \<open>The response opens to a page only as the policy says: the Access-Control-Allow-Origin field the
  middleware writes is the request's origin, which the policy allows, or the star, and the star
  only for a policy that allows any origin without credentials.\<close>

theorem cors_opens_only_allowed:
  assumes "fields_ok F" and "cors F verb_name opts = Inr h" and "h e = Done () e1"
    and "cors_field F (ex_response e) ''Access-Control-Allow-Origin'' = None"
    and "cors_field F (ex_response e1) ''Access-Control-Allow-Origin'' = Some v"
  shows "\<exists>p. cors_compile verb_name opts = Inr p
    \<and> policy_allows p (headers_get F (hr_request (ex_request e)) ''Origin'')
    \<and> (v = headers_get F (hr_request (ex_request e)) ''Origin''
        \<or> v = ''*'' \<and> any_origin p \<and> \<not> allow_credentials opts)"
proof -
  obtain p where p: "cors_compile verb_name opts = Inr p" and h: "h = cors_handler F p"
    using assms(2) by (auto simp: cors_def split: sum.splits)
  have "pol_credentials p = allow_credentials opts"
    using p by (auto simp: cors_compile_def split: sum.splits)
  with assms(3-5) p show ?thesis
    unfolding h
    by (auto simp: cors_handler_done [OF assms(1)] cors_respond_cases(2) [OF assms(1)] cors_varies_def split: if_splits)
qed

theorem cors_opens_only_allowed_witness:
  "\<exists>p. cors_compile example_verb_name example_cors_options = Inr p
    \<and> policy_allows p ''https://a.example.com''
    \<and> (''https://a.example.com'' = ''https://a.example.com''
        \<or> ''https://a.example.com'' = ''*'' \<and> any_origin p \<and> \<not> allow_credentials example_cors_options)"
proof -
  let ?e = "cors_request Verb_get ''https://a.example.com''"
  let ?e1 = "?e\<lparr>ex_response :=
      outcome_state (cors_respond alist_fields example_policy (hr_request (ex_request ?e)) (ex_response ?e))\<rparr>"
  have origin: "headers_get alist_fields (hr_request (ex_request ?e)) ''Origin'' = ''https://a.example.com''"
    by code_simp
  have "\<exists>p. cors_compile example_verb_name example_cors_options = Inr p
    \<and> policy_allows p (headers_get alist_fields (hr_request (ex_request ?e)) ''Origin'')
    \<and> (''https://a.example.com'' = headers_get alist_fields (hr_request (ex_request ?e)) ''Origin''
        \<or> ''https://a.example.com'' = ''*'' \<and> any_origin p \<and> \<not> allow_credentials example_cors_options)"
  proof (rule cors_opens_only_allowed [OF alist_fields_ok])
    show "cors alist_fields example_verb_name example_cors_options = Inr (cors_handler alist_fields example_policy)"
      by (simp add: cors_def example_compile)
    show "cors_handler alist_fields example_policy ?e = Done () ?e1"
      by (rule cors_handler_done [OF alist_fields_ok])
  qed code_simp+
  then show ?thesis unfolding origin .
qed

text \<open>Installed with \<^verbatim>\<open>Router::use\<close>, the middleware answers every preflight before the
  routes are looked at: a 204 for an allowed origin and a 403 for another, without any handler or
  later middleware running.\<close>

theorem preflight_answered_before_routes:
  assumes "built_router L rt" and "rt_globals rt = cors_handler (lb_fields L) p # ms"
    and "is_preflight (lb_fields L) (hr_request (ex_request e))"
    and "headers_get (lb_fields L) (hr_request (ex_request e)) ''Origin'' = origin" and "origin \<noteq> []"
  shows "\<exists>e1. Router_route L rt e = Done () e1 \<and> ex_world e1 = ex_world e
    \<and> res_status (ex_response e1) = (if policy_allows p origin then 204 else 403)"
proof -
  from built_router_wf [OF assms(1)] have wf: "libs_ok L" "router_wf L rt" by auto
  have F: "fields_ok (lb_fields L)" using wf(1) by (simp add: libs_ok_def)
  obtain ip where "tp_resolve (lb_fields L) (lb_asio L) (rt_proxies rt) (hr_peer_ip (ex_request e))
      (rq_fields (hr_request (ex_request e))) = Some ip"
    using Router_route_resolved [OF wf] by blast
  then show ?thesis
    using assms(2-5)
    by (simp add: Router_route_def cors_handler_done [OF F] setIP_def hasResponse_def cors_respond_cases(1) [OF F])
qed

theorem preflight_answered_before_routes_witness:
  "\<exists>e1. Router_route example_libs (router_use (cors_handler alist_fields example_policy) example_router)
        (cors_request Verb_options ''https://evil.org'') = Done () e1
     \<and> ex_world e1 = ex_world (cors_request Verb_options ''https://evil.org'')
     \<and> res_status (ex_response e1) = (if policy_allows example_policy ''https://evil.org'' then 204 else 403)"
proof (rule preflight_answered_before_routes)
  show "built_router example_libs (router_use (cors_handler alist_fields example_policy) example_router)"
    using example_router_built unfolding built_router_def
    by (rule reachable_step [where e = "Use (cors_handler alist_fields example_policy)"])
       (simp add: router_step_def)
  show "rt_globals (router_use (cors_handler alist_fields example_policy) example_router)
      = cors_handler (lb_fields example_libs) example_policy # []"
    by (simp add: router_use_def example_router_def Router_init_def)
  show "is_preflight (lb_fields example_libs) (hr_request (ex_request (cors_request Verb_options ''https://evil.org'')))"
    unfolding example_libs_simps by code_simp
  show "headers_get (lb_fields example_libs)
      (hr_request (ex_request (cors_request Verb_options ''https://evil.org''))) ''Origin'' = ''https://evil.org''"
    unfolding example_libs_simps by code_simp
qed simp

text \<open>A wildcard origin is taken before it is checked: one that ends in a slash, or that has a second
  star, compiles although the documentation promises an exception for a malformed pattern.\<close>

theorem malformed_wildcards_accepted:
  "\<exists>p q. cors_compile verb_name (CorsOptions\<lparr>allowed_origins := [''https://*.example.com/'']\<rparr>) = Inr p
     \<and> cors_compile verb_name (CorsOptions\<lparr>allowed_origins := [''https://*.*.com'']\<rparr>) = Inr q
     \<and> subdomain_suffixes p = [''.example.com/''] \<and> subdomain_suffixes q = [''.*.com'']"
  by (simp add: cors_compile_def CorsOptions_def Policy_init_def sv_substr_def)

end
