(* ===== verification/ConnectionPool.thy ===== *)
theory ConnectionPool
  imports WebSocketContext "HOL-Library.Word" "HOL-Library.Sublist"
begin

text \<open>
  \<^verbatim>\<open>ConnectionPool\<close> and \<^verbatim>\<open>Pooled\<close> of include/cppgate/ConnectionPool.h. Every use of
  the pool (one call of \<^verbatim>\<open>acquire\<close>, \<^verbatim>\<open>warmUp\<close>, and the handle it
  gives) is an agent with a phase; a step is one critical section under the pool's mutex, or one
  action outside of it (the factory, the validator, a wake-up), so the steps of different agents
  interleave freely.
\<close>

section \<open>Options, time and errors\<close>

text \<open>Durations of the options are milliseconds, those of the clock nanoseconds, 64 bits each.\<close>

record pool_options =
  min_size :: nat
  max_size :: nat
  validate_after_idle :: int
  max_idle :: int
  has_validate :: bool

definition never :: int where
  "never = 2 ^ 63 - 1"

datatype pool_error = PoolTimeout | PoolClosed | FactoryThrew

definition options_valid :: "pool_options \<Rightarrow> bool" where
  "options_valid opts \<longleftrightarrow> \<not> (max_size opts = 0 \<or> min_size opts > max_size opts)"

definition timed :: "pool_options \<Rightarrow> bool" where
  "timed opts \<longleftrightarrow> has_validate opts \<or> max_idle opts \<noteq> never"

text \<open>
  Comparing a nanosecond duration with a millisecond one converts the latter: a 64-bit
  multiplication, whose overflow wraps on the compilers the library is built with.
\<close>

definition ms_to_ns :: "int \<Rightarrow> int" where
  "ms_to_ns ms = sint (word_of_int (ms * 1000000) :: 64 word)"

text \<open>The validator's answer, None when it throws.\<close>

fun isValid :: "bool option \<Rightarrow> bool" where
  "isValid (Some b) = b"
| "isValid None = False"

definition checkOut ::
  "pool_options \<Rightarrow> int \<Rightarrow> bool option \<Rightarrow> 'c \<Rightarrow> int \<Rightarrow> bool \<Rightarrow> 'c option" where
  "checkOut opts now answer connection since above_min =
     (if \<not> timed opts then Some connection
      else let idle_for = now - since;
               expired = (idle_for > ms_to_ns (max_idle opts) \<and> above_min);
               broken = (\<not> expired \<and> has_validate opts
                 \<and> idle_for > ms_to_ns (validate_after_idle opts) \<and> \<not> isValid answer)
           in if \<not> expired \<and> \<not> broken then Some connection else None)"

section \<open>The pool and its agents\<close>

datatype after_drop = Retry | Rethrow | Finish

datatype open_for = ForAcquire | ForWarmUp

datatype after_give = Released | WarmAgain

text \<open>
  \<open>Waiting\<close> holds the agent's \<^verbatim>\<open>Waiter\<close>: the connection handed over, \<open>may_open\<close> and
  \<open>closed\<close>. \<open>Giving\<close> and \<open>Dropping\<close> are agents about to take the lock in
  \<^verbatim>\<open>giveBack\<close> and \<^verbatim>\<open>dropped\<close>.
\<close>

datatype 'c phase =
    Rest
  | Failed pool_error
  | Acquiring
  | CheckingOut 'c int bool
  | Opening open_for
  | Waiting "'c option" bool bool
  | Holding 'c
  | Giving 'c int after_give
  | Dropping after_drop
  | WarmingUp

record 'c pool =
  idle_conns :: "('c \<times> int) list"
  pool_waiters :: "nat list"
  pool_open :: nat
  pool_closed :: bool
  agents :: "'c phase list"

definition ConnectionPool_create :: "'c pool" where
  "ConnectionPool_create =
     \<lparr>idle_conns = [], pool_waiters = [], pool_open = 0, pool_closed = False, agents = []\<rparr>"

text \<open>What anybody may ask of a pool.\<close>

definition pool_size :: "'c pool \<Rightarrow> nat" where
  "pool_size s = pool_open s"

definition pool_idle :: "'c pool \<Rightarrow> nat" where
  "pool_idle s = length (idle_conns s)"

definition pool_waiting :: "'c pool \<Rightarrow> nat" where
  "pool_waiting s = length (pool_waiters s)"

definition set_phase :: "nat \<Rightarrow> 'c phase \<Rightarrow> 'c pool \<Rightarrow> 'c pool" where
  "set_phase i p s = s\<lparr>agents := (agents s)[i := p]\<rparr>"

section \<open>The critical sections\<close>

text \<open>One turn of \<^verbatim>\<open>acquire\<close>'s loop, up to the unlock or the wait.\<close>

definition acquire_section :: "pool_options \<Rightarrow> nat \<Rightarrow> 'c pool \<Rightarrow> 'c pool" where
  "acquire_section opts i s =
     (if pool_closed s then set_phase i (Failed PoolClosed) s
      else if idle_conns s \<noteq> [] then
        (let (connection, since) = last (idle_conns s);
             above_min = (pool_open s > min_size opts)
         in set_phase i (CheckingOut connection since above_min)
              (s\<lparr>idle_conns := butlast (idle_conns s)\<rparr>))
      else if pool_open s < max_size opts then
        set_phase i (Opening ForAcquire) (s\<lparr>pool_open := pool_open s + 1\<rparr>)
      else set_phase i (Waiting None False False) (s\<lparr>pool_waiters := pool_waiters s @ [i]\<rparr>))"

fun after_giving :: "after_give \<Rightarrow> 'c phase" where
  "after_giving Released = Rest"
| "after_giving WarmAgain = WarmingUp"

definition giveBack :: "nat \<Rightarrow> 'c \<Rightarrow> int \<Rightarrow> after_give \<Rightarrow> 'c pool \<Rightarrow> 'c pool" where
  "giveBack i connection now k s =
     set_phase i (after_giving k)
       (if pool_closed s then s\<lparr>pool_open := pool_open s - 1\<rparr>
        else case pool_waiters s of
               w # ws \<Rightarrow> set_phase w (Waiting (Some connection) False False) (s\<lparr>pool_waiters := ws\<rparr>)
             | [] \<Rightarrow> s\<lparr>idle_conns := idle_conns s @ [(connection, now)]\<rparr>)"

fun after_dropping :: "after_drop \<Rightarrow> 'c phase" where
  "after_dropping Retry = Acquiring"
| "after_dropping Rethrow = Failed FactoryThrew"
| "after_dropping Finish = Rest"

definition dropped :: "nat \<Rightarrow> after_drop \<Rightarrow> 'c pool \<Rightarrow> 'c pool" where
  "dropped i k s =
     set_phase i (after_dropping k)
       (case pool_waiters s of
          w # ws \<Rightarrow>
            if \<not> pool_closed s then set_phase w (Waiting None True False) (s\<lparr>pool_waiters := ws\<rparr>)
            else s\<lparr>pool_open := pool_open s - 1\<rparr>
        | [] \<Rightarrow> s\<lparr>pool_open := pool_open s - 1\<rparr>)"

text \<open>\<^verbatim>\<open>waiter->closed = true\<close>, for every waiter of the queue.\<close>

fun close_phase :: "'c phase \<Rightarrow> 'c phase" where
  "close_phase (Waiting c m d) = Waiting c m True"
| "close_phase p = p"

definition close_waiters :: "nat list \<Rightarrow> 'c phase list \<Rightarrow> 'c phase list" where
  "close_waiters ws ps = fold (\<lambda>w ps. ps[w := close_phase (ps ! w)]) ws ps"

definition pool_close :: "'c pool \<Rightarrow> 'c pool" where
  "pool_close s =
     (if pool_closed s then s
      else s\<lparr>pool_closed := True, idle_conns := [],
             pool_open := pool_open s - length (idle_conns s),
             agents := close_waiters (pool_waiters s) (agents s), pool_waiters := []\<rparr>)"

definition warmUp_section :: "pool_options \<Rightarrow> nat \<Rightarrow> 'c pool \<Rightarrow> 'c pool" where
  "warmUp_section opts i s =
     (if pool_closed s \<or> pool_open s \<ge> min_size opts then set_phase i Rest s
      else set_phase i (Opening ForWarmUp) (s\<lparr>pool_open := pool_open s + 1\<rparr>))"

text \<open>The waiter after \<^verbatim>\<open>wait_until\<close>: whether it was served, and how it goes on.\<close>

fun served :: "'c option \<Rightarrow> bool \<Rightarrow> bool \<Rightarrow> bool" where
  "served c may_open closed \<longleftrightarrow> c \<noteq> None \<or> may_open \<or> closed"

definition wake :: "nat \<Rightarrow> 'c option \<Rightarrow> bool \<Rightarrow> 'c pool \<Rightarrow> 'c pool" where
  "wake i c closed s =
     (if closed then set_phase i (Failed PoolClosed) s
      else case c of
             Some connection \<Rightarrow> set_phase i (Holding connection) s
           | None \<Rightarrow> set_phase i (Opening ForAcquire) s)"

definition wait_timeout :: "nat \<Rightarrow> 'c pool \<Rightarrow> 'c pool" where
  "wait_timeout i s = set_phase i (Failed PoolTimeout) (s\<lparr>pool_waiters := remove1 i (pool_waiters s)\<rparr>)"

section \<open>Steps\<close>

datatype 'c event =
    NewAgent
  | CallAcquire nat
  | CallWarmUp nat
  | AcquireLock nat
  | WarmUpLock nat
  | CheckedOut nat int "bool option"
  | FactoryOk nat 'c int
  | FactoryFail nat
  | Woken nat
  | TimedOut nat
  | Release nat int
  | Discard nat
  | GiveBackLock nat
  | DroppedLock nat
  | Close

fun event_agent :: "'c event \<Rightarrow> nat option" where
  "event_agent NewAgent = None"
| "event_agent Close = None"
| "event_agent (CallAcquire i) = Some i"
| "event_agent (CallWarmUp i) = Some i"
| "event_agent (AcquireLock i) = Some i"
| "event_agent (WarmUpLock i) = Some i"
| "event_agent (CheckedOut i now a) = Some i"
| "event_agent (FactoryOk i c now) = Some i"
| "event_agent (FactoryFail i) = Some i"
| "event_agent (Woken i) = Some i"
| "event_agent (TimedOut i) = Some i"
| "event_agent (Release i now) = Some i"
| "event_agent (Discard i) = Some i"
| "event_agent (GiveBackLock i) = Some i"
| "event_agent (DroppedLock i) = Some i"

text \<open>What an agent in a phase does at an event, None when the event is not its next one.\<close>

definition agent_step ::
  "pool_options \<Rightarrow> nat \<Rightarrow> 'c phase \<Rightarrow> 'c event \<Rightarrow> 'c pool \<Rightarrow> 'c pool option" where
  "agent_step opts i p e s =
     (case p of
        Rest \<Rightarrow> (case e of CallAcquire j \<Rightarrow> Some (set_phase i Acquiring s)
                         | CallWarmUp j \<Rightarrow> Some (set_phase i WarmingUp s)
                         | _ \<Rightarrow> None)
      | Failed err \<Rightarrow> (case e of CallAcquire j \<Rightarrow> Some (set_phase i Acquiring s) | _ \<Rightarrow> None)
      | Acquiring \<Rightarrow> (case e of AcquireLock j \<Rightarrow> Some (acquire_section opts i s) | _ \<Rightarrow> None)
      | WarmingUp \<Rightarrow> (case e of WarmUpLock j \<Rightarrow> Some (warmUp_section opts i s) | _ \<Rightarrow> None)
      | CheckingOut c since above_min \<Rightarrow>
          (case e of
             CheckedOut j now answer \<Rightarrow>
               Some (set_phase i (case checkOut opts now answer c since above_min of
                                    Some usable \<Rightarrow> Holding usable | None \<Rightarrow> Dropping Retry) s)
           | _ \<Rightarrow> None)
      | Opening goal \<Rightarrow>
          (case e of
             FactoryOk j c now \<Rightarrow>
               Some (set_phase i (case goal of ForAcquire \<Rightarrow> Holding c
                                             | ForWarmUp \<Rightarrow> Giving c now WarmAgain) s)
           | FactoryFail j \<Rightarrow> Some (set_phase i (Dropping Rethrow) s)
           | _ \<Rightarrow> None)
      | Waiting c m d \<Rightarrow>
          (case e of
             Woken j \<Rightarrow> if served c m d then Some (wake i c d s) else None
           | TimedOut j \<Rightarrow> if served c m d then None else Some (wait_timeout i s)
           | _ \<Rightarrow> None)
      | Holding c \<Rightarrow> (case e of Release j now \<Rightarrow> Some (set_phase i (Giving c now Released) s)
                             | Discard j \<Rightarrow> Some (set_phase i (Dropping Finish) s)
                             | _ \<Rightarrow> None)
      | Giving c now k \<Rightarrow> (case e of GiveBackLock j \<Rightarrow> Some (giveBack i c now k s) | _ \<Rightarrow> None)
      | Dropping k \<Rightarrow> (case e of DroppedLock j \<Rightarrow> Some (dropped i k s) | _ \<Rightarrow> None))"

definition pool_next :: "pool_options \<Rightarrow> 'c pool \<Rightarrow> 'c event \<Rightarrow> 'c pool option" where
  "pool_next opts s e =
     (case event_agent e of
        Some i \<Rightarrow> if i < length (agents s) then agent_step opts i (agents s ! i) e s else None
      | None \<Rightarrow> (case e of NewAgent \<Rightarrow> Some (s\<lparr>agents := agents s @ [Rest]\<rparr>)
                        | _ \<Rightarrow> Some (pool_close s)))"

section \<open>The invariant\<close>

text \<open>Slots counted in \<open>pool_open\<close>, and the connections that exist.\<close>

fun phase_slots :: "'c phase \<Rightarrow> nat" where
  "phase_slots (CheckingOut c t m) = 1"
| "phase_slots (Opening p) = 1"
| "phase_slots (Waiting c m d) = (if c \<noteq> None \<or> m then 1 else 0)"
| "phase_slots (Holding c) = 1"
| "phase_slots (Giving c t k) = 1"
| "phase_slots (Dropping k) = 1"
| "phase_slots p = 0"

fun phase_conn :: "'c phase \<Rightarrow> 'c option" where
  "phase_conn (CheckingOut c t m) = Some c"
| "phase_conn (Waiting c m d) = c"
| "phase_conn (Holding c) = Some c"
| "phase_conn (Giving c t k) = Some c"
| "phase_conn p = None"

fun unserved :: "'c phase \<Rightarrow> bool" where
  "unserved (Waiting c m d) = (\<not> served c m d)"
| "unserved p = False"

text \<open>A waiter was given at most one of: a connection, a slot, the close notice.\<close>

fun waiter_ok :: "'c phase \<Rightarrow> bool" where
  "waiter_ok (Waiting c m d) = (\<not> (c \<noteq> None \<and> m) \<and> \<not> (c \<noteq> None \<and> d) \<and> \<not> (m \<and> d))"
| "waiter_ok p = True"

definition holds :: "'c \<Rightarrow> 'c phase \<Rightarrow> nat" where
  "holds c p = (if phase_conn p = Some c then 1 else 0)"

definition slots_in_use :: "'c pool \<Rightarrow> nat" where
  "slots_in_use s = sum_list (map phase_slots (agents s))"

text \<open>How often a connection occurs, idle or with an agent.\<close>

definition owners :: "'c \<Rightarrow> 'c pool \<Rightarrow> nat" where
  "owners c s = count_list (map fst (idle_conns s)) c + sum_list (map (holds c) (agents s))"

definition waiters_match :: "'c pool \<Rightarrow> bool" where
  "waiters_match s \<longleftrightarrow> distinct (pool_waiters s)
     \<and> (\<forall>i. i \<in> set (pool_waiters s) \<longleftrightarrow> i < length (agents s) \<and> unserved (agents s ! i))"

definition pool_inv :: "pool_options \<Rightarrow> 'c pool \<Rightarrow> bool" where
  "pool_inv opts s \<longleftrightarrow>
     pool_open s = length (idle_conns s) + slots_in_use s
   \<and> pool_open s \<le> max_size opts
   \<and> waiters_match s
   \<and> (\<forall>p \<in> set (agents s). waiter_ok p)
   \<and> (pool_closed s \<longrightarrow> idle_conns s = [] \<and> pool_waiters s = [])
   \<and> (pool_waiters s \<noteq> [] \<longrightarrow> idle_conns s = [] \<and> pool_open s = max_size opts)
   \<and> (\<forall>c. owners c s \<le> 1)"

text \<open>The factory opens a connection that does not exist yet.\<close>

definition pool_step :: "pool_options \<Rightarrow> 'c pool \<Rightarrow> 'c event \<Rightarrow> 'c pool \<Rightarrow> bool" where
  "pool_step opts s e t \<longleftrightarrow> pool_next opts s e = Some t
     \<and> (case e of FactoryOk i c now \<Rightarrow> owners c s = 0 | _ \<Rightarrow> True)"

definition pool_starts :: "'c pool \<Rightarrow> bool" where
  "pool_starts s \<longleftrightarrow> s = ConnectionPool_create"

lemma set_phase_simps [simp]:
  "agents (set_phase i p s) = (agents s)[i := p]"
  "pool_open (set_phase i p s) = pool_open s"
  "idle_conns (set_phase i p s) = idle_conns s"
  "pool_waiters (set_phase i p s) = pool_waiters s"
  "pool_closed (set_phase i p s) = pool_closed s"
  by (simp_all add: set_phase_def)

lemma slots_in_use_set_phase:
  "i < length (agents s) \<Longrightarrow>
     slots_in_use (set_phase i p s) + phase_slots (agents s ! i) = slots_in_use s + phase_slots p"
  unfolding slots_in_use_def set_phase_def by (simp add: sum_list_map_update)

lemma owners_set_phase:
  "i < length (agents s) \<Longrightarrow>
     owners c (set_phase i p s) + holds c (agents s ! i) = owners c s + holds c p"
  unfolding owners_def set_phase_def
  using sum_list_map_update [of i "agents s" "holds c" p] by simp

lemma slots_in_use_frame [simp]:
  "slots_in_use (s\<lparr>pool_open := n\<rparr>) = slots_in_use s"
  "slots_in_use (s\<lparr>idle_conns := xs\<rparr>) = slots_in_use s"
  "slots_in_use (s\<lparr>pool_waiters := ws\<rparr>) = slots_in_use s"
  by (simp_all add: slots_in_use_def)

lemma owners_frame [simp]:
  "owners c (s\<lparr>pool_open := n\<rparr>) = owners c s"
  "owners c (s\<lparr>pool_waiters := ws\<rparr>) = owners c s"
  by (simp_all add: owners_def)

lemma owners_idle:
  "owners c (s\<lparr>idle_conns := xs\<rparr>) + count_list (map fst (idle_conns s)) c
     = owners c s + count_list (map fst xs) c"
  by (simp add: owners_def)

lemma waiters_match_frame [simp]:
  "waiters_match (s\<lparr>pool_open := n\<rparr>) = waiters_match s"
  "waiters_match (s\<lparr>idle_conns := xs\<rparr>) = waiters_match s"
  by (simp_all add: waiters_match_def)

text \<open>
  The queue follows the phases: an agent's change of phase keeps them matched when the queue
  gains or loses it accordingly.
\<close>

lemma waiters_match_update:
  assumes "waiters_match s" and "i < length (agents s)" and "distinct ws"
    and "\<forall>j. j \<noteq> i \<longrightarrow> (j \<in> set ws \<longleftrightarrow> j \<in> set (pool_waiters s))" and "i \<in> set ws \<longleftrightarrow> unserved p"
  shows "waiters_match (set_phase i p (s\<lparr>pool_waiters := ws\<rparr>))"
proof -
  have "j \<in> set ws \<longleftrightarrow> j < length (agents s) \<and> unserved ((agents s)[i := p] ! j)" for j
    using assms by (cases "j = i") (simp_all add: waiters_match_def)
  with assms(3) show ?thesis by (simp add: waiters_match_def)
qed

lemma waiters_match_set_phase:
  assumes "waiters_match s" and "i < length (agents s)" and "\<not> unserved (agents s ! i)" and "\<not> unserved p"
  shows "waiters_match (set_phase i p s)"
proof -
  have "waiters_match (set_phase i p (s\<lparr>pool_waiters := pool_waiters s\<rparr>))"
    using assms by (intro waiters_match_update) (simp_all add: waiters_match_def)
  then show ?thesis by simp
qed

lemma waiters_match_enqueue:
  assumes "waiters_match s" and "i < length (agents s)" and "\<not> unserved (agents s ! i)" and "unserved p"
  shows "waiters_match (set_phase i p (s\<lparr>pool_waiters := pool_waiters s @ [i]\<rparr>))"
  using assms by (intro waiters_match_update) (simp_all add: waiters_match_def)

lemma waiters_match_dequeue:
  assumes "waiters_match s" and "pool_waiters s = w # ws" and "\<not> unserved p"
  shows "waiters_match (set_phase w p (s\<lparr>pool_waiters := ws\<rparr>))"
proof -
  have "w < length (agents s)" "w \<notin> set ws" "distinct ws"
    using assms(1) unfolding waiters_match_def assms(2) by (metis list.set_intros(1), simp_all)
  with assms show ?thesis by (intro waiters_match_update) simp_all
qed

lemma waiters_match_remove:
  assumes "waiters_match s" and "i < length (agents s)" and "\<not> unserved p"
  shows "waiters_match (set_phase i p (s\<lparr>pool_waiters := remove1 i (pool_waiters s)\<rparr>))"
proof -
  have "distinct (pool_waiters s)" using assms(1) by (simp add: waiters_match_def)
  with assms show ?thesis by (intro waiters_match_update) (simp_all add: set_remove1_eq)
qed

lemma waiter_head:
  assumes "waiters_match s" and "pool_waiters s = w # ws"
  shows "w < length (agents s)" and "unserved (agents s ! w)"
  using assms unfolding waiters_match_def by (metis list.set_intros(1))+

lemma unserved_Waiting: "unserved p \<longleftrightarrow> p = Waiting None False False"
  by (cases p) auto

lemma waiter_ok_set_phase:
  "\<forall>p \<in> set (agents s). waiter_ok p \<Longrightarrow> waiter_ok p
     \<Longrightarrow> \<forall>p \<in> set (agents (set_phase i p s)). waiter_ok p"
  using set_update_subset_insert [of "agents s" i p] by auto

section \<open>Every step keeps the invariant\<close>

lemma pool_invD:
  assumes "pool_inv opts s"
  shows "pool_open s = length (idle_conns s) + slots_in_use s" and "pool_open s \<le> max_size opts"
    and "waiters_match s" and "\<forall>p \<in> set (agents s). waiter_ok p"
    and "pool_closed s \<Longrightarrow> idle_conns s = []" and "pool_closed s \<Longrightarrow> pool_waiters s = []"
    and "pool_waiters s \<noteq> [] \<Longrightarrow> idle_conns s = []"
    and "pool_waiters s \<noteq> [] \<Longrightarrow> pool_open s = max_size opts"
    and "owners c s \<le> 1"
  using assms by (auto simp: pool_inv_def)

lemma slots_le:
  "pool_inv opts s \<Longrightarrow> i < length (agents s) \<Longrightarrow>
     phase_slots (agents s ! i) + length (idle_conns s) \<le> pool_open s"
  using sum_list_map_ge [of i "agents s" phase_slots] pool_invD(1) [of opts s]
  by (simp add: slots_in_use_def)

lemma pool_inv_phase:
  assumes "pool_inv opts s" and "i < length (agents s)" and "\<not> unserved (agents s ! i)" and "\<not> unserved p"
    and "phase_slots p = phase_slots (agents s ! i)" and "waiter_ok p"
    and "\<forall>c. phase_conn p = Some c \<longrightarrow> phase_conn (agents s ! i) = Some c \<or> owners c s = 0"
  shows "pool_inv opts (set_phase i p s)"
proof -
  note inv = pool_invD [OF assms(1)]
  have "owners c (set_phase i p s) \<le> 1" for c
    using owners_set_phase [OF assms(2), of c p] inv(9) [of c] assms(7)
    by (fastforce simp: holds_def split: if_splits)
  moreover have "slots_in_use (set_phase i p s) = slots_in_use s"
    using slots_in_use_set_phase [OF assms(2), of p] assms(5) by simp
  ultimately show ?thesis
    using inv waiters_match_set_phase [OF inv(3) assms(2-4)] waiter_ok_set_phase [OF inv(4) assms(6)]
    unfolding pool_inv_def by simp
qed

lemma pool_inv_reserve:
  assumes "pool_inv opts s" and "i < length (agents s)" and "\<not> unserved (agents s ! i)"
    and "phase_slots (agents s ! i) = 0" and "pool_waiters s = []" and "pool_open s < max_size opts"
  shows "pool_inv opts (set_phase i (Opening k) (s\<lparr>pool_open := Suc (pool_open s)\<rparr>))"
proof -
  note inv = pool_invD [OF assms(1)]
  let ?t = "s\<lparr>pool_open := Suc (pool_open s)\<rparr>"
  have "owners c (set_phase i (Opening k) ?t) \<le> 1" for c
    using owners_set_phase [of i ?t c "Opening k"] assms(2) inv(9) [of c] by (simp add: holds_def)
  moreover have "slots_in_use (set_phase i (Opening k) ?t) = slots_in_use s + 1"
    using slots_in_use_set_phase [of i ?t "Opening k"] assms(2,4) by simp
  moreover have "waiters_match (set_phase i (Opening k) ?t)"
    using inv(3) assms(2,3) by (intro waiters_match_set_phase) simp_all
  moreover have "\<forall>p \<in> set (agents (set_phase i (Opening k) ?t)). waiter_ok p"
    using inv(4) by (intro waiter_ok_set_phase) simp_all
  ultimately show ?thesis using inv assms(5,6) unfolding pool_inv_def by simp
qed

lemma pool_inv_acquire:
  assumes "pool_inv opts s" and "i < length (agents s)" and "agents s ! i = Acquiring"
  shows "pool_inv opts (acquire_section opts i s)"
proof -
  note inv = pool_invD [OF assms(1)]
  consider (closed) "pool_closed s" | (idle) "\<not> pool_closed s" "idle_conns s \<noteq> []"
    | (room) "\<not> pool_closed s" "idle_conns s = []" "pool_open s < max_size opts"
    | (wait) "\<not> pool_closed s" "idle_conns s = []" "pool_open s = max_size opts"
    using inv(2) by fastforce
  then show ?thesis
  proof cases
    case closed
    with assms show ?thesis
      by (auto simp: acquire_section_def intro: pool_inv_phase)
  next
    case idle
    obtain xs c t where snoc: "idle_conns s = xs @ [(c, t)]"
      using idle(2) by (metis append_butlast_last_id surj_pair)
    let ?s = "s\<lparr>idle_conns := xs\<rparr>" and ?p = "CheckingOut c t (pool_open s > min_size opts)"
    have waiters: "pool_waiters s = []" using inv(7) idle(2) by blast
    have "owners d (set_phase i ?p ?s) \<le> 1" for d
      using owners_set_phase [of i ?s d ?p] owners_idle [of d xs s] assms(2,3) inv(9) [of d] snoc
      by (auto simp: holds_def split: if_splits)
    moreover have "slots_in_use (set_phase i ?p ?s) = slots_in_use s + 1"
      using slots_in_use_set_phase [of i ?s ?p] assms(2,3) by simp
    moreover have "waiters_match (set_phase i ?p ?s)"
      using inv(3) assms(2,3) by (intro waiters_match_set_phase) simp_all
    moreover have "\<forall>q \<in> set (agents (set_phase i ?p ?s)). waiter_ok q"
      using inv(4) by (intro waiter_ok_set_phase) simp_all
    ultimately have "pool_inv opts (set_phase i ?p ?s)"
      using inv(1,2) idle waiters snoc unfolding pool_inv_def by simp
    with idle snoc show ?thesis by (simp add: acquire_section_def)
  next
    case room
    moreover from room inv(8) have "pool_waiters s = []" by (metis less_irrefl)
    ultimately show ?thesis using assms by (simp add: acquire_section_def pool_inv_reserve)
  next
    case wait
    let ?s = "s\<lparr>pool_waiters := pool_waiters s @ [i]\<rparr>" and ?p = "Waiting None False False"
    have "owners d (set_phase i ?p ?s) \<le> 1" for d
      using owners_set_phase [of i ?s d ?p] assms(2) inv(9) [of d] by (simp add: holds_def)
    moreover have "slots_in_use (set_phase i ?p ?s) = slots_in_use s"
      using slots_in_use_set_phase [of i ?s ?p] assms(2,3) by simp
    moreover have "waiters_match (set_phase i ?p ?s)"
      using inv(3) assms(2,3) by (intro waiters_match_enqueue) simp_all
    moreover have "\<forall>q \<in> set (agents (set_phase i ?p ?s)). waiter_ok q"
      using inv(4) by (intro waiter_ok_set_phase) simp_all
    ultimately show ?thesis using inv(1,2) wait unfolding pool_inv_def by (simp add: acquire_section_def)
  qed
qed

text \<open>Handing something to the first waiter: the slot or connection moves from one agent to the other.\<close>

lemma pool_inv_handover:
  assumes "pool_inv opts s" and "i < length (agents s)" and "\<not> unserved (agents s ! i)"
    and "pool_waiters s = w # ws" and "phase_slots (agents s ! i) = 1" and "phase_slots p = 0"
    and "phase_slots q = 1" and "phase_conn p = None" and "phase_conn q = phase_conn (agents s ! i)"
    and "waiter_ok p" and "waiter_ok q" and "\<not> unserved p" and "\<not> unserved q"
  shows "pool_inv opts (set_phase i p (set_phase w q (s\<lparr>pool_waiters := ws\<rparr>)))"
proof -
  note inv = pool_invD [OF assms(1)]
  let ?s = "s\<lparr>pool_waiters := ws\<rparr>"
  let ?t = "set_phase w q ?s"
  note w = waiter_head [OF inv(3) assms(4)]
  have wi: "w \<noteq> i" using w(2) assms(3) by auto
  have wp: "agents s ! w = Waiting None False False" using w(2) by (simp add: unserved_Waiting)
  have "owners d (set_phase i p ?t) \<le> 1" for d
    using owners_set_phase [of w ?s d q] owners_set_phase [of i ?t d p] w(1) wp wi assms(2,8,9) inv(9) [of d]
    by (simp add: holds_def)
  moreover have "slots_in_use (set_phase i p ?t) = slots_in_use s"
    using slots_in_use_set_phase [of w ?s q] slots_in_use_set_phase [of i ?t p] w(1) wp wi assms(2,5,6,7)
    by simp
  moreover have "waiters_match (set_phase i p ?t)"
    using waiters_match_dequeue [OF inv(3) assms(4,13)] wi assms(2,3,12)
    by (intro waiters_match_set_phase [of ?t i p]) simp_all
  moreover have "\<forall>r \<in> set (agents (set_phase i p ?t)). waiter_ok r"
    using inv(4) assms(10,11) by (intro waiter_ok_set_phase) simp_all
  moreover have "\<not> pool_closed s" using inv(6) assms(4) by auto
  ultimately show ?thesis using inv assms(4) unfolding pool_inv_def by simp
qed

text \<open>Giving a slot up, with or without the connection staying idle.\<close>

lemma pool_inv_free:
  assumes "pool_inv opts s" and "i < length (agents s)" and "\<not> unserved (agents s ! i)"
    and "pool_waiters s = []" and "phase_slots (agents s ! i) = 1" and "phase_slots p = 0"
    and "phase_conn p = None" and "waiter_ok p" and "\<not> unserved p"
  shows "pool_inv opts (set_phase i p (s\<lparr>pool_open := pool_open s - Suc 0\<rparr>))"
    and "\<not> pool_closed s \<Longrightarrow> phase_conn (agents s ! i) = Some c
      \<Longrightarrow> pool_inv opts (set_phase i p (s\<lparr>idle_conns := idle_conns s @ [(c, t)]\<rparr>))"
proof -
  note inv = pool_invD [OF assms(1)]
  have slots: "slots_in_use s = slots_in_use (set_phase i p s) + 1"
    using slots_in_use_set_phase [OF assms(2), of p] assms(5,6) by simp
  have ok: "\<forall>r \<in> set (agents (set_phase i p s)). waiter_ok r"
    by (rule waiter_ok_set_phase [OF inv(4) assms(8)])
  have match: "waiters_match (set_phase i p s)"
    by (rule waiters_match_set_phase [OF inv(3) assms(2,3,9)])
  have own: "owners d (set_phase i p s) + holds d (agents s ! i) \<le> 1" for d
    using owners_set_phase [OF assms(2), of d p] inv(9) [of d] assms(7) by (simp add: holds_def)
  have comm: "set_phase i p (s\<lparr>pool_open := pool_open s - Suc 0\<rparr>) = (set_phase i p s)\<lparr>pool_open := pool_open s - Suc 0\<rparr>"
    "set_phase i p (s\<lparr>idle_conns := idle_conns s @ [(c, t)]\<rparr>)
      = (set_phase i p s)\<lparr>idle_conns := idle_conns s @ [(c, t)]\<rparr>"
    by (simp_all add: set_phase_def)
  have own1: "owners d (set_phase i p s) \<le> 1" for d using own [of d] by simp
  show "pool_inv opts (set_phase i p (s\<lparr>pool_open := pool_open s - Suc 0\<rparr>))"
    unfolding comm using inv slots ok match own1 assms(4) unfolding pool_inv_def by simp
  assume c: "\<not> pool_closed s" "phase_conn (agents s ! i) = Some c"
  have "owners d ((set_phase i p s)\<lparr>idle_conns := idle_conns s @ [(c, t)]\<rparr>) \<le> 1" for d
    using own [of d] owners_idle [of d "idle_conns s @ [(c, t)]" "set_phase i p s"] c(2)
    by (auto simp: holds_def split: if_splits)
  then show "pool_inv opts (set_phase i p (s\<lparr>idle_conns := idle_conns s @ [(c, t)]\<rparr>))"
    unfolding comm using inv slots ok match assms(4) c(1) unfolding pool_inv_def by simp
qed

lemma after_phases [simp]:
  "phase_slots (after_giving k) = 0" "phase_conn (after_giving k) = None"
  "waiter_ok (after_giving k)" "\<not> unserved (after_giving k)"
  "phase_slots (after_dropping d) = 0" "phase_conn (after_dropping d) = None"
  "waiter_ok (after_dropping d)" "\<not> unserved (after_dropping d)"
  by (cases k; simp)+ (cases d; simp)+

lemma pool_inv_giveBack:
  assumes "pool_inv opts s" and "i < length (agents s)" and "agents s ! i = Giving c now k"
  shows "pool_inv opts (giveBack i c now k s)"
proof (cases "pool_closed s")
  case True
  with assms pool_invD(6) [OF assms(1)] show ?thesis
    by (simp add: giveBack_def pool_inv_free(1))
next
  case False
  then show ?thesis
  proof (cases "pool_waiters s")
    case Nil
    with False assms show ?thesis by (simp add: giveBack_def pool_inv_free(2))
  next
    case (Cons w ws)
    with False assms show ?thesis by (simp add: giveBack_def pool_inv_handover)
  qed
qed

lemma pool_inv_dropped:
  assumes "pool_inv opts s" and "i < length (agents s)" and "agents s ! i = Dropping k"
  shows "pool_inv opts (dropped i k s)"
proof (cases "pool_waiters s")
  case Nil
  with assms show ?thesis by (simp add: dropped_def pool_inv_free(1))
next
  case (Cons w ws)
  then have "\<not> pool_closed s" using pool_invD(6) [OF assms(1)] by auto
  with Cons assms show ?thesis by (simp add: dropped_def pool_inv_handover)
qed

lemma close_waiters_length [simp]: "length (close_waiters ws ps) = length ps"
  unfolding close_waiters_def by (induction ws arbitrary: ps) auto

lemma close_waiters_nth:
  "j < length ps \<Longrightarrow> close_waiters ws ps ! j = (if j \<in> set ws then close_phase (ps ! j) else ps ! j)"
proof (induction ws arbitrary: ps)
  case (Cons w ws)
  have "close_phase (close_phase p) = close_phase p" for p :: "'a phase" by (cases p) auto
  moreover have "close_waiters (w # ws) ps = close_waiters ws (ps[w := close_phase (ps ! w)])"
    by (simp add: close_waiters_def)
  ultimately show ?case using Cons by (cases "w = j") auto
qed (simp add: close_waiters_def)

lemma close_phase_simps [simp]:
  "phase_slots (close_phase p) = phase_slots p" "phase_conn (close_phase p) = phase_conn p"
  "\<not> unserved (close_phase p)" "unserved p \<Longrightarrow> waiter_ok (close_phase p)"
  by (cases p; simp)+

lemma map_close_waiters:
  assumes "\<And>p. f (close_phase p) = f p"
  shows "map f (close_waiters ws ps) = map f ps"
  using assms by (intro nth_equalityI) (simp_all add: close_waiters_nth)

lemma pool_inv_close:
  assumes "pool_inv opts s"
  shows "pool_inv opts (pool_close s)"
proof (cases "pool_closed s")
  case False
  note inv = pool_invD [OF assms]
  let ?t = "pool_close s"
  have t: "agents ?t = close_waiters (pool_waiters s) (agents s)" "pool_waiters ?t = []" "idle_conns ?t = []"
    "pool_open ?t = pool_open s - length (idle_conns s)"
    using False by (simp_all add: pool_close_def)
  have "slots_in_use ?t = slots_in_use s"
    by (simp add: slots_in_use_def t map_close_waiters)
  moreover have "owners c ?t \<le> 1" for c
    using inv(9) [of c] by (simp add: owners_def t map_close_waiters holds_def)
  moreover have "waiters_match ?t"
    using inv(3) unfolding waiters_match_def by (auto simp: t close_waiters_nth)
  moreover have "waiter_ok (agents ?t ! j)" if "j < length (agents ?t)" for j
    using that inv(3,4) unfolding waiters_match_def by (auto simp: t close_waiters_nth)
  then have "\<forall>p \<in> set (agents ?t). waiter_ok p" by (metis in_set_conv_nth)
  ultimately show ?thesis using inv(1,2) unfolding pool_inv_def by (simp add: t)
qed (use assms in \<open>simp add: pool_close_def\<close>)

lemma pool_inv_timeout:
  assumes "pool_inv opts s" and "i < length (agents s)" and "unserved (agents s ! i)"
  shows "pool_inv opts (wait_timeout i s)"
proof -
  note inv = pool_invD [OF assms(1)]
  let ?s = "s\<lparr>pool_waiters := remove1 i (pool_waiters s)\<rparr>" and ?p = "Failed PoolTimeout"
  have p: "agents s ! i = Waiting None False False" using assms(3) by (simp add: unserved_Waiting)
  have "owners d (set_phase i ?p ?s) \<le> 1" for d
    using owners_set_phase [of i ?s d ?p] assms(2) p inv(9) [of d] by (simp add: holds_def)
  moreover have "slots_in_use (set_phase i ?p ?s) = slots_in_use s"
    using slots_in_use_set_phase [of i ?s ?p] assms(2) p by simp
  moreover have "waiters_match (set_phase i ?p ?s)"
    using inv(3) assms(2) by (intro waiters_match_remove) simp_all
  moreover have "\<forall>q \<in> set (agents (set_phase i ?p ?s)). waiter_ok q"
    using inv(4) by (intro waiter_ok_set_phase) simp_all
  moreover have "remove1 i (pool_waiters s) \<noteq> [] \<Longrightarrow> pool_waiters s \<noteq> []" by auto
  ultimately show ?thesis using inv unfolding pool_inv_def wait_timeout_def by auto
qed

lemma pool_inv_warmUp:
  assumes "pool_inv opts s" and "i < length (agents s)" and "agents s ! i = WarmingUp"
    and "min_size opts \<le> max_size opts"
  shows "pool_inv opts (warmUp_section opts i s)"
proof (cases "pool_closed s \<or> pool_open s \<ge> min_size opts")
  case True
  with assms show ?thesis by (auto simp: warmUp_section_def intro: pool_inv_phase)
next
  case False
  with assms(4) have "pool_open s < max_size opts" by simp
  moreover from this pool_invD(8) [OF assms(1)] have "pool_waiters s = []" by (metis less_irrefl)
  ultimately show ?thesis
    using False assms(1-3) pool_inv_reserve [OF assms(1,2), of ForWarmUp] by (simp add: warmUp_section_def)
qed

lemma checkOut_same: "checkOut opts now a c t m = Some d \<Longrightarrow> d = c"
  by (auto simp: checkOut_def Let_def split: if_splits)

lemma pool_inv_agent_step:
  assumes "pool_inv opts s" and "i < length (agents s)" and "min_size opts \<le> max_size opts"
    and "agent_step opts i (agents s ! i) e s = Some t"
    and "case e of FactoryOk j c now \<Rightarrow> owners c s = 0 | _ \<Rightarrow> True"
  shows "pool_inv opts t"
proof (cases "agents s ! i")
  case (CheckingOut c t' m)
  with assms show ?thesis
    by (auto simp: agent_step_def split: event.splits option.splits dest: checkOut_same
        intro!: pool_inv_phase)
next
  case (Opening g)
  with assms show ?thesis
    by (auto simp: agent_step_def split: event.splits open_for.splits intro!: pool_inv_phase)
next
  case (Waiting c m d)
  have "waiter_ok (agents s ! i)" using pool_invD(4) [OF assms(1)] assms(2) by auto
  with Waiting assms pool_inv_timeout [OF assms(1,2)] show ?thesis
    by (auto simp: agent_step_def wake_def split: event.splits option.splits if_splits
        intro!: pool_inv_phase)
qed (use assms in \<open>auto simp: agent_step_def split: event.splits
      intro!: pool_inv_phase pool_inv_acquire pool_inv_warmUp pool_inv_giveBack pool_inv_dropped\<close>)

lemma pool_inv_new_agent: "pool_inv opts s \<Longrightarrow> pool_inv opts (s\<lparr>agents := agents s @ [Rest]\<rparr>)"
  unfolding pool_inv_def waiters_match_def slots_in_use_def owners_def
  by (auto simp: holds_def nth_append less_Suc_eq)

lemma pool_inv_step:
  assumes "min_size opts \<le> max_size opts" and "pool_inv opts s" and "pool_step opts s e t"
  shows "pool_inv opts t"
proof (cases "event_agent e")
  case None
  with assms show ?thesis
    by (cases e) (auto simp: pool_step_def pool_next_def pool_inv_new_agent pool_inv_close)
next
  case (Some i)
  with assms pool_inv_agent_step [OF assms(2) _ assms(1)] show ?thesis
    by (auto simp: pool_step_def pool_next_def split: if_splits)
qed

lemma pool_inv_create: "pool_inv opts ConnectionPool_create"
  by (simp add: pool_inv_def ConnectionPool_create_def slots_in_use_def owners_def waiters_match_def)

interpretation pool_system: invariant_system
  "\<lambda>s. options_valid opts \<and> pool_starts s" "pool_step opts" "\<lambda>s. options_valid opts \<and> pool_inv opts s"
  for opts :: pool_options
  by unfold_locales
    (auto simp: pool_starts_def pool_inv_create options_valid_def intro: pool_inv_step)

text \<open>Every state a pool accepted by the constructor can come to, whatever the threads do.\<close>

definition pool_reachable :: "pool_options \<Rightarrow> 'c pool \<Rightarrow> bool" where
  "pool_reachable opts s \<longleftrightarrow> reachable (\<lambda>s. options_valid opts \<and> pool_starts s) (pool_step opts) s"

lemma pool_reachable_inv: "pool_reachable opts s \<Longrightarrow> options_valid opts \<and> pool_inv opts s"
  unfolding pool_reachable_def by (rule pool_system.reachable_inv)

section \<open>Handles\<close>

text \<open>\<^verbatim>\<open>Pooled\<close>: the shared pointer to the pool (present or not) and the connection.\<close>

record 'c pooled =
  pd_pool :: bool
  pd_connection :: "'c option"

datatype 'c pool_call = CallGiveBack 'c | CallDropped

definition Pooled_empty :: "'c pooled" where
  "Pooled_empty = \<lparr>pd_pool = False, pd_connection = None\<rparr>"

definition Pooled :: "'c \<Rightarrow> 'c pooled" where
  "Pooled connection = \<lparr>pd_pool = True, pd_connection = Some connection\<rparr>"

definition pooled_release :: "'c pooled \<Rightarrow> 'c pooled \<times> 'c pool_call list" where
  "pooled_release h =
     (Pooled_empty,
      case pd_connection h of Some c \<Rightarrow> if pd_pool h then [CallGiveBack c] else [] | None \<Rightarrow> [])"

definition pooled_discard :: "'c pooled \<Rightarrow> 'c pooled \<times> 'c pool_call list" where
  "pooled_discard h =
     (Pooled_empty,
      case pd_connection h of Some c \<Rightarrow> if pd_pool h then [CallDropped] else [] | None \<Rightarrow> [])"

text \<open>The move constructor: the new handle, and the source emptied explicitly.\<close>

definition pooled_move :: "'c pooled \<Rightarrow> 'c pooled \<times> 'c pooled" where
  "pooled_move other =
     (\<lparr>pd_pool = pd_pool other, pd_connection = pd_connection other\<rparr>, Pooled_empty)"

text \<open>Programs over an array of handles; \<open>Assign j i\<close> is \<^verbatim>\<open>h[j] = std::move(h[i])\<close>.\<close>

datatype handle_op = ReleaseHandle nat | DiscardHandle nat | Assign nat nat

definition handle_at :: "'c pooled list \<Rightarrow> nat \<Rightarrow> 'c pooled" where
  "handle_at hs i = (if i < length hs then hs ! i else Pooled_empty)"

fun handle_step :: "handle_op \<Rightarrow> 'c pooled list \<Rightarrow> 'c pooled list \<times> 'c pool_call list" where
  "handle_step (ReleaseHandle i) hs =
     (let (h, calls) = pooled_release (handle_at hs i) in (hs[i := h], calls))"
| "handle_step (DiscardHandle i) hs =
     (let (h, calls) = pooled_discard (handle_at hs i) in (hs[i := h], calls))"
| "handle_step (Assign j i) hs =
     (if j = i then (hs, [])
      else let (h, calls) = pooled_release (handle_at hs j);
               (new, src) = pooled_move (handle_at hs i)
           in (hs[j := new, i := src], calls))"

fun handle_steps :: "handle_op list \<Rightarrow> 'c pooled list \<Rightarrow> 'c pooled list \<times> 'c pool_call list" where
  "handle_steps [] hs = (hs, [])"
| "handle_steps (op # ops) hs =
     (let (hs1, calls) = handle_step op hs; (hs2, calls2) = handle_steps ops hs1
      in (hs2, calls @ calls2))"

definition pooled_live :: "'c pooled \<Rightarrow> nat" where
  "pooled_live h = (if pd_pool h \<and> pd_connection h \<noteq> None then 1 else 0)"

lemma pooled_live_simps [simp]:
  "pooled_live Pooled_empty = 0" "pooled_live (Pooled c) = 1"
  by (simp_all add: pooled_live_def Pooled_empty_def Pooled_def)

lemma pooled_calls_length:
  "length (snd (pooled_release h)) = pooled_live h" "fst (pooled_release h) = Pooled_empty"
  "length (snd (pooled_discard h)) = pooled_live h" "fst (pooled_discard h) = Pooled_empty"
  by (auto simp: pooled_release_def pooled_discard_def pooled_live_def split: option.splits)

fun handle_op_ok :: "'c pooled list \<Rightarrow> handle_op \<Rightarrow> bool" where
  "handle_op_ok hs (ReleaseHandle i) = (i < length hs)"
| "handle_op_ok hs (DiscardHandle i) = (i < length hs)"
| "handle_op_ok hs (Assign j i) = (j < length hs \<and> i < length hs)"

lemma handle_step_conserves:
  assumes "handle_op_ok hs op"
  shows "sum_list (map pooled_live (fst (handle_step op hs))) + length (snd (handle_step op hs))
    = sum_list (map pooled_live hs)"
    and "length (fst (handle_step op hs)) = length hs"
proof -
  have upd: "k < length xs \<Longrightarrow> sum_list (map pooled_live (xs[k := h])) + pooled_live (xs ! k)
      = sum_list (map pooled_live xs) + pooled_live h" for k xs h
    by (rule sum_list_map_update)
  show "sum_list (map pooled_live (fst (handle_step op hs))) + length (snd (handle_step op hs))
    = sum_list (map pooled_live hs)"
  proof (cases op)
    case (Assign j i)
    show ?thesis
    proof (cases "j = i")
      case False
      have "pooled_live \<lparr>pd_pool = pd_pool (hs ! i), pd_connection = pd_connection (hs ! i)\<rparr> = pooled_live (hs ! i)"
        by (simp add: pooled_live_def)
      then show ?thesis
        using Assign False assms upd [of j hs "fst (pooled_move (hs ! i))"]
          upd [of i "hs[j := fst (pooled_move (hs ! i))]" Pooled_empty] pooled_calls_length(1) [of "hs ! j"]
        by (simp add: handle_at_def pooled_move_def case_prod_beta Let_def)
    qed (use Assign in simp)
  next
    case (ReleaseHandle i)
    then show ?thesis
      using assms upd [of i hs Pooled_empty] pooled_calls_length(1,2) [of "hs ! i"]
      by (simp add: handle_at_def case_prod_beta Let_def)
  next
    case (DiscardHandle i)
    then show ?thesis
      using assms upd [of i hs Pooled_empty] pooled_calls_length(3,4) [of "hs ! i"]
      by (simp add: handle_at_def case_prod_beta Let_def)
  qed
  show "length (fst (handle_step op hs)) = length hs"
    by (cases op) (simp_all add: case_prod_beta Let_def)
qed

lemma handle_steps_conserve:
  assumes "\<forall>op \<in> set ops. handle_op_ok hs op"
  shows "sum_list (map pooled_live (fst (handle_steps ops hs))) + length (snd (handle_steps ops hs))
    = sum_list (map pooled_live hs)"
  using assms
proof (induction ops arbitrary: hs)
  case (Cons op ops)
  let ?hs = "fst (handle_step op hs)"
  have "handle_op_ok hs op" using Cons.prems by simp
  note step = handle_step_conserves [OF this]
  have "handle_op_ok ?hs o' = handle_op_ok hs o'" for o' by (cases o') (simp_all add: step(2))
  with Cons.prems have "\<forall>o' \<in> set ops. handle_op_ok ?hs o'" by simp
  from Cons.IH [OF this] step(1) show ?case by (simp add: case_prod_beta Let_def)
qed simp

section \<open>Checking an idle connection out\<close>

lemma ms_to_ns_exact:
  assumes "0 \<le> ms" and "ms \<le> 9223372036854"
  shows "ms_to_ns ms = ms * 1000000"
  unfolding ms_to_ns_def sint_sbintrunc' by (rule signed_take_bit_int_eq_self) (use assms in simp_all)

lemma ms_to_ns_never: "ms_to_ns never = - 1000000"
  by (simp add: ms_to_ns_def never_def)

section \<open>Order of the waiters\<close>

definition slot_returned :: "'c event \<Rightarrow> bool" where
  "slot_returned e = (case e of GiveBackLock i \<Rightarrow> True | DroppedLock i \<Rightarrow> True | _ \<Rightarrow> False)"

text \<open>What one step does to the queue.\<close>

lemma step_waiters:
  assumes "pool_inv opts s" and "pool_step opts s e t"
  shows "slot_returned e \<and> pool_waiters t = tl (pool_waiters s)
    \<or> \<not> slot_returned e \<and> (pool_waiters t = pool_waiters s \<or> pool_waiters t = []
        \<or> (\<exists>j. pool_waiters t = pool_waiters s @ [j]) \<or> (\<exists>j. pool_waiters t = remove1 j (pool_waiters s)))"
proof (cases "event_agent e")
  case None
  with assms(2) show ?thesis
    by (cases e; cases "pool_closed s")
       (auto simp: pool_step_def pool_next_def pool_close_def slot_returned_def)
next
  case (Some i)
  then have step: "agent_step opts i (agents s ! i) e s = Some t" and len: "i < length (agents s)"
    using assms(2) by (auto simp: pool_step_def pool_next_def split: if_splits)
  show ?thesis
  proof (cases "slot_returned e")
    case True
    with step len pool_invD(6) [OF assms(1)] show ?thesis
      by (cases "agents s ! i"; cases e; cases "pool_waiters s")
         (auto simp: agent_step_def slot_returned_def giveBack_def dropped_def)
  next
    case False
    have sections: "pool_waiters (warmUp_section opts i s) = pool_waiters s"
      "pool_waiters (wake i c d s) = pool_waiters s"
      "pool_waiters (acquire_section opts i s) = pool_waiters s
        \<or> pool_waiters (acquire_section opts i s) = pool_waiters s @ [i]" for c d
      by (auto simp: acquire_section_def warmUp_section_def wake_def case_prod_beta Let_def
          split: option.splits)
    show ?thesis
    proof (cases "agents s ! i")
      case Acquiring
      with step False sections(3) show ?thesis
        by (auto simp: agent_step_def slot_returned_def split: event.splits)
    next
      case (Waiting c m d)
      with step False sections(2) show ?thesis
        by (auto simp: agent_step_def slot_returned_def wait_timeout_def split: event.splits if_splits)
    qed (use step False sections(1) in
        \<open>auto simp: agent_step_def slot_returned_def split: event.splits\<close>)
  qed
qed

lemma subseq_remove1: "subseq (remove1 x xs) xs"
  by (induction xs) auto

lemma remove1_split:
  assumes "i \<noteq> j" and "i \<notin> set xs"
  shows "\<exists>xs' ys'. remove1 j (xs @ i # ys) = xs' @ i # ys' \<and> subseq xs' xs"
  using assms subseq_remove1 [of j xs] by (cases "j \<in> set xs") (auto simp: remove1_append)

section \<open>Pools for closed examples\<close>

definition pool_try :: "pool_options \<Rightarrow> 'c pool \<Rightarrow> 'c event \<Rightarrow> 'c pool option" where
  "pool_try opts s e =
     (if case e of FactoryOk i c now \<Rightarrow> owners c s = 0 | _ \<Rightarrow> True then pool_next opts s e else None)"

lemma pool_try_step: "pool_try opts s e = Some t \<Longrightarrow> pool_step opts s e t"
  unfolding pool_try_def pool_step_def by (metis option.distinct(1))

lemma pool_exec_reachable:
  assumes "options_valid opts" and "exec (pool_try opts) ConnectionPool_create es = Some t"
  shows "pool_reachable opts t"
  unfolding pool_reachable_def
  by (rule exec_reachable [OF assms(2)]) (auto simp: assms(1) pool_starts_def intro: reachable_init pool_try_step)

definition example_options :: pool_options where
  "example_options = \<lparr>min_size = 0, max_size = 1, validate_after_idle = 30000, max_idle = 300000,
                      has_validate = True\<rparr>"

text \<open>One connection lent to agent 0, agents 1 and 2 waiting for it; then agent 0 about to return it.\<close>

definition example_waiting :: "nat pool" where
  "example_waiting =
     \<lparr>idle_conns = [], pool_waiters = [1, 2], pool_open = 1, pool_closed = False,
      agents = [Holding 7, Waiting None False False, Waiting None False False]\<rparr>"

definition example_returning :: "nat pool" where
  "example_returning = example_waiting\<lparr>agents := (agents example_waiting)[0 := Giving 7 5 Released]\<rparr>"

definition example_events :: "nat event list" where
  "example_events =
     [NewAgent, NewAgent, NewAgent, CallAcquire 0, AcquireLock 0, FactoryOk 0 7 0, CallAcquire 1,
      CallAcquire 2, AcquireLock 1, AcquireLock 2]"

lemma example_options_valid: "options_valid example_options"
  by (simp add: options_valid_def example_options_def)

lemma example_waiting_reachable: "pool_reachable example_options example_waiting"
proof (rule pool_exec_reachable [OF example_options_valid])
  show "exec (pool_try example_options) ConnectionPool_create example_events = Some example_waiting"
    by code_simp
qed

lemma example_returning_reachable: "pool_reachable example_options example_returning"
proof (rule pool_exec_reachable [OF example_options_valid])
  show "exec (pool_try example_options) ConnectionPool_create (example_events @ [Release 0 5]) = Some example_returning"
    by code_simp
qed

section \<open>Properties\<close>

text \<open>C3: The pool never has more than \<^verbatim>\<open>max_size\<close> connections: its counter is exactly the
  idle connections plus the slots of the agents using, opening, returning or closing one, and it
  stays within the bound in every state the threads can reach.\<close>

theorem pool_bounded:
  assumes "pool_reachable opts s"
  shows "pool_open s = length (idle_conns s) + slots_in_use s \<and> pool_open s \<le> max_size opts"
  using pool_reachable_inv [OF assms] pool_invD(1,2) by blast

theorem pool_bounded_witness:
  "pool_open example_waiting = length (idle_conns example_waiting) + slots_in_use example_waiting
     \<and> pool_open example_waiting \<le> max_size example_options"
  by (rule pool_bounded [OF example_waiting_reachable])

text \<open>C4: A connection has one owner at a time: an idle connection is with no agent and idle only once,
  and no two agents hold the same one.\<close>

theorem connection_has_one_owner:
  assumes "pool_reachable opts s"
  shows "distinct (map fst (idle_conns s))
    \<and> (\<forall>i < length (agents s). \<forall>c. phase_conn (agents s ! i) = Some c \<longrightarrow>
        c \<notin> fst ` set (idle_conns s) \<and>
        (\<forall>j < length (agents s). phase_conn (agents s ! j) = Some c \<longrightarrow> j = i))"
proof -
  have "pool_inv opts s" using pool_reachable_inv [OF assms] by simp
  note own = pool_invD(9) [OF this]
  have "count_list (map fst (idle_conns s)) c \<le> 1" for c
    using le_trans [OF _ own [of c]] by (simp add: owners_def)
  then have "distinct (map fst (idle_conns s))" by (rule count_list_distinct)
  moreover have "c \<notin> fst ` set (idle_conns s)"
    if "i < length (agents s)" "phase_conn (agents s ! i) = Some c" for i c
  proof -
    have "count_list (map fst (idle_conns s)) c = 0"
      using own [of c] that sum_list_map_ge [of i "agents s" "holds c"] by (simp add: owners_def holds_def)
    then show ?thesis by (simp add: count_list_0_iff)
  qed
  moreover have "j = i"
    if "i < length (agents s)" "phase_conn (agents s ! i) = Some c"
      "j < length (agents s)" "phase_conn (agents s ! j) = Some c" for i c j
    using own [of c] that sum_list_map_two [of i "agents s" j "holds c"]
    by (fastforce simp: owners_def holds_def)
  ultimately show ?thesis by blast
qed

theorem connection_has_one_owner_witness:
  "phase_conn (agents example_waiting ! 0) = Some 7 \<and> 7 \<notin> fst ` set (idle_conns example_waiting)"
proof -
  have "phase_conn (agents example_waiting ! 0) = Some 7" "0 < length (agents example_waiting)"
    by (simp_all add: example_waiting_def)
  with connection_has_one_owner [OF example_waiting_reachable] show ?thesis by blast
qed

text \<open>An agent that uses a slot is not resting: the lender or opener the waiters depend on.\<close>

lemma slot_user:
  assumes "0 < slots_in_use s"
  shows "\<exists>j < length (agents s). phase_slots (agents s ! j) = 1"
proof -
  have "\<exists>p \<in> set (agents s). phase_slots p \<noteq> 0"
  proof (rule ccontr)
    assume "\<not> (\<exists>p \<in> set (agents s). phase_slots p \<noteq> 0)"
    then have "slots_in_use s = 0" by (simp add: slots_in_use_def)
    with assms show False by simp
  qed
  then obtain j where "j < length (agents s)" "phase_slots (agents s ! j) \<noteq> 0"
    by (metis in_set_conv_nth)
  moreover have "phase_slots p \<noteq> 0 \<Longrightarrow> phase_slots p = 1" for p :: "'a phase"
    by (cases p) (auto split: if_splits)
  ultimately show ?thesis by blast
qed

text \<open>No wake-up is lost and nobody overtakes the queue: while an agent waits unserved it is in the
  queue, no connection is idle and no slot is free, so a new \<^verbatim>\<open>acquire\<close> queues too,
  and some other agent has a slot that it still has to return.\<close>

theorem waiting_only_when_exhausted:
  assumes "pool_reachable opts s" and "i < length (agents s)" and "unserved (agents s ! i)"
  shows "i \<in> set (pool_waiters s) \<and> idle_conns s = [] \<and> pool_open s = max_size opts
    \<and> (\<exists>j < length (agents s). phase_slots (agents s ! j) = 1 \<and> j \<noteq> i)"
proof -
  from pool_reachable_inv [OF assms(1)] have valid: "options_valid opts" and inv: "pool_inv opts s" by auto
  note d = pool_invD [OF inv]
  have queued: "i \<in> set (pool_waiters s)" using d(3) assms(2,3) by (simp add: waiters_match_def)
  then have full: "idle_conns s = []" "pool_open s = max_size opts" using d(7,8) by fastforce+
  with d(1) valid have "0 < slots_in_use s" by (simp add: options_valid_def)
  then obtain j where "j < length (agents s)" "phase_slots (agents s ! j) = 1" using slot_user by blast
  moreover have "phase_slots (agents s ! i) = 0" using assms(3) by (simp add: unserved_Waiting)
  ultimately show ?thesis using queued full by (metis zero_neq_one)
qed

theorem waiting_only_when_exhausted_witness:
  "1 \<in> set (pool_waiters example_waiting) \<and> idle_conns example_waiting = []
     \<and> pool_open example_waiting = max_size example_options
     \<and> (\<exists>j < length (agents example_waiting). phase_slots (agents example_waiting ! j) = 1 \<and> j \<noteq> 1)"
  by (rule waiting_only_when_exhausted [OF example_waiting_reachable]) (simp_all add: example_waiting_def)

text \<open>C19: Waiters are served in order: a step never puts anybody before an agent that stays in the queue,
  and every slot that comes back, returned or freed, moves it one place on.\<close>

theorem waiters_fifo:
  assumes "pool_reachable opts s" and "pool_step opts s e t"
    and "pool_waiters s = xs @ i # ys" and "i \<in> set (pool_waiters t)"
  shows "\<exists>xs' ys'. pool_waiters t = xs' @ i # ys' \<and> subseq xs' xs
    \<and> (slot_returned e \<longrightarrow> xs' = tl xs \<and> xs \<noteq> [])"
proof -
  have inv: "pool_inv opts s" using pool_reachable_inv [OF assms(1)] by simp
  then have distinct: "distinct (pool_waiters s)" by (auto simp: pool_inv_def waiters_match_def)
  consider (returned) "slot_returned e" "pool_waiters t = tl (pool_waiters s)"
    | (same) "\<not> slot_returned e" "pool_waiters t = pool_waiters s"
    | (queued) j where "\<not> slot_returned e" "pool_waiters t = pool_waiters s @ [j]"
    | (left) j where "\<not> slot_returned e" "pool_waiters t = remove1 j (pool_waiters s)"
    using step_waiters [OF inv assms(2)] assms(4) by fastforce
  then show ?thesis
  proof cases
    case returned
    with assms(3,4) distinct have "xs \<noteq> []" by auto
    with returned assms(3) have "pool_waiters t = tl xs @ i # ys" by simp
    moreover have "subseq (tl xs) xs" by (cases xs) auto
    ultimately show ?thesis using \<open>xs \<noteq> []\<close> by blast
  next
    case same
    with assms(3) show ?thesis by auto
  next
    case queued
    with assms(3) show ?thesis by auto
  next
    case left
    with distinct assms(4) have "i \<noteq> j" by auto
    moreover have "i \<notin> set xs" using distinct assms(3) by simp
    ultimately obtain xs' ys' where "remove1 j (xs @ i # ys) = xs' @ i # ys'" "subseq xs' xs"
      using remove1_split by metis
    with left assms(3) show ?thesis by auto
  qed
qed

theorem waiters_fifo_witness:
  "\<exists>t. pool_next example_options example_returning (GiveBackLock 0) = Some t
     \<and> (\<exists>xs' ys'. pool_waiters t = xs' @ 2 # ys' \<and> subseq xs' [1]
        \<and> (slot_returned (GiveBackLock 0 :: nat event) \<longrightarrow> xs' = tl [1] \<and> [1] \<noteq> ([] :: nat list)))"
proof -
  let ?t = "example_returning\<lparr>pool_waiters := [2],
      agents := [Rest, Waiting (Some 7) False False, Waiting None False False]\<rparr>"
  have step: "pool_next example_options example_returning (GiveBackLock 0) = Some ?t" by code_simp
  then have "pool_step example_options example_returning (GiveBackLock 0) ?t" by (simp add: pool_step_def)
  from waiters_fifo [OF example_returning_reachable this, of "[1]" 2 "[]"] step show ?thesis
    by (simp add: example_returning_def example_waiting_def)
qed

text \<open>A returned connection goes directly to the first waiter, which gets exactly that connection when
  it wakes up, or a permission to open one when the connection was closed instead; nobody else is
  served.\<close>

theorem returned_slot_served:
  assumes "pool_reachable opts s" and "pool_waiters s = w # ws" and "i < length (agents s)"
    and "agents s ! i = Giving c now k \<or> agents s ! i = Dropping d"
  shows "\<exists>t e. pool_next opts s e = Some t \<and> slot_returned e \<and> pool_waiters t = ws
    \<and> pool_open t = pool_open s \<and> (\<forall>j. j \<noteq> i \<and> j \<noteq> w \<longrightarrow> agents t ! j = agents s ! j)
    \<and> (\<exists>u. pool_next opts t (Woken w) = Some u
        \<and> agents u ! w = (if agents s ! i = Giving c now k then Holding c else Opening ForAcquire))"
proof -
  have inv: "pool_inv opts s" using pool_reachable_inv [OF assms(1)] by simp
  note d = pool_invD [OF inv]
  have open_pool: "\<not> pool_closed s" using d(6) assms(2) by auto
  note w = waiter_head [OF d(3) assms(2)]
  have wi: "w \<noteq> i" using w(2) assms(4) by auto
  from assms(4) show ?thesis
  proof
    assume gi: "agents s ! i = Giving c now k"
    let ?t = "giveBack i c now k s"
    have "pool_next opts s (GiveBackLock i) = Some ?t"
      using gi assms(3) by (simp add: pool_next_def agent_step_def)
    moreover have "pool_next opts ?t (Woken w) = Some (wake w (Some c) False ?t)"
      using open_pool assms(2) w wi by (simp add: pool_next_def agent_step_def giveBack_def)
    ultimately show ?thesis
      using open_pool assms(2) w wi gi
      by (intro exI [of _ ?t] exI [of _ "GiveBackLock i"])
         (simp add: slot_returned_def giveBack_def wake_def)
  next
    assume di: "agents s ! i = Dropping d"
    let ?t = "dropped i d s"
    have "pool_next opts s (DroppedLock i) = Some ?t"
      using di assms(3) by (simp add: pool_next_def agent_step_def)
    moreover have "pool_next opts ?t (Woken w) = Some (wake w None False ?t)"
      using open_pool assms(2) w wi by (simp add: pool_next_def agent_step_def dropped_def)
    ultimately show ?thesis
      using open_pool assms(2) w wi di
      by (intro exI [of _ ?t] exI [of _ "DroppedLock i"])
         (simp add: slot_returned_def dropped_def wake_def)
  qed
qed

theorem returned_slot_served_witness:
  "\<exists>t e. pool_next example_options example_returning e = Some t \<and> slot_returned e \<and> pool_waiters t = [2]
    \<and> (\<exists>u. pool_next example_options t (Woken 1) = Some u \<and> agents u ! 1 = Holding 7)"
proof -
  have "\<exists>t e. pool_next example_options example_returning e = Some t \<and> slot_returned e \<and> pool_waiters t = [2]
    \<and> pool_open t = pool_open example_returning
    \<and> (\<forall>j. j \<noteq> 0 \<and> j \<noteq> 1 \<longrightarrow> agents t ! j = agents example_returning ! j)
    \<and> (\<exists>u. pool_next example_options t (Woken 1) = Some u
        \<and> agents u ! 1 = (if agents example_returning ! 0 = Giving 7 5 Released then Holding 7 else Opening ForAcquire))"
    by (rule returned_slot_served [OF example_returning_reachable])
      (simp_all add: example_returning_def example_waiting_def)
  moreover have "agents example_returning ! 0 = Giving 7 5 Released"
    by (simp add: example_returning_def example_waiting_def)
  ultimately show ?thesis by auto
qed

text \<open>A closed pool keeps no idle connection and no waiter, and stays closed: an agent in
  \<^verbatim>\<open>acquire\<close> is told so, and a connection that comes back is closed and leaves the
  count.\<close>

theorem closed_pool_drains:
  assumes "pool_reachable opts s" and "pool_closed s" and "pool_step opts s e t"
  shows "pool_closed t \<and> idle_conns t = [] \<and> pool_waiters t = [] \<and> pool_open t \<le> pool_open s
    \<and> (slot_returned e \<longrightarrow> pool_open t + 1 = pool_open s)
    \<and> (case e of AcquireLock i \<Rightarrow> agents t ! i = Failed PoolClosed | _ \<Rightarrow> True)"
proof -
  have inv: "pool_inv opts s" using pool_reachable_inv [OF assms(1)] by simp
  note d = pool_invD [OF inv]
  have empty: "idle_conns s = []" "pool_waiters s = []" using d(5,6) assms(2) by auto
  show ?thesis
  proof (cases "event_agent e")
    case None
    with assms(2,3) empty show ?thesis
      by (cases e) (auto simp: pool_step_def pool_next_def pool_close_def slot_returned_def)
  next
    case (Some i)
    then have step: "agent_step opts i (agents s ! i) e s = Some t" and len: "i < length (agents s)"
      using assms(3) by (auto simp: pool_step_def pool_next_def split: if_splits)
    have pos: "phase_slots (agents s ! i) \<le> pool_open s" using slots_le [OF inv len] by simp
    have sections: "acquire_section opts i s = set_phase i (Failed PoolClosed) s"
      "warmUp_section opts i s = set_phase i Rest s"
      "giveBack i c now k s = set_phase i (after_giving k) (s\<lparr>pool_open := pool_open s - 1\<rparr>)"
      "dropped i dr s = set_phase i (after_dropping dr) (s\<lparr>pool_open := pool_open s - 1\<rparr>)" for c now k dr
      using assms(2) empty by (simp_all add: acquire_section_def warmUp_section_def giveBack_def dropped_def)
    show ?thesis
      using step pos len assms(2) empty Some
      by (cases "agents s ! i")
         (auto simp: agent_step_def sections slot_returned_def wake_def wait_timeout_def
           split: event.splits if_splits option.splits)
  qed
qed

theorem closed_pool_drains_witness:
  "\<exists>s t. pool_next example_options s (AcquireLock 0) = Some t \<and> pool_closed t
     \<and> agents t ! 0 = (Failed PoolClosed :: nat phase)"
proof -
  let ?s = "\<lparr>idle_conns = [], pool_waiters = [], pool_open = 0, pool_closed = True, agents = [Acquiring]\<rparr>
    :: nat pool"
  let ?t = "?s\<lparr>agents := [Failed PoolClosed]\<rparr>"
  have "exec (pool_try example_options) ConnectionPool_create [NewAgent, CallAcquire 0, Close] = Some ?s"
    by code_simp
  then have reach: "pool_reachable example_options ?s" by (rule pool_exec_reachable [OF example_options_valid])
  have step: "pool_next example_options ?s (AcquireLock 0) = Some ?t" by code_simp
  then have "pool_step example_options ?s (AcquireLock 0) ?t" by (simp add: pool_step_def)
  from closed_pool_drains [OF reach _ this] step show ?thesis
    by (intro exI [of _ ?s] exI [of _ ?t]) simp
qed

text \<open>A borrowed connection comes back exactly once: over any program of releases, discards and
  moves between handles, the connections still borrowed and the calls made to the pool add up to
  those borrowed at the start, so a handle moved from, released or discarded returns nothing
  more.\<close>

theorem handles_return_once:
  assumes "\<forall>op \<in> set ops. handle_op_ok hs op" and "handle_steps ops hs = (hs', calls)"
  shows "sum_list (map pooled_live hs') + length calls = sum_list (map pooled_live hs)"
  using handle_steps_conserve [OF assms(1)] assms(2) by simp

theorem handles_return_once_witness:
  "sum_list (map pooled_live [Pooled_empty, Pooled_empty :: nat pooled]) + length [CallGiveBack (8 :: nat), CallGiveBack 7]
     = sum_list (map pooled_live [Pooled 7, Pooled (8 :: nat)])"
  by (rule handles_return_once [of "[Assign 1 0, ReleaseHandle 0, ReleaseHandle 1, DiscardHandle 1]"])
    code_simp+

text \<open>Below the overflow bound of the conversion, an idle connection is handed out unless it was idle
  longer than \<^verbatim>\<open>max_idle\<close> above the minimum size, or longer than
  \<^verbatim>\<open>validate_after_idle\<close> with a validator that refuses it or throws.\<close>

theorem checkOut_decides:
  assumes "timed opts" and "0 \<le> max_idle opts" and "max_idle opts \<le> 9223372036854"
    and "0 \<le> validate_after_idle opts" and "validate_after_idle opts \<le> 9223372036854"
  shows "checkOut opts now answer c since above_min =
    (if now - since > max_idle opts * 1000000 \<and> above_min
        \<or> now - since > validate_after_idle opts * 1000000 \<and> has_validate opts \<and> answer \<noteq> Some True
     then None else Some c)"
proof -
  have "isValid answer \<longleftrightarrow> answer = Some True" by (cases answer) auto
  with assms show ?thesis by (auto simp: checkOut_def Let_def ms_to_ns_exact)
qed

theorem checkOut_decides_witness:
  "checkOut example_options 31000000000 None (7 :: nat) 0 True
    = (if 31000000000 - 0 > max_idle example_options * 1000000 \<and> True
        \<or> 31000000000 - 0 > validate_after_idle example_options * 1000000
            \<and> has_validate example_options \<and> None \<noteq> Some True
     then None else Some 7)"
  by (rule checkOut_decides) (simp_all add: example_options_def timed_def)

text \<open>With a validator and \<^verbatim>\<open>max_idle\<close> set to \<^verbatim>\<open>never\<close>, the comparison
  overflows: every idle connection above the minimum size is closed on check-out, even one that
  was never idle.\<close>

theorem never_expires_at_once:
  assumes "has_validate opts" and "max_idle opts = never" and "now \<ge> since"
  shows "checkOut opts now answer c since True = None"
  using assms by (simp add: checkOut_def timed_def Let_def ms_to_ns_never)

theorem never_expires_at_once_witness:
  "checkOut (example_options\<lparr>max_idle := never\<rparr>) 5 (Some True) (7 :: nat) 5 True = None"
  by (rule never_expires_at_once) (simp_all add: example_options_def)

text \<open>What a pool says of itself is consistent: it has at most the maximum, the idle ones are among them, and
  somebody waits only while none is idle and all are open.\<close>

lemma pool_counts_consistent:
  assumes "pool_reachable opts s"
  shows "pool_idle s \<le> pool_size s" and "pool_size s \<le> max_size opts"
    and "0 < pool_waiting s \<Longrightarrow> pool_idle s = 0 \<and> pool_size s = max_size opts"
  using pool_reachable_inv [OF assms] pool_invD(1,2,7,8) [of opts s]
  by (auto simp: pool_idle_def pool_size_def pool_waiting_def)

end
