(* ===== verification/SessionRegistry.thy ===== *)
theory SessionRegistry
  imports Prelude
begin

text \<open>
  \<^verbatim>\<open>SessionRegistry\<close> of include/cppgate/SessionRegistry.h, the live sessions of a listener, and
  the accept loop of include/cppgate/Listener.h that fills it. A session is identified by its
  address; the map holds weak references, so \<^verbatim>\<open>stopAll\<close> reaches the sessions that are
  still alive.
\<close>

section \<open>The registry\<close>

record registry =
  reg_items :: "nat list"
  reg_stopping :: bool

definition SessionRegistry_init :: registry where
  "SessionRegistry_init = \<lparr>reg_items = [], reg_stopping = False\<rparr>"

definition reg_add :: "nat \<Rightarrow> registry \<Rightarrow> bool \<times> registry" where
  "reg_add session r =
     (if reg_stopping r then (False, r)
      else (True, r\<lparr>reg_items := session # removeAll session (reg_items r)\<rparr>))"

definition reg_remove :: "nat \<Rightarrow> registry \<Rightarrow> registry" where
  "reg_remove session r = r\<lparr>reg_items := removeAll session (reg_items r)\<rparr>"

definition reg_size :: "registry \<Rightarrow> nat" where
  "reg_size r = length (reg_items r)"

text \<open>The new registry and the sessions \<^verbatim>\<open>stop()\<close> is called on, outside the lock.\<close>

definition reg_stopAll :: "(nat \<Rightarrow> bool) \<Rightarrow> registry \<Rightarrow> nat list \<times> registry" where
  "reg_stopAll alive r = (filter alive (reg_items r), r\<lparr>reg_stopping := True\<rparr>)"

section \<open>The contract of the sessions and the listener\<close>

text \<open>
  Operations a client performs, in any order and from any thread, each atomic under the mutex;
  the outcome of an operation is the answer of \<open>add\<close> or the list of \<open>stopAll\<close>.
\<close>

datatype registry_op = OpAdd nat | OpRemove nat | OpStopAll "nat list"

datatype registry_answer = Added bool | Removed | Stopped "nat list"

locale session_registry =
  fixes items :: "'r \<Rightarrow> nat list"
    and stopping :: "'r \<Rightarrow> bool"
    and add :: "nat \<Rightarrow> 'r \<Rightarrow> bool \<times> 'r"
    and remove :: "nat \<Rightarrow> 'r \<Rightarrow> 'r"
    and stop_all :: "(nat \<Rightarrow> bool) \<Rightarrow> 'r \<Rightarrow> nat list \<times> 'r"
  assumes add_answer: "fst (add i r) = (\<not> stopping r)"
    and add_items: "set (items (snd (add i r))) = (if stopping r then set (items r) else insert i (set (items r)))"
    and add_stopping: "stopping (snd (add i r)) = stopping r"
    and remove_items: "set (items (remove i r)) = set (items r) - {i}"
    and remove_stopping: "stopping (remove i r) = stopping r"
    and stop_all_answer: "set (fst (stop_all alive r)) = {i \<in> set (items r). alive i}"
    and stop_all_items: "items (snd (stop_all alive r)) = items r"
    and stop_all_stopping: "stopping (snd (stop_all alive r))"
begin

fun apply_op :: "registry_op \<Rightarrow> 'r \<Rightarrow> registry_answer \<times> 'r" where
  "apply_op (OpAdd i) r = (let (b, r1) = add i r in (Added b, r1))"
| "apply_op (OpRemove i) r = (Removed, remove i r)"
| "apply_op (OpStopAll dead) r = (let (is, r1) = stop_all (\<lambda>i. i \<notin> set dead) r in (Stopped is, r1))"

fun apply_ops :: "registry_op list \<Rightarrow> 'r \<Rightarrow> registry_answer list \<times> 'r" where
  "apply_ops [] r = ([], r)"
| "apply_ops (op # ops) r =
     (let (a, r1) = apply_op op r; (as, r2) = apply_ops ops r1 in (a # as, r2))"

lemma apply_op_stopping: "stopping r \<Longrightarrow> stopping (snd (apply_op op r))"
  by (cases op) (simp_all add: case_prod_beta Let_def add_stopping remove_stopping stop_all_stopping)

lemma apply_ops_stopping: "stopping r \<Longrightarrow> stopping (snd (apply_ops ops r))"
  by (induction ops arbitrary: r) (simp_all add: case_prod_beta Let_def apply_op_stopping)

lemma refused_when_stopping:
  "stopping r \<Longrightarrow> Added True \<notin> set (fst (apply_ops ops r))"
proof (induction ops arbitrary: r)
  case (Cons op ops)
  have "fst (apply_op op r) \<noteq> Added True"
    using Cons.prems by (cases op) (simp_all add: case_prod_beta Let_def add_answer)
  with Cons show ?case by (auto simp: case_prod_beta Let_def apply_op_stopping)
qed simp

lemma item_kept:
  assumes "OpRemove i \<notin> set ops" and "i \<in> set (items r)"
  shows "i \<in> set (items (snd (apply_ops ops r)))"
  using assms
proof (induction ops arbitrary: r)
  case (Cons op ops)
  have "i \<in> set (items (snd (apply_op op r)))"
    using Cons.prems by (cases op) (auto simp: case_prod_beta Let_def add_items remove_items stop_all_items)
  with Cons show ?case by (simp add: case_prod_beta Let_def)
qed simp

text \<open>A session admitted before the stop is told to stop, one that comes later is refused.\<close>

lemma told_or_refused:
  assumes "fst (add i r) = True" and "OpRemove i \<notin> set ops" and "i \<notin> set dead"
  shows "i \<in> set (fst (stop_all (\<lambda>j. j \<notin> set dead) (snd (apply_ops ops (snd (add i r))))))"
proof -
  have "i \<in> set (items (snd (add i r)))" using assms(1) by (simp add: add_answer add_items)
  from item_kept [OF assms(2) this] assms(3) show ?thesis by (simp add: stop_all_answer)
qed

end

interpretation registry: session_registry reg_items reg_stopping reg_add reg_remove reg_stopAll
  by unfold_locales (auto simp: reg_add_def reg_remove_def reg_stopAll_def)

section \<open>The accept loop\<close>

text \<open>
  \<^verbatim>\<open>Listener\<close>: the acceptor is open or closed, and at most one accept or one retry wait is
  pending. \<open>started\<close> records the sessions that were started.
\<close>

record listener =
  ls_open :: bool
  ls_accepting :: bool
  ls_retry_wait :: bool
  ls_stop_posted :: bool
  ls_started :: nat
  ls_registry :: registry

datatype accept_result = AcceptOk | AcceptAborted | AcceptConnectionLost | AcceptOtherError

definition Listener_run :: listener where
  "Listener_run =
     \<lparr>ls_open = True, ls_accepting = True, ls_retry_wait = False, ls_stop_posted = False, ls_started = 0,
      ls_registry = SessionRegistry_init\<rparr>"

definition ls_do_accept :: "listener \<Rightarrow> listener" where
  "ls_do_accept l = l\<lparr>ls_accepting := True\<rparr>"

definition ls_on_accept :: "accept_result \<Rightarrow> listener \<Rightarrow> listener" where
  "ls_on_accept result l0 =
     (let l = l0\<lparr>ls_accepting := False\<rparr> in
      if result = AcceptAborted \<or> \<not> ls_open l then l
      else if result \<noteq> AcceptOk then
        (if result = AcceptConnectionLost then ls_do_accept l else l\<lparr>ls_retry_wait := True\<rparr>)
      else ls_do_accept (l\<lparr>ls_started := ls_started l + 1\<rparr>))"

definition ls_on_retry :: "bool \<Rightarrow> listener \<Rightarrow> listener" where
  "ls_on_retry cancelled l0 =
     (let l = l0\<lparr>ls_retry_wait := False\<rparr> in
      if \<not> cancelled \<and> ls_open l then ls_do_accept l else l)"

text \<open>\<^verbatim>\<open>stop\<close>: the acceptor is closed by a posted task; the sessions are stopped at once.\<close>

definition ls_stop :: "(nat \<Rightarrow> bool) \<Rightarrow> listener \<Rightarrow> nat list \<times> listener" where
  "ls_stop alive l =
     (let (told, r) = reg_stopAll alive (ls_registry l)
      in (told, l\<lparr>ls_stop_posted := True, ls_registry := r\<rparr>))"

definition ls_close_acceptor :: "listener \<Rightarrow> listener" where
  "ls_close_acceptor l = l\<lparr>ls_stop_posted := False, ls_open := False\<rparr>"

text \<open>
  Events; an accept completes as aborted only once the acceptor was closed, a cancelled wait only
  once it was stopped.
\<close>

datatype listener_event =
    LsAccepted accept_result
  | LsRetry bool
  | LsStop
  | LsCloseAcceptor
  | LsRegister nat
  | LsUnregister nat

fun listener_next :: "listener \<Rightarrow> listener_event \<Rightarrow> listener option" where
  "listener_next l (LsAccepted result) =
     (if ls_accepting l \<and> (result = AcceptAborted \<longrightarrow> \<not> ls_open l) then Some (ls_on_accept result l) else None)"
| "listener_next l (LsRetry cancelled) =
     (if ls_retry_wait l \<and> (cancelled \<longrightarrow> \<not> ls_open l) then Some (ls_on_retry cancelled l) else None)"
| "listener_next l LsStop = Some (snd (ls_stop (\<lambda>i. True) l))"
| "listener_next l LsCloseAcceptor = (if ls_stop_posted l then Some (ls_close_acceptor l) else None)"
| "listener_next l (LsRegister i) = Some (l\<lparr>ls_registry := snd (reg_add i (ls_registry l))\<rparr>)"
| "listener_next l (LsUnregister i) = Some (l\<lparr>ls_registry := reg_remove i (ls_registry l)\<rparr>)"

definition listener_step :: "listener \<Rightarrow> listener_event \<Rightarrow> listener \<Rightarrow> bool" where
  "listener_step l e m \<longleftrightarrow> listener_next l e = Some m"

text \<open>While the acceptor is open exactly one of the two operations is pending: the loop never dies.\<close>

definition listener_inv :: "listener \<Rightarrow> bool" where
  "listener_inv l \<longleftrightarrow> \<not> (ls_accepting l \<and> ls_retry_wait l)
     \<and> (ls_open l \<longrightarrow> ls_accepting l \<or> ls_retry_wait l)
     \<and> (\<not> ls_open l \<longrightarrow> reg_stopping (ls_registry l))
     \<and> (ls_stop_posted l \<longrightarrow> reg_stopping (ls_registry l))"

lemma reg_add_stopping [simp]: "reg_stopping (snd (reg_add i r)) = reg_stopping r"
  by (simp add: reg_add_def)

lemma listener_inv_step: "listener_inv l \<Longrightarrow> listener_step l e m \<Longrightarrow> listener_inv m"
proof (cases e)
  case (LsAccepted result)
  assume "listener_inv l" "listener_step l e m"
  with LsAccepted show ?thesis
    by (cases result) (auto simp: listener_step_def listener_inv_def ls_on_accept_def ls_do_accept_def Let_def
        split: if_splits)
next
  case (LsRetry cancelled)
  assume "listener_inv l" "listener_step l e m"
  with LsRetry show ?thesis
    by (auto simp: listener_step_def listener_inv_def ls_on_retry_def ls_do_accept_def Let_def split: if_splits)
qed (auto simp: listener_step_def listener_inv_def ls_stop_def ls_close_acceptor_def reg_stopAll_def reg_remove_def
    split: if_splits)

lemma listener_inv_start: "listener_inv Listener_run"
  by (simp add: listener_inv_def Listener_run_def)

interpretation listener_system: invariant_system "\<lambda>l. l = Listener_run" listener_step listener_inv
  by unfold_locales (auto intro: listener_inv_start listener_inv_step)

definition listener_reachable :: "listener \<Rightarrow> bool" where
  "listener_reachable l \<longleftrightarrow> reachable (\<lambda>l. l = Listener_run) listener_step l"

section \<open>Properties\<close>

text \<open>No session slips through a shutdown: one that was admitted and is still alive and registered is
  in the list \<^verbatim>\<open>stopAll\<close> stops, and from then on every other is refused, whatever the
  other threads add and remove.\<close>

theorem shutdown_reaches_everyone:
  assumes "fst (reg_add i r) = True" and "OpRemove i \<notin> set ops" and "i \<notin> set dead"
    and "reg_stopAll (\<lambda>j. j \<notin> set dead) (snd (registry.apply_ops ops (snd (reg_add i r)))) = (told, r1)"
  shows "i \<in> set told \<and> Added True \<notin> set (fst (registry.apply_ops ops1 r1))"
proof -
  have "i \<in> set told" using registry.told_or_refused [OF assms(1-3)] assms(4) by simp
  moreover have "reg_stopping r1"
    using registry.stop_all_stopping [of "\<lambda>j. j \<notin> set dead" "snd (registry.apply_ops ops (snd (reg_add i r)))"]
      assms(4) by simp
  ultimately show ?thesis using registry.refused_when_stopping by blast
qed

theorem shutdown_reaches_everyone_witness:
  "4 \<in> set [9, 4 :: nat] \<and> Added True \<notin> set (fst (registry.apply_ops [OpAdd 6] \<lparr>reg_items = [9, 4], reg_stopping = True\<rparr>))"
  by (rule shutdown_reaches_everyone [where r = SessionRegistry_init and ops = "[OpAdd 9, OpAdd 7, OpRemove 7]"
      and dead = "[]"])
    (simp_all add: SessionRegistry_init_def reg_add_def reg_remove_def reg_stopAll_def)

text \<open>The listener keeps accepting until it is stopped: while the acceptor is open exactly one of an
  accept and a retry wait is pending, whatever errors the accepts ended with; after the acceptor
  was closed no step starts a session or another accept.\<close>

theorem listener_keeps_accepting:
  assumes "listener_reachable l"
  shows "(ls_open l \<longrightarrow> (ls_accepting l \<longleftrightarrow> \<not> ls_retry_wait l))
    \<and> (\<forall>e m. \<not> ls_open l \<and> listener_step l e m \<longrightarrow>
        \<not> ls_open m \<and> ls_started m = ls_started l \<and> (ls_accepting m \<longrightarrow> ls_accepting l))"
proof -
  have "listener_inv l" using assms unfolding listener_reachable_def by (rule listener_system.reachable_inv)
  then have "ls_open l \<longrightarrow> (ls_accepting l \<longleftrightarrow> \<not> ls_retry_wait l)" by (auto simp: listener_inv_def)
  moreover have "\<not> ls_open m \<and> ls_started m = ls_started l \<and> (ls_accepting m \<longrightarrow> ls_accepting l)"
    if "\<not> ls_open l" "listener_step l e m" for e m
    using that by (cases e) (auto simp: listener_step_def ls_on_accept_def ls_on_retry_def ls_stop_def
        ls_close_acceptor_def case_prod_beta Let_def split: if_splits)
  ultimately show ?thesis by blast
qed

theorem listener_keeps_accepting_witness:
  "\<exists>l. \<not> ls_open l \<and> (\<forall>e m. listener_step l e m \<longrightarrow> ls_started m = ls_started l)"
proof -
  let ?l = "\<lparr>ls_open = False, ls_accepting = True, ls_retry_wait = False, ls_stop_posted = False, ls_started = 0,
      ls_registry = \<lparr>reg_items = [], reg_stopping = True\<rparr>\<rparr>"
  have "run listener_step Listener_run [LsStop, LsCloseAcceptor] ?l"
    by (simp add: run_cons_simp listener_step_def Listener_run_def ls_stop_def ls_close_acceptor_def reg_stopAll_def
        SessionRegistry_init_def)
  then have "listener_reachable ?l"
    unfolding listener_reachable_def by (rule reachable_run) (rule reachable_init, simp)
  from listener_keeps_accepting [OF this] show ?thesis by (intro exI [of _ ?l]) simp
qed

end
