(* ===== verification/HttpSession.thy ===== *)
theory HttpSession
  imports Router SessionRegistry
begin

text \<open>
  \<^verbatim>\<open>HttpSession\<close> of include/cppgate/HttpSession.h: one HTTP connection of the server. All its
  handlers run on one strand, and at most one asynchronous operation is pending: the model has that
  operation as a state, and an event is its completion, the posted start of a write, or one of the
  two ways \<^verbatim>\<open>stop\<close> reaches a session.
\<close>

section \<open>State\<close>

datatype io_op =
    NotStarted
  | Detecting
  | Handshaking
  | ReadingHeader
  | WritingContinue
  | ReadingBody
  | WritePosted
  | Writing bool
  | ShuttingDown
  | ReadingLinger
  | Upgraded
  | Ended

text \<open>What a completed operation can report, as far as the session tells errors apart.\<close>

datatype io_error =
    EndOfStream
  | BodyLimit
  | HeaderLimit
  | PartialMessage
  | NeedMore
  | OtherParseError
  | IoFailed

record ('h, 'w) http_session =
  hs_op :: io_op
  hs_waiting :: bool
  hs_got_some :: bool
  hs_linger :: bool
  hs_lingering :: bool
  hs_queue :: "'h http_response list"
  hs_tls :: bool
  hs_cancelled :: bool
  hs_stopping :: bool
  hs_world :: 'w
  hs_sent :: "'h http_response list"

text \<open>The kinds of streams the session was instantiated with, and what it needs from outside.\<close>

record ('h, 'p) session_env =
  se_libs :: "('h, 'p) libs"
  se_with_plain :: bool
  se_with_ssl :: bool
  se_is_upgrade :: "'h request_msg \<Rightarrow> bool"
  se_reason :: "nat \<Rightarrow> string"

definition HttpSession :: "('h, 'p) session_env \<Rightarrow> 'w \<Rightarrow> ('h, 'w) http_session" where
  "HttpSession E w =
     \<lparr>hs_op = NotStarted, hs_waiting = False, hs_got_some = False, hs_linger = False, hs_lingering = False,
      hs_queue = [], hs_tls = (\<not> se_with_plain E), hs_cancelled = False, hs_stopping = False, hs_world = w,
      hs_sent = []\<rparr>"

section \<open>Writing\<close>

definition start_op :: "io_op \<Rightarrow> ('h, 'w) http_session \<Rightarrow> ('h, 'w) http_session" where
  "start_op op s = s\<lparr>hs_op := op, hs_cancelled := False\<rparr>"

definition hs_do_write :: "('h, 'w) http_session \<Rightarrow> ('h, 'w) http_session" where
  "hs_do_write s = (if hs_queue s \<noteq> [] then start_op WritePosted s else s)"

definition queue_write :: "'h http_response \<Rightarrow> ('h, 'w) http_session \<Rightarrow> ('h, 'w) http_session" where
  "queue_write response s =
     (let s1 = s\<lparr>hs_queue := hs_queue s @ [response]\<rparr>
      in if length (hs_queue s1) = 1 then hs_do_write s1 else s1)"

text \<open>The posted part of \<^verbatim>\<open>do_write\<close>: the first response goes to \<^verbatim>\<open>async_write\<close>.\<close>

definition posted_write :: "'h fields_lib \<Rightarrow> ('h, 'w) http_session \<Rightarrow> ('h, 'w) http_session" where
  "posted_write F s =
     (case hs_queue s of
        [] \<Rightarrow> start_op Ended s
      | msg # rest \<Rightarrow>
          start_op (Writing (res_keepAlive F msg)) (s\<lparr>hs_queue := rest, hs_sent := hs_sent s @ [msg]\<rparr>))"

definition do_linger :: "('h, 'w) http_session \<Rightarrow> ('h, 'w) http_session" where
  "do_linger s = start_op ReadingLinger (s\<lparr>hs_lingering := True\<rparr>)"

definition do_eof :: "('h, 'w) http_session \<Rightarrow> ('h, 'w) http_session" where
  "do_eof s =
     (if hs_tls s then (if hs_linger s then do_linger s else start_op ShuttingDown s)
      else if hs_linger s then do_linger s else start_op Ended s)"

section \<open>Reading\<close>

text \<open>A new parser for each message: nothing received yet.\<close>

definition hs_do_read :: "('h, 'w) http_session \<Rightarrow> ('h, 'w) http_session" where
  "hs_do_read s = start_op ReadingHeader (s\<lparr>hs_waiting := True, hs_got_some := False\<rparr>)"

definition hs_on_write :: "bool \<Rightarrow> bool \<Rightarrow> ('h, 'w) http_session \<Rightarrow> ('h, 'w) http_session" where
  "hs_on_write keep_alive failed s =
     (if failed then do_eof s
      else if hs_queue s = [] then
        (if keep_alive \<and> \<not> hs_stopping s then hs_do_read s else do_eof s)
      else hs_do_write s)"

text \<open>\<open>target_empty\<close> is whether the parser has no request target yet.\<close>

definition error_status :: "io_error \<Rightarrow> bool \<Rightarrow> nat option" where
  "error_status ec target_empty =
     (case ec of
        BodyLimit \<Rightarrow> Some 413
      | HeaderLimit \<Rightarrow> Some (if target_empty then 414 else 431)
      | OtherParseError \<Rightarrow> Some 400
      | EndOfStream \<Rightarrow> Some 400
      | PartialMessage \<Rightarrow> None
      | NeedMore \<Rightarrow> None
      | IoFailed \<Rightarrow> None)"

text \<open>An exception of \<^verbatim>\<open>prepare_payload\<close> would leave the handler and end the session.\<close>

definition send_error ::
  "('h, 'p) session_env \<Rightarrow> nat \<Rightarrow> ('h, 'w) http_session \<Rightarrow> ('h, 'w) http_session" where
  "send_error E status s =
     (let F = lb_fields (se_libs E);
          r0 = (HttpResponse F)\<lparr>res_status := status\<rparr>;
          r1 = res_header F ''Content-Type'' ''text/plain'' r0;
          r2 = r1\<lparr>res_body := se_reason E status\<rparr>;
          r3 = res_set_keepAlive F False r2
      in case prepare_payload F r3 of
           Threw r \<Rightarrow> start_op Ended s
         | Done u r4 \<Rightarrow> queue_write r4 (s\<lparr>hs_linger := True\<rparr>))"

text \<open>A request that was refused by the parser, or a connection that ended.\<close>

definition on_read_error ::
  "('h, 'p) session_env \<Rightarrow> io_error \<Rightarrow> bool \<Rightarrow> ('h, 'w) http_session \<Rightarrow> ('h, 'w) http_session" where
  "on_read_error E ec target_empty s0 =
     (let s = s0\<lparr>hs_waiting := False\<rparr> in
      if ec = EndOfStream then do_eof s
      else case error_status ec target_empty of
             Some status \<Rightarrow> send_error E status s
           | None \<Rightarrow> start_op Ended s)"

text \<open>
  A complete request: handed over to a WebSocket session, or routed and its response queued. An
  exception of \<^verbatim>\<open>route\<close> leaves the handler.
\<close>

definition on_read_request ::
  "('h, 'p) session_env \<Rightarrow> ('h, 'c, 'b, 'w, 'p) router \<Rightarrow> string \<Rightarrow> 'h request_msg
     \<Rightarrow> (('h, 'w) http_session, unit) action" where
  "on_read_request E rt remote_ip message s0 =
     (let s = s0\<lparr>hs_waiting := False\<rparr>; F = lb_fields (se_libs E) in
      if se_is_upgrade E message then Done () (start_op Upgraded s)
      else
        (case Router_route (se_libs E) rt
                \<lparr>ex_request = setPeerIP remote_ip (HttpRequest message), ex_response = HttpResponse F,
                 ex_world = hs_world s\<rparr> of
           Threw e \<Rightarrow> Threw (start_op Ended (s\<lparr>hs_world := ex_world e\<rparr>))
         | Done u e \<Rightarrow>
             (let response = (if hs_stopping s then res_set_keepAlive F False (ex_response e) else ex_response e)
              in Done () (queue_write response (s\<lparr>hs_world := ex_world e\<rparr>)))))"

definition read_body :: "('h, 'w) http_session \<Rightarrow> ('h, 'w) http_session" where
  "read_body s = start_op ReadingBody s"

definition expects_continue :: "'h fields_lib \<Rightarrow> 'h request_msg \<Rightarrow> bool" where
  "expects_continue F m =
     (rq_version m \<ge> 11 \<and> iequals (headers_get F m ''Expect'') ''100-continue'')"

definition on_read_header ::
  "('h, 'p) session_env \<Rightarrow> 'h request_msg \<Rightarrow> ('h, 'w) http_session \<Rightarrow> ('h, 'w) http_session" where
  "on_read_header E header s =
     (if expects_continue (lb_fields (se_libs E)) header then start_op WritingContinue s else read_body s)"

definition on_continue_written :: "bool \<Rightarrow> ('h, 'w) http_session \<Rightarrow> ('h, 'w) http_session" where
  "on_continue_written failed s = (if failed then start_op Ended s else read_body s)"

section \<open>Starting and stopping\<close>

text \<open>\<^verbatim>\<open>run\<close>: a session the registry refuses ends at once.\<close>

definition hs_on_run :: "('h, 'w) http_session \<Rightarrow> ('h, 'w) http_session" where
  "hs_on_run s = start_op (if \<not> hs_tls s then Detecting else Handshaking) (s\<lparr>hs_waiting := True\<rparr>)"

definition on_ssl_session :: "('h, 'w) http_session \<Rightarrow> ('h, 'w) http_session" where
  "on_ssl_session s = start_op Handshaking (s\<lparr>hs_tls := True, hs_waiting := True\<rparr>)"

definition on_detect ::
  "('h, 'p) session_env \<Rightarrow> bool \<Rightarrow> bool \<Rightarrow> ('h, 'w) http_session \<Rightarrow> ('h, 'w) http_session" where
  "on_detect E failed tls s0 =
     (let s = s0\<lparr>hs_waiting := False\<rparr> in
      if failed then start_op Ended s
      else if tls then (if se_with_ssl E then on_ssl_session s else start_op Ended s)
      else if se_with_plain E then hs_do_read s else start_op Ended s)"

definition on_handshake :: "bool \<Rightarrow> ('h, 'w) http_session \<Rightarrow> ('h, 'w) http_session" where
  "on_handshake failed s0 =
     (let s = s0\<lparr>hs_waiting := False\<rparr> in if failed then start_op Ended s else hs_do_read s)"

text \<open>Cancelling makes the pending operation complete as aborted, unless it completed already.\<close>

definition on_stop :: "('h, 'w) http_session \<Rightarrow> ('h, 'w) http_session" where
  "on_stop s =
     (if hs_lingering s \<or> (hs_waiting s \<and> \<not> hs_got_some s) then s\<lparr>hs_cancelled := True\<rparr> else s)"

definition on_linger :: "bool \<Rightarrow> ('h, 'w) http_session \<Rightarrow> ('h, 'w) http_session" where
  "on_linger failed s = start_op (if failed then Ended else ReadingLinger) s"

section \<open>Events\<close>

text \<open>\<open>RegistryStops\<close> is \<^verbatim>\<open>stopAll\<close> setting its flag, \<open>StopTask\<close> the posted \<^verbatim>\<open>on_stop\<close>.\<close>

datatype 'h http_event =
    OnRun
  | RegistryStops
  | StopTask
  | Received
  | DetectDone bool bool
  | HandshakeDone bool
  | HeaderFailed io_error bool
  | HeaderDone "'h request_msg"
  | ContinueDone bool
  | BodyFailed io_error bool
  | BodyDone string "'h request_msg"
  | PostedWriteRuns
  | WriteCompletes bool
  | ShutdownDone
  | LingerDone bool

fun http_next ::
  "('h, 'p) session_env \<Rightarrow> ('h, 'c, 'b, 'w, 'p) router \<Rightarrow> ('h, 'w) http_session \<Rightarrow> 'h http_event
     \<Rightarrow> ('h, 'w) http_session option" where
  "http_next E rt s OnRun = (if hs_op s = NotStarted then Some (hs_on_run s) else None)"
| "http_next E rt s RegistryStops = Some (s\<lparr>hs_stopping := True\<rparr>)"
| "http_next E rt s StopTask = Some (on_stop s)"
| "http_next E rt s Received = (if hs_op s = ReadingHeader then Some (s\<lparr>hs_got_some := True\<rparr>) else None)"
| "http_next E rt s (DetectDone failed tls) =
     (if hs_op s = Detecting then Some (on_detect E failed tls s) else None)"
| "http_next E rt s (HandshakeDone failed) =
     (if hs_op s = Handshaking then Some (on_handshake failed s) else None)"
| "http_next E rt s (HeaderFailed ec target_empty) =
     (if hs_op s = ReadingHeader then Some (on_read_error E ec target_empty s) else None)"
| "http_next E rt s (HeaderDone header) =
     (if hs_op s = ReadingHeader then Some (on_read_header E header (s\<lparr>hs_got_some := True\<rparr>)) else None)"
| "http_next E rt s (ContinueDone failed) =
     (if hs_op s = WritingContinue then Some (on_continue_written failed s) else None)"
| "http_next E rt s (BodyFailed ec target_empty) =
     (if hs_op s = ReadingBody then Some (on_read_error E ec target_empty s) else None)"
| "http_next E rt s (BodyDone remote_ip message) =
     (if hs_op s = ReadingBody then Some (outcome_state (on_read_request E rt remote_ip message s)) else None)"
| "http_next E rt s PostedWriteRuns =
     (if hs_op s = WritePosted then Some (posted_write (lb_fields (se_libs E)) s) else None)"
| "http_next E rt s (WriteCompletes failed) =
     (case hs_op s of Writing keep_alive \<Rightarrow> Some (hs_on_write keep_alive failed s) | _ \<Rightarrow> None)"
| "http_next E rt s ShutdownDone = (if hs_op s = ShuttingDown then Some (start_op Ended s) else None)"
| "http_next E rt s (LingerDone failed) = (if hs_op s = ReadingLinger then Some (on_linger failed s) else None)"

definition http_step ::
  "('h, 'p) session_env \<Rightarrow> ('h, 'c, 'b, 'w, 'p) router \<Rightarrow> ('h, 'w) http_session \<Rightarrow> 'h http_event
     \<Rightarrow> ('h, 'w) http_session \<Rightarrow> bool" where
  "http_step E rt s e t \<longleftrightarrow> http_next E rt s e = Some t"

section \<open>The invariant\<close>

definition closes :: "'h fields_lib \<Rightarrow> 'h http_response \<Rightarrow> bool" where
  "closes F r = (\<not> res_keepAlive F r)"

text \<open>
  The queue holds the one response whose write was posted; a session that lingers after an error
  response is only writing it, draining the input or done.
\<close>

definition http_inv :: "'h fields_lib \<Rightarrow> ('h, 'w) http_session \<Rightarrow> bool" where
  "http_inv F s \<longleftrightarrow>
     (hs_op s = WritePosted \<longleftrightarrow> hs_queue s \<noteq> []) \<and> length (hs_queue s) \<le> 1
   \<and> (hs_lingering s \<longrightarrow> hs_linger s \<and> hs_op s \<in> {ReadingLinger, Ended})
   \<and> (hs_linger s \<longrightarrow> hs_op s \<in> {WritePosted, Writing False, ReadingLinger, Ended}
        \<and> (\<forall>r \<in> set (hs_queue s). closes F r))"

text \<open>The responses the session made, in order: the ones handed to the socket and the posted one.\<close>

definition responses :: "('h, 'w) http_session \<Rightarrow> 'h http_response list" where
  "responses s = hs_sent s @ hs_queue s"

lemma start_op_simps [simp]:
  "hs_op (start_op op s) = op" "hs_queue (start_op op s) = hs_queue s" "hs_linger (start_op op s) = hs_linger s"
  "hs_lingering (start_op op s) = hs_lingering s" "hs_sent (start_op op s) = hs_sent s"
  "hs_waiting (start_op op s) = hs_waiting s" "hs_stopping (start_op op s) = hs_stopping s"
  "hs_tls (start_op op s) = hs_tls s" "hs_world (start_op op s) = hs_world s"
  "hs_cancelled (start_op op s) = False"
  by (simp_all add: start_op_def)

lemma queue_write_empty:
  assumes "hs_queue s = []"
  shows "hs_op (queue_write r s) = WritePosted" and "hs_queue (queue_write r s) = [r]"
    and "hs_linger (queue_write r s) = hs_linger s" and "hs_lingering (queue_write r s) = hs_lingering s"
    and "hs_sent (queue_write r s) = hs_sent s" and "hs_stopping (queue_write r s) = hs_stopping s"
    and "hs_world (queue_write r s) = hs_world s"
  using assms by (simp_all add: queue_write_def hs_do_write_def)

lemma http_inv_eof:
  assumes "http_inv F s" and "hs_queue s = []" and "\<not> hs_lingering s"
  shows "http_inv F (do_eof s)"
  using assms by (simp add: http_inv_def do_eof_def do_linger_def)

lemma http_inv_do_read:
  assumes "hs_queue s = []" and "\<not> hs_linger s" and "\<not> hs_lingering s"
  shows "http_inv F (hs_do_read s)"
  using assms by (simp add: http_inv_def hs_do_read_def)

lemma error_status_body: "error_status ec target_empty = Some status \<Longrightarrow> \<not> bodiless_status status"
  by (auto simp: error_status_def bodiless_status_def split: io_error.splits if_splits)

lemma send_error_simps:
  assumes "fields_ok F" and "lb_fields (se_libs E) = F" and "hs_queue s = []" and "\<not> bodiless_status status"
  shows "hs_op (send_error E status s) = WritePosted"
    and "\<exists>r. hs_queue (send_error E status s) = [r] \<and> closes F r \<and> res_status r = status"
    and "hs_linger (send_error E status s)" and "hs_lingering (send_error E status s) = hs_lingering s"
    and "hs_sent (send_error E status s) = hs_sent s"
  using assms
  by (simp_all add: send_error_def Let_def queue_write_empty closes_def res_keepAlive_def prepare_payload_done
      res_set_keepAlive_def fields_okD(4,5))

lemma http_inv_read_error:
  assumes "http_inv F s" and "fields_ok F" and "lb_fields (se_libs E) = F"
    and "hs_op s \<in> {ReadingHeader, ReadingBody}"
  shows "http_inv F (on_read_error E ec target_empty s)"
proof -
  let ?s = "s\<lparr>hs_waiting := False\<rparr>"
  have s: "hs_queue s = []" "\<not> hs_linger s" "\<not> hs_lingering s" using assms(1,4) by (auto simp: http_inv_def)
  have "http_inv F ?s" using assms(1) by (auto simp: http_inv_def)
  then have eof: "http_inv F (do_eof ?s)" using s by (intro http_inv_eof) simp_all
  show ?thesis
  proof (cases "ec = EndOfStream \<or> error_status ec target_empty = None")
    case True
    with eof s show ?thesis by (auto simp: on_read_error_def Let_def http_inv_def split: if_splits)
  next
    case False
    then obtain status where status: "error_status ec target_empty = Some status" "ec \<noteq> EndOfStream" by auto
    note body = error_status_body [OF status(1)]
    obtain r where "hs_queue (send_error E status ?s) = [r]" "closes F r"
      using send_error_simps(2) [OF assms(2,3), of ?s status] s body by auto
    with status s send_error_simps(1,3,4) [OF assms(2,3) _ body, of ?s] show ?thesis
      by (simp add: on_read_error_def http_inv_def)
  qed
qed

lemma http_inv_request:
  assumes "http_inv F s" and "hs_op s = ReadingBody"
  shows "http_inv F (outcome_state (on_read_request E rt ip m s))"
proof -
  have s: "hs_queue s = []" "\<not> hs_linger s" "\<not> hs_lingering s" using assms by (auto simp: http_inv_def)
  then show ?thesis
    by (auto simp: on_read_request_def Let_def http_inv_def queue_write_empty split: outcome.splits)
qed

lemma http_inv_step:
  assumes "http_inv F s" and "fields_ok F" and "lb_fields (se_libs E) = F" and "http_step E rt s e t"
  shows "http_inv F t"
proof (cases e)
  case OnRun
  with assms show ?thesis
    by (auto simp: http_step_def hs_on_run_def http_inv_def split: if_splits)
next
  case (DetectDone failed tls)
  with assms show ?thesis
    by (auto simp: http_step_def on_detect_def on_ssl_session_def hs_do_read_def Let_def http_inv_def split: if_splits)
next
  case (HandshakeDone failed)
  with assms show ?thesis
    by (auto simp: http_step_def on_handshake_def hs_do_read_def Let_def http_inv_def split: if_splits)
next
  case (HeaderFailed ec te)
  with assms show ?thesis
    by (auto simp: http_step_def split: if_splits intro: http_inv_read_error)
next
  case (HeaderDone header)
  with assms show ?thesis
    by (auto simp: http_step_def on_read_header_def read_body_def http_inv_def split: if_splits)
next
  case (ContinueDone failed)
  with assms show ?thesis
    by (auto simp: http_step_def on_continue_written_def read_body_def http_inv_def split: if_splits)
next
  case (BodyFailed ec te)
  with assms show ?thesis
    by (auto simp: http_step_def split: if_splits intro: http_inv_read_error)
next
  case (BodyDone ip m)
  with assms show ?thesis
    by (auto simp: http_step_def split: if_splits intro: http_inv_request)
next
  case PostedWriteRuns
  with assms show ?thesis
    by (auto simp: http_step_def posted_write_def http_inv_def closes_def split: if_splits list.splits)
next
  case (WriteCompletes failed)
  with assms obtain k where "hs_op s = Writing k" "t = hs_on_write k failed s"
    by (auto simp: http_step_def split: io_op.splits)
  with assms(1) show ?thesis
    by (auto simp: hs_on_write_def http_inv_def hs_do_read_def do_eof_def do_linger_def)
next
  case (LingerDone failed)
  with assms show ?thesis
    by (auto simp: http_step_def on_linger_def http_inv_def split: if_splits)
next
  case RegistryStops
  with assms(4) have "t = s\<lparr>hs_stopping := True\<rparr>" by (simp add: http_step_def)
  with assms(1) show ?thesis by (auto simp: http_inv_def)
next
  case StopTask
  with assms(4) have "t = on_stop s" by (simp add: http_step_def)
  with assms(1) show ?thesis by (auto simp: http_inv_def on_stop_def)
next
  case Received
  with assms(4) have "hs_op s = ReadingHeader" "t = s\<lparr>hs_got_some := True\<rparr>" by (auto simp: http_step_def split: if_splits)
  with assms(1) show ?thesis by (auto simp: http_inv_def)
next
  case ShutdownDone
  with assms(4) have "hs_op s = ShuttingDown" "t = start_op Ended s" by (auto simp: http_step_def split: if_splits)
  with assms(1) show ?thesis by (auto simp: http_inv_def)
qed

definition env_ok :: "('h, 'p) session_env \<Rightarrow> bool" where
  "env_ok E = libs_ok (se_libs E)"

interpretation http_system: invariant_system
  "\<lambda>s. env_ok E \<and> (\<exists>w. s = HttpSession E w)" "http_step E rt"
  "\<lambda>s. env_ok E \<and> http_inv (lb_fields (se_libs E)) s"
  for E :: "('h, 'p) session_env" and rt :: "('h, 'c, 'b, 'w, 'p) router"
proof unfold_locales
  fix s :: "('h, 'w) http_session" and e t
  show "env_ok E \<and> (\<exists>w. s = HttpSession E w) \<Longrightarrow> env_ok E \<and> http_inv (lb_fields (se_libs E)) s"
    by (auto simp: http_inv_def HttpSession_def)
  assume "env_ok E \<and> http_inv (lb_fields (se_libs E)) s" and "http_step E rt s e t"
  then show "env_ok E \<and> http_inv (lb_fields (se_libs E)) t"
    by (auto simp: env_ok_def libs_ok_def intro: http_inv_step)
qed

definition http_reachable ::
  "('h, 'p) session_env \<Rightarrow> ('h, 'c, 'b, 'w, 'p) router \<Rightarrow> ('h, 'w) http_session \<Rightarrow> bool" where
  "http_reachable E rt s \<longleftrightarrow>
     reachable (\<lambda>s. env_ok E \<and> (\<exists>w. s = HttpSession E w)) (http_step E rt) s"

lemma http_reachable_inv: "http_reachable E rt s \<Longrightarrow> env_ok E \<and> http_inv (lb_fields (se_libs E)) s"
  unfolding http_reachable_def by (rule http_system.reachable_inv)

section \<open>A session for closed examples\<close>

definition example_env :: "(example_h, string) session_env" where
  "example_env =
     \<lparr>se_libs = example_libs, se_with_plain = True, se_with_ssl = False,
      se_is_upgrade = (\<lambda>m. rq_target m = ''/ws''), se_reason = (\<lambda>n. ''Error'')\<rparr>"

lemma example_env_ok: "env_ok example_env"
  by (simp add: env_ok_def example_env_def example_libs_ok)

lemma http_exec_reachable:
  assumes "exec (http_next E rt) (HttpSession E w) es = Some t" and "env_ok E"
  shows "http_reachable E rt t"
  unfolding http_reachable_def
  by (rule exec_reachable [OF assms(1)]) (use assms(2) in \<open>auto simp: http_step_def intro: reachable_init\<close>)

definition close_request :: "example_h request_msg" where
  "close_request =
     \<lparr>rq_method = Verb_get, rq_target = ''/u/7'', rq_version = 11, rq_fields = [(''Connection'', ''close'')],
      rq_body = []\<rparr>"

lemmas http_exec_defs = example_env_def HttpSession_def hs_on_run_def on_detect_def hs_do_read_def
  on_read_header_def expects_continue_def read_body_def start_op_def

text \<open>A request with \<^verbatim>\<open>Connection: close\<close> up to its body.\<close>

definition reading_session :: "(example_h, nat) http_session" where
  "reading_session = (HttpSession example_env 0)\<lparr>hs_op := ReadingBody, hs_waiting := True, hs_got_some := True\<rparr>"

lemma reading_session_exec:
  "exec (http_next example_env example_router) (HttpSession example_env 0)
     [OnRun, DetectDone False False, HeaderDone close_request] = Some reading_session"
proof -
  have "\<not> iequals (headers_get alist_fields close_request ''Expect'') ''100-continue''" by code_simp
  then show ?thesis by (simp add: reading_session_def http_exec_defs)
qed

lemma reading_session_reachable: "http_reachable example_env example_router reading_session"
  by (rule http_exec_reachable [OF reading_session_exec example_env_ok])

lemma example_not_found_answers:
  "always_answers (rt_not_found example_router)" "always_answers (rt_method_not_allowed example_router)"
  by (simp_all add: example_router_def Router_init_def)

text \<open>A header over the limit: the error response is written and the session lingers.\<close>

definition refused_events :: "example_h http_event list" where
  "refused_events = [OnRun, DetectDone False False, HeaderFailed HeaderLimit True, PostedWriteRuns, WriteCompletes False]"

section \<open>Properties\<close>

text \<open>C5: Every request that was read completely gets exactly one response, behind the earlier ones: the one
  the router made for it, which has a status. The session itself changes it only when the server is
  stopping, to announce that the connection closes.\<close>

theorem request_answered_once:
  assumes "http_reachable E rt s" and "http_step E rt s (BodyDone ip m) t"
    and "\<not> se_is_upgrade E m" and "built_router (se_libs E) rt"
    and "always_answers (rt_not_found rt)" and "always_answers (rt_method_not_allowed rt)"
  shows "\<exists>e1. Router_route (se_libs E) rt
      \<lparr>ex_request = setPeerIP ip (HttpRequest m), ex_response = HttpResponse (lb_fields (se_libs E)),
       ex_world = hs_world s\<rparr> = Done () e1 \<and> hasResponse (ex_response e1)
    \<and> responses t = responses s @
        [if hs_stopping s then res_set_keepAlive (lb_fields (se_libs E)) False (ex_response e1)
         else ex_response e1]
    \<and> hs_world t = ex_world e1 \<and> hs_op t = WritePosted
    \<and> (hs_stopping s \<longrightarrow> \<not> res_keepAlive (lb_fields (se_libs E)) (last (responses t)))"
proof -
  from http_reachable_inv [OF assms(1)] have env: "env_ok E" and inv: "http_inv (lb_fields (se_libs E)) s" by auto
  have F: "fields_ok (lb_fields (se_libs E))" using env by (simp add: env_ok_def libs_ok_def)
  have op: "hs_op s = ReadingBody" and t: "t = outcome_state (on_read_request E rt ip m s)"
    using assms(2) by (auto simp: http_step_def split: if_splits)
  have q: "hs_queue s = []" using inv op by (auto simp: http_inv_def)
  obtain e1 where "Router_route (se_libs E) rt
      \<lparr>ex_request = setPeerIP ip (HttpRequest m), ex_response = HttpResponse (lb_fields (se_libs E)),
       ex_world = hs_world s\<rparr> = Done () e1" and r: "hasResponse (ex_response e1)"
    using route_always_answers_lemma [OF assms(4-6)] by blast
  then show ?thesis
    using t q assms(3)
    by (cases "hs_stopping s")
       (simp_all add: on_read_request_def Let_def queue_write_empty responses_def
         res_set_keepAlive_def res_keepAlive_def fields_okD(4) [OF F])
qed

theorem request_answered_once_witness:
  "\<exists>t (e1 :: (example_h, unit, nat) exchange).
     http_step example_env example_router reading_session (BodyDone ''203.0.113.7'' close_request) t
     \<and> hasResponse (ex_response e1) \<and> responses t = responses reading_session @ [ex_response e1]"
proof -
  have env: "se_libs example_env = example_libs" "\<not> se_is_upgrade example_env close_request"
    by (simp_all add: example_env_def close_request_def)
  obtain t where step: "http_step example_env example_router reading_session (BodyDone ''203.0.113.7'' close_request) t"
    by (simp add: http_step_def reading_session_def)
  have "built_router (se_libs example_env) example_router" using env example_router_built by simp
  from request_answered_once [OF reading_session_reachable step env(2) this example_not_found_answers]
  obtain e1 :: "(example_h, unit, nat) exchange" where "hasResponse (ex_response e1)"
    and "responses t = responses reading_session @
      [if hs_stopping reading_session then res_set_keepAlive (lb_fields (se_libs example_env)) False (ex_response e1)
       else ex_response e1]" by blast
  moreover have "\<not> hs_stopping reading_session" by (simp add: reading_session_def HttpSession_def)
  ultimately show ?thesis using step by auto
qed

text \<open>After a request the parser refused, the connection carries no other request: the error response
  closes it, and the session only writes it, drains what the client still sends and ends.\<close>

theorem no_request_after_error:
  assumes "http_reachable E rt s" and "hs_linger s"
  shows "hs_op s \<in> {WritePosted, Writing False, ReadingLinger, Ended}
    \<and> (\<forall>r \<in> set (hs_queue s). \<not> res_keepAlive (lb_fields (se_libs E)) r)"
  using http_reachable_inv [OF assms(1)] assms(2) by (auto simp: http_inv_def closes_def)

theorem no_request_after_error_witness:
  "\<exists>s. exec (http_next example_env example_router) (HttpSession example_env 0) refused_events = Some s \<and> hs_linger s
     \<and> hs_op s \<in> {WritePosted, Writing False, ReadingLinger, Ended}"
proof -
  obtain s where s: "exec (http_next example_env example_router) (HttpSession example_env 0) refused_events = Some s"
    and linger: "hs_linger s"
    by (simp add: refused_events_def example_env_def HttpSession_def hs_on_run_def on_detect_def hs_do_read_def
        on_read_error_def error_status_def send_error_def queue_write_def hs_do_write_def posted_write_def
        hs_on_write_def do_eof_def do_linger_def start_op_def Let_def res_keepAlive_def res_set_keepAlive_def
        prepare_payload_done [OF alist_fields_ok] bodiless_status_def fields_okD(4,5) [OF alist_fields_ok])
  from no_request_after_error [OF http_exec_reachable [OF s example_env_ok] linger] s linger show ?thesis by blast
qed

text \<open>C29: What the client is told for a request the parser refuses, in its header or in its body: 413 for a
  body over the limit, 414 when not even the request line fitted and 431 when the headers did not,
  400 for any other malformed request, and nothing when the client went away. The error response
  is the last on its connection.\<close>

theorem refused_request_status:
  assumes "http_reachable E rt s" and "http_step E rt s e t"
    and "e = HeaderFailed ec target_empty \<or> e = BodyFailed ec target_empty"
  shows "(responses t = responses s \<and> ec \<in> {EndOfStream, PartialMessage, NeedMore, IoFailed}
        \<and> hs_op t \<in> {ShuttingDown, Ended})
    \<or> (\<exists>r. responses t = responses s @ [r] \<and> hs_linger t \<and> hs_op t = WritePosted
        \<and> \<not> res_keepAlive (lb_fields (se_libs E)) r
        \<and> (res_status r, ec) \<in> {(413, BodyLimit), (400, OtherParseError),
             (if target_empty then 414 else 431, HeaderLimit)})"
proof -
  from http_reachable_inv [OF assms(1)] have env: "env_ok E" and inv: "http_inv (lb_fields (se_libs E)) s" by auto
  have F: "fields_ok (lb_fields (se_libs E))" using env by (simp add: env_ok_def libs_ok_def)
  have op: "hs_op s \<in> {ReadingHeader, ReadingBody}" and t: "t = on_read_error E ec target_empty s"
    using assms(2,3) by (auto simp: http_step_def split: if_splits)
  let ?s = "s\<lparr>hs_waiting := False\<rparr>"
  have q: "hs_queue ?s = []" "\<not> hs_linger ?s" using inv op by (auto simp: http_inv_def)
  note sent = send_error_simps [OF F refl q(1)]
  have answered: "\<exists>r. responses (send_error E status ?s) = responses s @ [r] \<and> res_status r = status
      \<and> \<not> res_keepAlive (lb_fields (se_libs E)) r" if "\<not> bodiless_status status" for status
    using sent(2,5) [OF that] q(1) by (auto simp: responses_def closes_def)
  show ?thesis
  proof (cases "ec = EndOfStream \<or> error_status ec target_empty = None")
    case True
    then have "ec \<in> {EndOfStream, PartialMessage, NeedMore, IoFailed}" by (cases ec) (auto simp: error_status_def)
    with True t q show ?thesis by (auto simp: on_read_error_def do_eof_def responses_def Let_def)
  next
    case False
    then obtain status where status: "error_status ec target_empty = Some status" "ec \<noteq> EndOfStream" by auto
    note body = error_status_body [OF status(1)]
    from status have "(status, ec) \<in> {(413, BodyLimit), (400, OtherParseError),
        (if target_empty then 414 else 431, HeaderLimit)}" by (cases ec) (auto simp: error_status_def)
    with answered [OF body] sent(1,3) [OF body] t status show ?thesis by (auto simp: on_read_error_def)
  qed
qed

theorem refused_request_status_witness:
  "\<exists>s t u r q. http_step example_env example_router s (HeaderFailed HeaderLimit True) t
     \<and> responses t = responses s @ [r] \<and> res_status r = 414
     \<and> http_step example_env example_router reading_session (BodyFailed BodyLimit False) u
     \<and> responses u = responses reading_session @ [q] \<and> res_status q = 413"
proof -
  let ?s = "(HttpSession example_env 0)\<lparr>hs_op := ReadingHeader, hs_waiting := True\<rparr> :: (example_h, nat) http_session"
  have "exec (http_next example_env example_router) (HttpSession example_env 0) [OnRun, DetectDone False False] = Some ?s"
    by (simp add: http_exec_defs)
  then have reach: "http_reachable example_env example_router ?s"
    by (rule http_exec_reachable) (rule example_env_ok)
  obtain t where t: "http_step example_env example_router ?s (HeaderFailed HeaderLimit True) t"
    by (simp add: http_step_def)
  obtain u where u: "http_step example_env example_router reading_session (BodyFailed BodyLimit False) u"
    by (simp add: http_step_def reading_session_def)
  obtain r where "responses t = responses ?s @ [r]" "res_status r = 414"
    using refused_request_status [OF reach t, of HeaderLimit True] by auto
  moreover obtain q where "responses u = responses reading_session @ [q]" "res_status q = 413"
    using refused_request_status [OF reading_session_reachable u, of BodyLimit False] by auto
  ultimately show ?thesis using t u by blast
qed

text \<open>Once the server is stopping, a connection never reads another request after a response: a step
  that starts reading a header then comes from the TLS detection or handshake only.\<close>

theorem no_next_request_when_stopping:
  assumes "http_step E rt s e t" and "hs_stopping s" and "hs_op t = ReadingHeader" and "hs_op s \<noteq> ReadingHeader"
  shows "hs_op s \<in> {Detecting, Handshaking}"
proof (cases e)
  case (WriteCompletes failed)
  with assms show ?thesis
    by (auto simp: http_step_def hs_on_write_def hs_do_write_def do_eof_def do_linger_def
        split: io_op.splits if_splits)
next
  case (BodyDone ip m)
  with assms show ?thesis
    by (auto simp: http_step_def on_read_request_def Let_def queue_write_def hs_do_write_def
        split: outcome.splits if_splits)
next
  case (HeaderFailed ec te)
  with assms show ?thesis by (auto simp: http_step_def split: if_splits)
next
  case (BodyFailed ec te)
  with assms show ?thesis
    by (auto simp: http_step_def on_read_error_def send_error_def queue_write_def hs_do_write_def do_eof_def
        do_linger_def Let_def split: if_splits option.splits outcome.splits)
qed (use assms in \<open>auto simp: http_step_def hs_on_run_def on_stop_def on_detect_def on_handshake_def
      on_read_header_def on_continue_written_def read_body_def posted_write_def on_linger_def Let_def
      split: if_splits list.splits\<close>)

theorem no_next_request_when_stopping_witness:
  "hs_op ((HttpSession example_env 0)\<lparr>hs_op := Detecting, hs_stopping := True\<rparr> :: (example_h, nat) http_session)
     \<in> {Detecting, Handshaking}"
proof (rule no_next_request_when_stopping)
  let ?s = "(HttpSession example_env 0)\<lparr>hs_op := Detecting, hs_stopping := True\<rparr> :: (example_h, nat) http_session"
  show "http_step example_env example_router ?s (DetectDone False False) (on_detect example_env False False ?s)"
    by (simp add: http_step_def)
qed (simp_all add: http_exec_defs)

text \<open>C39: A client that asks for the connection to be closed after its request is not obeyed: the response
  is kept alive unless a handler closes it, and the session reads another request.\<close>

theorem request_close_ignored:
  assumes "http_reachable E rt s" and "http_step E rt s (BodyDone ip m) t"
    and "\<not> se_is_upgrade E m" and "\<not> hs_stopping s"
    and "\<not> bf_keep_alive (lb_fields (se_libs E)) (rq_version m) (rq_fields m)"
    and "Router_route (se_libs E) rt
      \<lparr>ex_request = setPeerIP ip (HttpRequest m), ex_response = HttpResponse (lb_fields (se_libs E)),
       ex_world = hs_world s\<rparr> = Done () e1" and "res_keepAlive (lb_fields (se_libs E)) (ex_response e1)"
  shows "\<exists>u. exec (http_next E rt) t [PostedWriteRuns, WriteCompletes False] = Some u \<and> hs_op u = ReadingHeader"
proof -
  have inv: "http_inv (lb_fields (se_libs E)) s" using http_reachable_inv [OF assms(1)] by simp
  have op: "hs_op s = ReadingBody" and t: "t = outcome_state (on_read_request E rt ip m s)"
    using assms(2) by (auto simp: http_step_def split: if_splits)
  have q: "hs_queue s = []" using inv op by (auto simp: http_inv_def)
  have "t = queue_write (ex_response e1) (s\<lparr>hs_waiting := False, hs_world := ex_world e1\<rparr>)"
    using t assms(3,4,6) by (simp add: on_read_request_def Let_def)
  with q assms(4,7) show ?thesis
    by (simp add: queue_write_empty posted_write_def hs_on_write_def hs_do_read_def)
qed

theorem request_close_ignored_witness:
  "\<exists>t u. http_step example_env example_router reading_session (BodyDone ''203.0.113.7'' close_request) t
     \<and> exec (http_next example_env example_router) t [PostedWriteRuns, WriteCompletes False] = Some u
     \<and> hs_op u = ReadingHeader"
proof -
  let ?e = "\<lparr>ex_request = setPeerIP ''203.0.113.7'' (HttpRequest close_request),
      ex_response = HttpResponse alist_fields, ex_world = hs_world reading_session\<rparr>
    :: (example_h, unit, nat) exchange"
  have resolve: "tp_resolve alist_fields example_asio TrustedProxies_init ''203.0.113.7'' [(''Connection'', ''close'')]
      = Some ''203.0.113.7''" by code_simp
  have env: "se_libs example_env = example_libs" "\<not> se_is_upgrade example_env close_request"
    by (simp_all add: example_env_def close_request_def)
  obtain t where step: "http_step example_env example_router reading_session (BodyDone ''203.0.113.7'' close_request) t"
    by (simp add: http_step_def reading_session_def)
  have path: "lb_url_path example_libs ''/u/7'' = Some ''/u/7''" by (simp add: example_libs_def)
  have answered: "\<not> hasResponse (HttpResponse alist_fields)" "hasResponse (sent alist_fields 200 b r)" for b r
    by (simp_all add: hasResponse_def HttpResponse_def)
  obtain e1 p where route: "Router_route example_libs example_router ?e = Done () e1"
    and sent: "ex_response e1 = sent alist_fields 200 p (HttpResponse alist_fields)"
    by (simp add: Router_route_def example_router_def Router_init_def example_routes_def close_request_def
        setPeerIP_def setIP_def HttpRequest_def resolve path pathMatch_def path_match_def isWebSocket_def
        example_match methodMatch_def serve_route_def Route_call_def greet_def responding_def set_params_def
        send_done [OF alist_fields_ok] bodiless_status_def answered)
  have "res_keepAlive alist_fields (ex_response e1)"
    by (simp add: sent res_keepAlive_def HttpResponse_def send_defs alist_fields_def)
  then have "\<exists>u. exec (http_next example_env example_router) t [PostedWriteRuns, WriteCompletes False] = Some u
      \<and> hs_op u = ReadingHeader"
    using route env by (intro request_close_ignored [OF reading_session_reachable step])
      (simp_all add: reading_session_def HttpSession_def, simp add: close_request_def alist_fields_def)
  with step show ?thesis by blast
qed

text \<open>A stop that reaches a session before its first handler is lost: the posted task finds nothing to
  cancel, the session then waits for the client although the server is stopping.\<close>

theorem early_stop_is_lost:
  "\<exists>s. exec (http_next E rt) (HttpSession E w) [RegistryStops, StopTask, OnRun] = Some s
     \<and> hs_stopping s \<and> hs_waiting s \<and> \<not> hs_cancelled s \<and> hs_op s \<in> {Detecting, Handshaking}"
  by (simp add: HttpSession_def on_stop_def hs_on_run_def)

end
