(* ===== verification/SessionShutdown.thy ===== *)
theory SessionShutdown
  imports HttpSession
begin

text \<open>
  What becomes of one HTTP session of \<^theory_text>\<open>HttpSession\<close> once the server is stopping: it makes
  at most one more response, and it ends.
\<close>

section \<open>The last response\<close>

text \<open>Whether a request can still come in on a connection that will not read another one.\<close>

definition can_answer :: "io_op \<Rightarrow> nat" where
  "can_answer op =
     (case op of WritePosted \<Rightarrow> 0 | Writing k \<Rightarrow> 0 | ShuttingDown \<Rightarrow> 0 | ReadingLinger \<Rightarrow> 0 | Upgraded \<Rightarrow> 0 | Ended \<Rightarrow> 0 | _ \<Rightarrow> 1)"

abbreviation may_answer :: "('h, 'w) http_session \<Rightarrow> nat" where
  "may_answer s \<equiv> can_answer (hs_op s)"

lemma can_answer_simps [simp]:
  "can_answer NotStarted = 1" "can_answer Detecting = 1" "can_answer Handshaking = 1" "can_answer ReadingHeader = 1"
  "can_answer WritingContinue = 1" "can_answer ReadingBody = 1" "can_answer WritePosted = 0" "can_answer (Writing k) = 0"
  "can_answer ShuttingDown = 0" "can_answer ReadingLinger = 0" "can_answer Upgraded = 0" "can_answer Ended = 0"
  by (simp_all add: can_answer_def)

lemma can_answer_le: "can_answer op \<le> 1"
  by (cases op) simp_all

lemma queue_write_responses:
  assumes "hs_queue s = []"
  shows "responses (queue_write r s) = responses s @ [r]" and "may_answer (queue_write r s) = 0"
  using queue_write_empty [OF assms] assms by (simp_all add: responses_def)

lemma send_error_cases:
  obtains "send_error E status s = start_op Ended s"
  | r where "send_error E status s = queue_write r (s\<lparr>hs_linger := True\<rparr>)"
  unfolding send_error_def Let_def
  by (cases "prepare_payload (lb_fields (se_libs E)) (res_set_keepAlive (lb_fields (se_libs E)) False
      ((res_header (lb_fields (se_libs E)) ''Content-Type'' ''text/plain''
        (HttpResponse (lb_fields (se_libs E))\<lparr>res_status := status\<rparr>))\<lparr>res_body := se_reason E status\<rparr>))") auto

lemma send_error_responses:
  assumes "hs_queue s = []"
  shows "length (responses (send_error E status s)) + may_answer (send_error E status s) \<le> length (responses s) + 1"
    and "hs_stopping (send_error E status s) = hs_stopping s"
  using queue_write_responses [of "s\<lparr>hs_linger := True\<rparr>"] queue_write_empty(6) [of "s\<lparr>hs_linger := True\<rparr>"] assms
  by (cases rule: send_error_cases [of E status s]; simp add: responses_def)+

lemma do_eof_responses:
  "responses (do_eof s) = responses s" "may_answer (do_eof s) = 0" "hs_stopping (do_eof s) = hs_stopping s"
  by (simp_all add: do_eof_def do_linger_def responses_def)

definition one_more :: "('h, 'w) http_session \<Rightarrow> ('h, 'w) http_session \<Rightarrow> bool" where
  "one_more s t \<longleftrightarrow> length (responses t) + may_answer t \<le> length (responses s) + 1 \<and> hs_stopping t = hs_stopping s"

lemma one_more_cases:
  assumes "hs_queue u = []" and "responses u = responses s" and "hs_stopping u = hs_stopping s"
  shows "one_more s (queue_write r u)" and "one_more s (send_error E status u)" and "one_more s (do_eof u)"
    and "one_more s (start_op op u)"
proof -
  show "one_more s (queue_write r u)"
    using queue_write_responses [OF assms(1), of r] queue_write_empty(6) [OF assms(1), of r] assms(2,3)
    by (simp add: one_more_def)
  show "one_more s (send_error E status u)"
    using send_error_responses [OF assms(1), of E status] assms(2,3) by (simp add: one_more_def)
  show "one_more s (do_eof u)" using do_eof_responses [of u] assms(2,3) by (simp add: one_more_def)
  show "one_more s (start_op op u)" using assms(2,3) can_answer_le [of op] by (simp add: one_more_def responses_def)
qed

lemma read_error_responses:
  assumes "hs_queue s = []"
  shows "one_more s (on_read_error E ec te s)"
proof -
  have u: "hs_queue (s\<lparr>hs_waiting := False\<rparr>) = []" "responses (s\<lparr>hs_waiting := False\<rparr>) = responses s"
    "hs_stopping (s\<lparr>hs_waiting := False\<rparr>) = hs_stopping s"
    using assms by (simp_all add: responses_def)
  show ?thesis
    by (cases "error_status ec te") (simp_all add: on_read_error_def Let_def one_more_cases [OF u])
qed

lemma request_responses:
  assumes "hs_queue s = []"
  shows "one_more s (outcome_state (on_read_request E rt ip m s))"
proof -
  have u: "hs_queue (s\<lparr>hs_waiting := False\<rparr>) = []" "responses (s\<lparr>hs_waiting := False\<rparr>) = responses s"
    "hs_stopping (s\<lparr>hs_waiting := False\<rparr>) = hs_stopping s"
    using assms by (simp_all add: responses_def)
  have v: "hs_queue (s\<lparr>hs_waiting := False, hs_world := v\<rparr>) = []"
    "responses (s\<lparr>hs_waiting := False, hs_world := v\<rparr>) = responses s"
    "hs_stopping (s\<lparr>hs_waiting := False, hs_world := v\<rparr>) = hs_stopping s" for v
    using assms by (simp_all add: responses_def)
  show ?thesis
    by (simp add: on_read_request_def Let_def one_more_cases [OF u] one_more_cases [OF v] split: outcome.split)
qed

lemma stopping_session_step:
  assumes "http_inv F s" and "hs_stopping s" and "http_step E rt s e t"
  shows "hs_stopping t \<and> length (responses t) + may_answer t \<le> length (responses s) + may_answer s"
proof (cases e)
  case (HeaderFailed ec te)
  with assms have t: "hs_op s = ReadingHeader" "t = on_read_error E ec te s" by (auto simp: http_step_def split: if_splits)
  then have "hs_queue s = []" using assms(1) by (auto simp: http_inv_def)
  from read_error_responses [OF this, of E ec te] t assms(2) show ?thesis by (simp add: one_more_def)
next
  case (BodyFailed ec te)
  with assms have t: "hs_op s = ReadingBody" "t = on_read_error E ec te s" by (auto simp: http_step_def split: if_splits)
  then have "hs_queue s = []" using assms(1) by (auto simp: http_inv_def)
  from read_error_responses [OF this, of E ec te] t assms(2) show ?thesis by (simp add: one_more_def)
next
  case (BodyDone ip m)
  with assms have t: "hs_op s = ReadingBody" "t = outcome_state (on_read_request E rt ip m s)"
    by (auto simp: http_step_def split: if_splits)
  then have "hs_queue s = []" using assms(1) by (auto simp: http_inv_def)
  from request_responses [OF this, of E rt ip m] t assms(2) show ?thesis by (simp add: one_more_def)
next
  case (WriteCompletes failed)
  with assms obtain k where t: "hs_op s = Writing k" "t = hs_on_write k failed s" by (auto simp: http_step_def split: io_op.splits)
  then have "hs_queue s = []" using assms(1) by (auto simp: http_inv_def)
  with t assms(2) do_eof_responses [of s] show ?thesis by (simp add: hs_on_write_def)
next
  case PostedWriteRuns
  with assms have "hs_op s = WritePosted" "t = posted_write (lb_fields (se_libs E)) s"
    by (auto simp: http_step_def split: if_splits)
  with assms(1,2) show ?thesis
    by (auto simp: posted_write_def responses_def http_inv_def split: list.split)
next
  case OnRun
  with assms(3) have "hs_op s = NotStarted" "t = hs_on_run s" by (auto simp: http_step_def split: if_splits)
  with assms(2) show ?thesis by (simp add: hs_on_run_def responses_def)
next
  case (DetectDone failed tls)
  with assms(3) have "hs_op s = Detecting" "t = on_detect E failed tls s" by (auto simp: http_step_def split: if_splits)
  with assms(2) show ?thesis
    by (simp add: on_detect_def on_ssl_session_def hs_do_read_def responses_def Let_def)
next
  case (HandshakeDone failed)
  with assms(3) have "hs_op s = Handshaking" "t = on_handshake failed s" by (auto simp: http_step_def split: if_splits)
  with assms(2) show ?thesis
    by (simp add: on_handshake_def hs_do_read_def responses_def Let_def)
next
  case (HeaderDone header)
  with assms(3) have "hs_op s = ReadingHeader" "t = on_read_header E header (s\<lparr>hs_got_some := True\<rparr>)"
    by (auto simp: http_step_def split: if_splits)
  with assms(2) show ?thesis by (simp add: on_read_header_def read_body_def responses_def)
next
  case (ContinueDone failed)
  with assms(3) have "hs_op s = WritingContinue" "t = on_continue_written failed s"
    by (auto simp: http_step_def split: if_splits)
  with assms(2) show ?thesis by (simp add: on_continue_written_def read_body_def responses_def)
next
  case (LingerDone failed)
  with assms(3) have "hs_op s = ReadingLinger" "t = on_linger failed s" by (auto simp: http_step_def split: if_splits)
  with assms(2) show ?thesis by (simp add: on_linger_def responses_def)
next
  case StopTask
  with assms(3) have "t = on_stop s" by (simp add: http_step_def)
  with assms(2) show ?thesis by (simp add: on_stop_def responses_def)
next
  case RegistryStops
  with assms(3) have "t = s\<lparr>hs_stopping := True\<rparr>" by (simp add: http_step_def)
  with assms(2) show ?thesis by (simp add: responses_def)
next
  case Received
  with assms(3) have "t = s\<lparr>hs_got_some := True\<rparr>" by (auto simp: http_step_def split: if_splits)
  with assms(2) show ?thesis by (simp add: responses_def)
next
  case ShutdownDone
  with assms(3) have "t = start_op Ended s" by (auto simp: http_step_def split: if_splits)
  with assms(2) show ?thesis by (simp add: responses_def)
qed

section \<open>A stopping session ends\<close>

text \<open>The events that bring a session on: not the ones of a stop, of data, or of drained input.\<close>

fun brings_on :: "'h http_event \<Rightarrow> bool" where
  "brings_on RegistryStops = False"
| "brings_on StopTask = False"
| "brings_on Received = False"
| "brings_on (LingerDone failed) = failed"
| "brings_on e = True"

definition op_rank :: "io_op \<Rightarrow> nat" where
  "op_rank op =
     (case op of NotStarted \<Rightarrow> 9 | Detecting \<Rightarrow> 8 | Handshaking \<Rightarrow> 7 | ReadingHeader \<Rightarrow> 6 | WritingContinue \<Rightarrow> 5
      | ReadingBody \<Rightarrow> 4 | WritePosted \<Rightarrow> 3 | Writing k \<Rightarrow> 2 | ShuttingDown \<Rightarrow> 1 | ReadingLinger \<Rightarrow> 1
      | Upgraded \<Rightarrow> 0 | Ended \<Rightarrow> 0)"

lemma op_rank_simps [simp]:
  "op_rank NotStarted = 9" "op_rank Detecting = 8" "op_rank Handshaking = 7" "op_rank ReadingHeader = 6"
  "op_rank WritingContinue = 5" "op_rank ReadingBody = 4" "op_rank WritePosted = 3" "op_rank (Writing k) = 2"
  "op_rank ShuttingDown = 1" "op_rank ReadingLinger = 1" "op_rank Upgraded = 0" "op_rank Ended = 0"
  by (simp_all add: op_rank_def)

lemma op_rank_le: "op_rank op \<le> 9"
  by (cases op) simp_all

lemma rank_after:
  assumes "hs_queue u = []"
  shows "op_rank (hs_op (queue_write r u)) = 3" and "op_rank (hs_op (send_error E status u)) \<le> 3"
    and "op_rank (hs_op (do_eof u)) \<le> 1"
  using queue_write_empty(1) [OF assms] queue_write_empty(1) [of "u\<lparr>hs_linger := True\<rparr>"] assms
  by (cases rule: send_error_cases [of E status u]; simp add: do_eof_def do_linger_def)+

lemma rank_read_error:
  assumes "hs_queue s = []"
  shows "op_rank (hs_op (on_read_error E ec te s)) \<le> 3"
proof -
  have u: "hs_queue (s\<lparr>hs_waiting := False\<rparr>) = []" using assms by simp
  have "op_rank (hs_op (do_eof (s\<lparr>hs_waiting := False\<rparr>))) \<le> 3" using rank_after(3) [OF u] by simp
  then show ?thesis
    by (cases "error_status ec te") (simp_all add: on_read_error_def Let_def rank_after(2) [OF u])
qed

lemma rank_request:
  assumes "hs_queue s = []"
  shows "op_rank (hs_op (outcome_state (on_read_request E rt ip m s))) \<le> 3"
proof -
  have v: "hs_queue (s\<lparr>hs_waiting := False, hs_world := v\<rparr>) = []" for v using assms by simp
  show ?thesis by (simp add: on_read_request_def Let_def rank_after(1) [OF v] split: outcome.split)
qed

lemma stopping_rank_step:
  assumes "http_inv F s" and "hs_stopping s" and "http_step E rt s e t"
  shows "op_rank (hs_op t) + of_bool (brings_on e) \<le> op_rank (hs_op s)"
proof (cases e)
  case (HeaderFailed ec te)
  with assms have t: "hs_op s = ReadingHeader" "t = on_read_error E ec te s" by (auto simp: http_step_def split: if_splits)
  then have "hs_queue s = []" using assms(1) by (auto simp: http_inv_def)
  from rank_read_error [OF this, of E ec te] t HeaderFailed show ?thesis by simp
next
  case (BodyFailed ec te)
  with assms have t: "hs_op s = ReadingBody" "t = on_read_error E ec te s" by (auto simp: http_step_def split: if_splits)
  then have "hs_queue s = []" using assms(1) by (auto simp: http_inv_def)
  from rank_read_error [OF this, of E ec te] t BodyFailed show ?thesis by simp
next
  case (BodyDone ip m)
  with assms have t: "hs_op s = ReadingBody" "t = outcome_state (on_read_request E rt ip m s)"
    by (auto simp: http_step_def split: if_splits)
  then have "hs_queue s = []" using assms(1) by (auto simp: http_inv_def)
  from rank_request [OF this, of E rt ip m] t BodyDone show ?thesis by simp
next
  case (WriteCompletes failed)
  with assms obtain k where t: "hs_op s = Writing k" "t = hs_on_write k failed s" by (auto simp: http_step_def split: io_op.splits)
  then have "hs_queue s = []" using assms(1) by (auto simp: http_inv_def)
  with t assms(2) rank_after(3) [of s] WriteCompletes show ?thesis by (simp add: hs_on_write_def)
next
  case PostedWriteRuns
  with assms have "hs_op s = WritePosted" "t = posted_write (lb_fields (se_libs E)) s"
    by (auto simp: http_step_def split: if_splits)
  with PostedWriteRuns show ?thesis by (simp add: posted_write_def split: list.split)
next
  case OnRun
  with assms(3) have "hs_op s = NotStarted" "t = hs_on_run s" by (auto simp: http_step_def split: if_splits)
  with OnRun show ?thesis by (simp add: hs_on_run_def)
next
  case (DetectDone failed tls)
  with assms(3) have "hs_op s = Detecting" "t = on_detect E failed tls s" by (auto simp: http_step_def split: if_splits)
  with DetectDone show ?thesis by (simp add: on_detect_def on_ssl_session_def hs_do_read_def Let_def)
next
  case (HandshakeDone failed)
  with assms(3) have "hs_op s = Handshaking" "t = on_handshake failed s" by (auto simp: http_step_def split: if_splits)
  with HandshakeDone show ?thesis by (simp add: on_handshake_def hs_do_read_def Let_def)
next
  case (HeaderDone header)
  with assms(3) have "hs_op s = ReadingHeader" "t = on_read_header E header (s\<lparr>hs_got_some := True\<rparr>)"
    by (auto simp: http_step_def split: if_splits)
  with HeaderDone show ?thesis by (simp add: on_read_header_def read_body_def)
next
  case (ContinueDone failed)
  with assms(3) have "hs_op s = WritingContinue" "t = on_continue_written failed s"
    by (auto simp: http_step_def split: if_splits)
  with ContinueDone show ?thesis by (simp add: on_continue_written_def read_body_def)
next
  case (LingerDone failed)
  with assms(3) have "hs_op s = ReadingLinger" "t = on_linger failed s" by (auto simp: http_step_def split: if_splits)
  with LingerDone show ?thesis by (simp add: on_linger_def)
next
  case StopTask
  with assms(3) have "t = on_stop s" by (simp add: http_step_def)
  with StopTask show ?thesis by (simp add: on_stop_def)
next
  case RegistryStops
  with assms(3) have "t = s\<lparr>hs_stopping := True\<rparr>" by (simp add: http_step_def)
  with RegistryStops show ?thesis by simp
next
  case Received
  with assms(3) have "t = s\<lparr>hs_got_some := True\<rparr>" by (auto simp: http_step_def split: if_splits)
  with Received show ?thesis by simp
next
  case ShutdownDone
  with assms(3) have "hs_op s = ShuttingDown" "t = start_op Ended s" by (auto simp: http_step_def split: if_splits)
  with ShutdownDone show ?thesis by simp
qed

lemma stopping_rank_run:
  assumes "run (http_step E rt) s es t" and "env_ok E" and "http_inv (lb_fields (se_libs E)) s" and "hs_stopping s"
  shows "op_rank (hs_op t) + length (filter brings_on es) \<le> op_rank (hs_op s)"
  using assms
proof (induction rule: run.induct)
  case (run_cons s e t es u)
  have "http_inv (lb_fields (se_libs E)) t"
    by (rule http_inv_step [OF run_cons.prems(2) _ refl run_cons.hyps(1)]) (use run_cons.prems(1) in \<open>simp add: env_ok_def libs_ok_def\<close>)
  moreover have "hs_stopping t" using stopping_session_step [OF run_cons.prems(2,3) run_cons.hyps(1)] by simp
  ultimately have "op_rank (hs_op u) + length (filter brings_on es) \<le> op_rank (hs_op t)"
    using run_cons.IH run_cons.prems(1) by simp
  with stopping_rank_step [OF run_cons.prems(2,3) run_cons.hyps(1)] show ?case by (cases "brings_on e") simp_all
qed simp

text \<open>C12: A stopping HTTP connection ends: whatever its operations report it completes at most nine of them,
  not counting the input it drains after an error response, and until it ended or became a
  WebSocket there is one that brings it on.\<close>

theorem stopping_session_ends:
  assumes "http_reachable E rt s" and "hs_stopping s" and "run (http_step E rt) s es t"
  shows "length (filter brings_on es) \<le> 9 \<and> (hs_op t \<in> {Ended, Upgraded} \<or> (\<exists>e u. brings_on e \<and> http_step E rt t e u))"
proof
  from http_reachable_inv [OF assms(1)] stopping_rank_run [OF assms(3)] assms(2) op_rank_le [of "hs_op s"]
  show "length (filter brings_on es) \<le> 9" by force
  have can: "\<exists>e u. brings_on e \<and> http_step E rt t e u" if "http_next E rt t e = Some u" "brings_on e" for e u
    using that unfolding http_step_def by blast
  show "hs_op t \<in> {Ended, Upgraded} \<or> (\<exists>e u. brings_on e \<and> http_step E rt t e u)"
  proof (cases "hs_op t")
    case NotStarted
    then show ?thesis using can [of OnRun] by simp
  next
    case Detecting
    then show ?thesis using can [of "DetectDone True False"] by simp
  next
    case Handshaking
    then show ?thesis using can [of "HandshakeDone True"] by simp
  next
    case ReadingHeader
    then show ?thesis using can [of "HeaderFailed IoFailed True"] by simp
  next
    case WritingContinue
    then show ?thesis using can [of "ContinueDone True"] by simp
  next
    case ReadingBody
    then show ?thesis using can [of "BodyFailed IoFailed True"] by simp
  next
    case WritePosted
    then show ?thesis using can [of PostedWriteRuns] by simp
  next
    case (Writing k)
    then show ?thesis using can [of "WriteCompletes True"] by simp
  next
    case ShuttingDown
    then show ?thesis using can [of ShutdownDone] by simp
  next
    case ReadingLinger
    then show ?thesis using can [of "LingerDone True"] by simp
  qed simp_all
qed

theorem stopping_session_ends_witness:
  "\<exists>s t. run (http_step example_env example_router) s [BodyDone ''203.0.113.7'' close_request, PostedWriteRuns, WriteCompletes False] t
     \<and> hs_stopping s \<and> hs_op t = Ended"
proof -
  let ?s = "reading_session\<lparr>hs_stopping := True\<rparr>"
  have "exec (http_next example_env example_router) reading_session [RegistryStops] = Some ?s" by simp
  then have reach: "http_reachable example_env example_router ?s"
    using reading_session_reachable unfolding http_reachable_def
    by (rule exec_reachable) (simp add: http_step_def)
  let ?es = "[BodyDone ''203.0.113.7'' close_request, PostedWriteRuns, WriteCompletes False]"
  have "case exec (http_next example_env example_router) ?s ?es of Some t \<Rightarrow> hs_op t = Ended | None \<Rightarrow> False" by code_simp
  then obtain t where t: "exec (http_next example_env example_router) ?s ?es = Some t" "hs_op t = Ended"
    by (auto split: option.splits)
  from t(1) have run: "run (http_step example_env example_router) ?s ?es t" by (rule exec_run) (simp add: http_step_def)
  from stopping_session_ends [OF reach _ run] run t(2) show ?thesis by (intro exI [of _ ?s] exI [of _ t]) simp
qed

end
