(* ===== verification/SendQueue.thy ===== *)
theory SendQueue
  imports Prelude "HOL-Library.Multiset" "HOL-Library.Sublist"
begin

text \<open>
  The contract shared by the write queues of the server's and the client's WebSocket connections:
  a message is accepted at the back, written from the front, and lost only when the whole queue is
  dropped. Its consequences, order and conservation, are proved once here.
\<close>

locale send_queue =
  fixes init :: "'s \<Rightarrow> bool"
    and step :: "'s \<Rightarrow> 'e \<Rightarrow> 's \<Rightarrow> bool"
    and queue :: "'s \<Rightarrow> 'm list"
    and accepted :: "'s \<Rightarrow> 'm list"
    and written :: "'s \<Rightarrow> 'm list"
    and lost :: "'s \<Rightarrow> 'm list"
  assumes init_empty: "init s \<Longrightarrow> queue s = [] \<and> accepted s = [] \<and> written s = [] \<and> lost s = []"
    and step_queue: "reachable init step s \<Longrightarrow> step s e t \<Longrightarrow>
        queue t = queue s \<and> accepted t = accepted s \<and> written t = written s \<and> lost t = lost s
      \<or> (\<exists>m. queue t = queue s @ [m] \<and> accepted t = accepted s @ [m] \<and> written t = written s \<and> lost t = lost s)
      \<or> (\<exists>m. queue s = m # queue t \<and> accepted t = accepted s \<and> written t = written s @ [m] \<and> lost t = lost s)
      \<or> queue t = [] \<and> accepted t = accepted s \<and> written t = written s \<and> lost t = lost s @ queue s"
begin

lemma in_order: "reachable init step s \<Longrightarrow> subseq (written s @ queue s) (accepted s)"
proof (induction rule: reachable.induct)
  case (reachable_init s)
  then show ?case using init_empty by simp
next
  case (reachable_step s e t)
  have drop: "subseq (written s) (accepted s)"
    using reachable_step.IH by (metis subseq_order.order_trans subseq_rev_drop_many subseq_order.order_refl)
  have snoc: "subseq (written s @ queue s @ [m]) (accepted s @ [m])" for m
    using list_emb_append_mono [OF reachable_step.IH subseq_order.order_refl [of "[m]"]] by simp
  from step_queue [OF reachable_step.hyps] show ?case
    using reachable_step.IH drop snoc by auto
qed

lemma conserved:
  "reachable init step s \<Longrightarrow> mset (accepted s) = mset (written s) + mset (queue s) + mset (lost s)"
proof (induction rule: reachable.induct)
  case (reachable_init s)
  then show ?case using init_empty by simp
next
  case (reachable_step s e t)
  from step_queue [OF reachable_step.hyps] reachable_step.IH show ?case by auto
qed

lemma nothing_lost: "reachable init step s \<Longrightarrow> lost s = [] \<Longrightarrow> accepted s = written s @ queue s"
proof -
  assume s: "reachable init step s" "lost s = []"
  then have "length (accepted s) = length (written s @ queue s)"
    using conserved [OF s(1)] by (metis add.right_neutral mset.simps(1) mset_append mset_eq_length)
  then show ?thesis using in_order [OF s(1)] by (metis subseq_same_length)
qed

end

end
