(* ===== verification/WebSocketSession.thy ===== *)
theory WebSocketSession
  imports Router SendQueue
begin

text \<open>
  \<^verbatim>\<open>WebSocketSession\<close> of include/cppgate/WebSocketSession.h: one server-side connection after its
  upgrade. Its handlers run on one strand; \<^verbatim>\<open>send*\<close> and \<^verbatim>\<open>close\<close> come
  from any thread and post tasks to that strand, which runs them in order. The stream's operations
  (accept, read, write, close) are events that complete with a result; at most one of each is in
  flight.
\<close>

section \<open>State\<close>

type_synonym ws_message = "string \<times> bool"

datatype strand_task = TaskSend ws_message | TaskClose close_code

datatype session_phase = Accepting | Running | NotAccepted

text \<open>
  \<open>ws_open\<close> is the stream's \<^verbatim>\<open>is_open\<close>. The fields from \<open>wss_calls\<close> on are a
  record of what happened, which no operation reads.
\<close>

record ('h, 'c, 'b, 'ec) ws_session =
  wss_phase :: session_phase
  wss_context :: "('h, 'c, 'b) ws_context"
  wss_queue :: "ws_message list"
  wss_pending :: nat
  wss_posted :: "strand_task list"
  wss_writing :: "ws_message option"
  wss_reading :: bool
  wss_closing :: bool
  wss_close_op :: "close_code option"
  ws_open :: bool
  wss_calls :: "('b, 'ec) ws_call list"
  wss_accepted :: "ws_message list"
  wss_written :: "ws_message list"
  wss_lost :: "ws_message list"

definition WebSocketSession :: "('h, 'c, 'b) ws_context \<Rightarrow> ('h, 'c, 'b, 'ec) ws_session" where
  "WebSocketSession c =
     \<lparr>wss_phase = Accepting, wss_context = c, wss_queue = [], wss_pending = 0, wss_posted = [],
      wss_writing = None, wss_reading = False, wss_closing = False, wss_close_op = None, ws_open = False,
      wss_calls = [], wss_accepted = [], wss_written = [], wss_lost = []\<rparr>"

section \<open>Starting a session\<close>

text \<open>The response of a refused upgrade, as it is written.\<close>

definition do_reject :: "'h fields_lib \<Rightarrow> 'h request_msg \<Rightarrow> 'h sending" where
  "do_reject F request response =
     (case (if \<not> hasResponse response then res_send F 500 ''Internal Server Error'' response
            else Done () response) of
        Threw r \<Rightarrow> Threw r
      | Done u r1 \<Rightarrow>
          (let r2 = res_set_version (rq_version request) r1;
               r3 = res_set_keepAlive F False r2
           in prepare_payload F r3))"

text \<open>
  \<^verbatim>\<open>run\<close>: \<open>added\<close> is the answer of the registry. The response of a refusal, or the
  context to accept; \<open>Threw\<close> is an exception that leaves \<^verbatim>\<open>Router::upgrade\<close> or a
  send.
\<close>

datatype ('h, 'c, 'b, 'w) run_result =
    RunRejected "'h http_response"
  | RunAccepting "('h, 'c, 'b, 'w) ws_exchange"

fun rejecting ::
  "('h, 'c, 'b, 'w) ws_exchange \<Rightarrow> ('h http_response, unit) outcome
     \<Rightarrow> (('h, 'c, 'b, 'w) upgrade_state, ('h, 'c, 'b, 'w) run_result) outcome" where
  "rejecting x (Done u r) = Done (RunRejected r) (x, r)"
| "rejecting x (Threw r) = Threw (x, r)"

definition session_run ::
  "('h, 'p) libs \<Rightarrow> ('h, 'c, 'b, 'w, 'p) router \<Rightarrow> bool \<Rightarrow> ('h, 'c, 'b, 'w) ws_exchange
     \<Rightarrow> (('h, 'c, 'b, 'w) upgrade_state, ('h, 'c, 'b, 'w) run_result) outcome" where
  "session_run L rt added x =
     (let F = lb_fields L; response = HttpResponse F; request = wc_request (wx_context x) in
      if \<not> added then
        (case res_send F 503 ''Server is shutting down'' response of
           Threw r \<Rightarrow> Threw (x, r)
         | Done u r \<Rightarrow> rejecting x (do_reject F request r))
      else case Router_upgrade L rt (x, response) of
        Threw s \<Rightarrow> Threw s
      | Done ok s \<Rightarrow>
          if ok then Done (RunAccepting (fst s)) s
          else rejecting (fst s) (do_reject F request (snd s)))"

section \<open>Operations from any thread\<close>

definition send_internal :: "ws_message \<Rightarrow> ('h, 'c, 'b, 'ec) ws_session \<Rightarrow> ('h, 'c, 'b, 'ec) ws_session" where
  "send_internal m s = s\<lparr>wss_pending := wss_pending s + 1, wss_posted := wss_posted s @ [TaskSend m]\<rparr>"

definition session_close :: "close_code \<Rightarrow> ('h, 'c, 'b, 'ec) ws_session \<Rightarrow> ('h, 'c, 'b, 'ec) ws_session" where
  "session_close code s = s\<lparr>wss_posted := wss_posted s @ [TaskClose code]\<rparr>"

section \<open>Operations on the strand\<close>

definition do_write :: "('h, 'c, 'b, 'ec) ws_session \<Rightarrow> ('h, 'c, 'b, 'ec) ws_session" where
  "do_write s = (case wss_queue s of [] \<Rightarrow> s | m # ms \<Rightarrow> s\<lparr>wss_writing := Some m\<rparr>)"

definition do_read :: "('h, 'c, 'b, 'ec) ws_session \<Rightarrow> ('h, 'c, 'b, 'ec) ws_session" where
  "do_read s = s\<lparr>wss_reading := True\<rparr>"

text \<open>The posted part of \<^verbatim>\<open>send_internal\<close>; the task was taken off \<open>wss_posted\<close>.\<close>

definition task_send :: "nat \<Rightarrow> ws_message \<Rightarrow> ('h, 'c, 'b, 'ec) ws_session \<Rightarrow> ('h, 'c, 'b, 'ec) ws_session" where
  "task_send limit m s =
     (if wss_closing s then s\<lparr>wss_pending := wss_pending s - 1\<rparr>
      else if length (wss_queue s) \<ge> limit then
        session_close cc_policy_error (s\<lparr>wss_pending := wss_pending s - 1\<rparr>)
      else
        (let s1 = s\<lparr>wss_queue := wss_queue s @ [m], wss_accepted := wss_accepted s @ [m]\<rparr>
         in if length (wss_queue s1) = 1 then do_write s1 else s1))"

definition task_close :: "close_code \<Rightarrow> ('h, 'c, 'b, 'ec) ws_session \<Rightarrow> ('h, 'c, 'b, 'ec) ws_session" where
  "task_close code s =
     (if wss_closing s \<or> \<not> ws_open s then s else s\<lparr>wss_closing := True, wss_close_op := Some code\<rparr>)"

definition run_task :: "nat \<Rightarrow> ('h, 'c, 'b, 'ec) ws_session \<Rightarrow> ('h, 'c, 'b, 'ec) ws_session" where
  "run_task limit s =
     (case wss_posted s of
        [] \<Rightarrow> s
      | TaskSend m # ts \<Rightarrow> task_send limit m (s\<lparr>wss_posted := ts\<rparr>)
      | TaskClose code # ts \<Rightarrow> task_close code (s\<lparr>wss_posted := ts\<rparr>))"

text \<open>
  \<^verbatim>\<open>on_accept\<close>: \<open>opened\<close> is the context after \<^verbatim>\<open>router->open\<close>; what
  the route handler sends or closes there are calls like those of any thread.
\<close>

definition on_accept ::
  "bool \<Rightarrow> bool \<Rightarrow> ('h, 'c, 'b) ws_context \<Rightarrow> ('h, 'c, 'b, 'ec) ws_session \<Rightarrow> ('h, 'c, 'b, 'ec) ws_session" where
  "on_accept failed stopping opened s =
     (if failed then s\<lparr>wss_phase := NotAccepted\<rparr>
      else if stopping then
        do_read (session_close cc_going_away (s\<lparr>wss_phase := Running, ws_open := True\<rparr>))
      else do_read (s\<lparr>wss_phase := Running, ws_open := True, wss_context := opened\<rparr>))"

text \<open>
  A callback runs under \<^verbatim>\<open>guarded\<close>: the calls an emit operation makes are recorded, an
  exception ends there.
\<close>

definition emit ::
  "(('h, 'c, 'b) ws_context \<Rightarrow> ('h, 'c, 'b) ws_context \<times> ('b, 'ec) ws_call list)
     \<Rightarrow> ('h, 'c, 'b, 'ec) ws_session \<Rightarrow> ('h, 'c, 'b, 'ec) ws_session" where
  "emit f s =
     (let (c, calls) = f (wss_context s) in s\<lparr>wss_context := c, wss_calls := wss_calls s @ calls\<rparr>)"

text \<open>How an \<^verbatim>\<open>async_read\<close> completes: the peer closed, an error, or a message; for a
  message also whether the callback throws.\<close>

datatype 'ec read_result =
    ReadClosed close_code
  | ReadAborted
  | ReadFailed 'ec
  | ReadMessage string bool bool

definition on_read :: "'ec read_result \<Rightarrow> ('h, 'c, 'b, 'ec) ws_session \<Rightarrow> ('h, 'c, 'b, 'ec) ws_session" where
  "on_read result s0 =
     (let s = s0\<lparr>wss_reading := False\<rparr> in
      case result of
        ReadClosed code \<Rightarrow> emit (emitClose code) s
      | ReadAborted \<Rightarrow> emit (emitClose cc_abnormal) s
      | ReadFailed ec \<Rightarrow> emit (emitClose cc_abnormal) (emit (emitError ec) s)
      | ReadMessage data is_text throws \<Rightarrow>
          (let called = (wc_on_message (wss_context s) \<noteq> None \<and> \<not> wc_closed (wss_context s));
               s1 = emit (emitMessage data is_text) s;
               s2 = (if called \<and> throws then session_close cc_internal_error s1 else s1)
           in do_read s2))"

definition on_write :: "bool \<Rightarrow> ('h, 'c, 'b, 'ec) ws_session \<Rightarrow> ('h, 'c, 'b, 'ec) ws_session" where
  "on_write failed s0 =
     (let s = s0\<lparr>wss_writing := None\<rparr> in
      if failed then
        s\<lparr>wss_pending := wss_pending s - length (wss_queue s), wss_lost := wss_lost s @ wss_queue s,
          wss_queue := []\<rparr>
      else
        do_write (s\<lparr>wss_queue := tl (wss_queue s), wss_pending := wss_pending s - 1,
                    wss_written := wss_written s @ (case wss_writing s0 of None \<Rightarrow> [] | Some m \<Rightarrow> [m])\<rparr>))"

definition on_close :: "close_code \<Rightarrow> ('h, 'c, 'b, 'ec) ws_session \<Rightarrow> ('h, 'c, 'b, 'ec) ws_session" where
  "on_close code s = emit (emitClose code) (s\<lparr>wss_close_op := None\<rparr>)"

section \<open>Steps\<close>

datatype ('h, 'c, 'b, 'ec) session_event =
    SendCalled ws_message
  | CloseCalled close_code
  | SetOnMessage 'b
  | SetOnClose 'b
  | SetOnError 'b
  | TaskRun
  | Accepted bool bool "('h, 'c, 'b) ws_context"
  | ReadDone "'ec read_result"
  | WriteDone bool
  | CloseDone
  | StreamDown

definition update_context ::
  "(('h, 'c, 'b) ws_context \<Rightarrow> ('h, 'c, 'b) ws_context)
     \<Rightarrow> ('h, 'c, 'b, 'ec) ws_session \<Rightarrow> ('h, 'c, 'b, 'ec) ws_session" where
  "update_context f s = s\<lparr>wss_context := f (wss_context s)\<rparr>"

text \<open>
  The context handed back by the route handler differs from the one before in the callbacks and
  the user data it may set, not in \<open>wc_closed\<close>.
\<close>

fun session_next ::
  "nat \<Rightarrow> ('h, 'c, 'b, 'ec) ws_session \<Rightarrow> ('h, 'c, 'b, 'ec) session_event
     \<Rightarrow> ('h, 'c, 'b, 'ec) ws_session option" where
  "session_next limit s (SendCalled m) = Some (send_internal m s)"
| "session_next limit s (CloseCalled code) = Some (session_close code s)"
| "session_next limit s (SetOnMessage cb) = Some (update_context (ws_onMessage cb) s)"
| "session_next limit s (SetOnClose cb) = Some (update_context (ws_onClose cb) s)"
| "session_next limit s (SetOnError cb) = Some (update_context (ws_onError cb) s)"
| "session_next limit s TaskRun = (if wss_posted s = [] then None else Some (run_task limit s))"
| "session_next limit s (Accepted failed stopping opened) =
     (if wss_phase s = Accepting \<and> wc_closed opened = wc_closed (wss_context s)
      then Some (on_accept failed stopping opened s) else None)"
| "session_next limit s (ReadDone result) = (if wss_reading s then Some (on_read result s) else None)"
| "session_next limit s (WriteDone failed) = (if wss_writing s \<noteq> None then Some (on_write failed s) else None)"
| "session_next limit s CloseDone =
     (case wss_close_op s of Some code \<Rightarrow> Some (on_close code s) | None \<Rightarrow> None)"
| "session_next limit s StreamDown = Some (s\<lparr>ws_open := False\<rparr>)"

definition session_step ::
  "nat \<Rightarrow> ('h, 'c, 'b, 'ec) ws_session \<Rightarrow> ('h, 'c, 'b, 'ec) session_event
     \<Rightarrow> ('h, 'c, 'b, 'ec) ws_session \<Rightarrow> bool" where
  "session_step limit s e t \<longleftrightarrow> session_next limit s e = Some t"

definition session_starts :: "('h, 'c, 'b, 'ec) ws_session \<Rightarrow> bool" where
  "session_starts s \<longleftrightarrow> (\<exists>c. \<not> wc_closed c \<and> s = WebSocketSession c)"

section \<open>The invariant\<close>

fun is_send :: "strand_task \<Rightarrow> bool" where
  "is_send (TaskSend m) = True"
| "is_send (TaskClose c) = False"

fun is_close_call :: "('b, 'ec) ws_call \<Rightarrow> bool" where
  "is_close_call (OnClose cb code) = True"
| "is_close_call c = False"

text \<open>All calls but the last are no close calls, and a close call means the context is closed.\<close>

definition calls_ok :: "bool \<Rightarrow> ('b, 'ec) ws_call list \<Rightarrow> bool" where
  "calls_ok closed calls \<longleftrightarrow>
     (\<forall>c \<in> set (butlast calls). \<not> is_close_call c)
   \<and> (calls \<noteq> [] \<and> is_close_call (last calls) \<longrightarrow> closed)"

definition session_inv :: "nat \<Rightarrow> ('h, 'c, 'b, 'ec) ws_session \<Rightarrow> bool" where
  "session_inv limit s \<longleftrightarrow>
     wss_pending s = length (wss_queue s) + length (filter is_send (wss_posted s))
   \<and> length (wss_queue s) \<le> limit
   \<and> wss_writing s = (case wss_queue s of [] \<Rightarrow> None | m # ms \<Rightarrow> Some m)
   \<and> calls_ok (wc_closed (wss_context s)) (wss_calls s)
   \<and> (wss_phase s = Running \<and> \<not> wss_reading s \<longrightarrow> wc_closed (wss_context s))
   \<and> (wss_phase s \<noteq> Running \<longrightarrow> \<not> wss_reading s \<and> \<not> ws_open s \<and> wss_close_op s = None \<and> wss_calls s = []
        \<and> \<not> wc_closed (wss_context s))"

lemma calls_ok_open: "calls_ok False calls \<longleftrightarrow> (\<forall>c \<in> set calls. \<not> is_close_call c)"
  by (cases calls rule: rev_cases) (auto simp: calls_ok_def)

text \<open>What the three emit operations add.\<close>

lemma emit_open_calls:
  assumes "calls_ok False calls" and "\<not> wc_closed c"
  shows "calls_ok (wc_closed (fst (emitMessage d t c))) (calls @ snd (emitMessage d t c))"
    and "calls_ok (wc_closed (fst (emitError ec c))) (calls @ snd (emitError ec c))"
    and "calls_ok (wc_closed (fst (emitClose code c))) (calls @ snd (emitClose code c))"
  using assms unfolding calls_ok_open
  by (auto simp: emit_defs calls_ok_def butlast_append split: option.splits dest: in_set_butlastD)

lemma emit_closed_calls:
  assumes "wc_closed c"
  shows "snd (emitMessage d t c) = []" and "snd (emitError ec c) = []" and "emitClose code c = (c, [])"
  using assms by (auto simp: emit_defs split: option.splits)

lemma emit_context_closed [simp]:
  "wc_closed (fst (emitMessage d t c)) = wc_closed c" "wc_closed (fst (emitError ec c)) = wc_closed c"
  "wc_closed (fst (emitClose code c))"
  by (auto simp: emit_defs)

definition emits_ok ::
  "(('h, 'c, 'b) ws_context \<Rightarrow> ('h, 'c, 'b) ws_context \<times> ('b, 'ec) ws_call list) \<Rightarrow> bool" where
  "emits_ok f \<longleftrightarrow> (\<forall>c calls. calls_ok (wc_closed c) calls \<longrightarrow> calls_ok (wc_closed (fst (f c))) (calls @ snd (f c)))"

lemma emits_ok [simp]: "emits_ok (emitMessage d t)" "emits_ok (emitError ec)" "emits_ok (emitClose code)"
  unfolding emits_ok_def
  by (metis (full_types) append_Nil2 emit_closed_calls emit_context_closed emit_open_calls fst_conv snd_conv)+

lemma emit_simps [simp]:
  "wss_phase (emit f s) = wss_phase s" "wss_queue (emit f s) = wss_queue s"
  "wss_pending (emit f s) = wss_pending s" "wss_posted (emit f s) = wss_posted s"
  "wss_writing (emit f s) = wss_writing s" "wss_reading (emit f s) = wss_reading s"
  "wss_closing (emit f s) = wss_closing s" "wss_close_op (emit f s) = wss_close_op s"
  "ws_open (emit f s) = ws_open s" "wss_accepted (emit f s) = wss_accepted s"
  "wss_written (emit f s) = wss_written s" "wss_lost (emit f s) = wss_lost s"
  "wss_context (emit f s) = fst (f (wss_context s))"
  "wss_calls (emit f s) = wss_calls s @ snd (f (wss_context s))"
  by (simp_all add: emit_def case_prod_beta Let_def)

lemma emit_calls_ok:
  "emits_ok f \<Longrightarrow> calls_ok (wc_closed (wss_context s)) (wss_calls s)
     \<Longrightarrow> calls_ok (wc_closed (fst (f (wss_context s)))) (wss_calls s @ snd (f (wss_context s)))"
  by (simp add: emits_ok_def)

lemma do_write_simps [simp]:
  "wss_phase (do_write s) = wss_phase s" "wss_queue (do_write s) = wss_queue s"
  "wss_pending (do_write s) = wss_pending s" "wss_posted (do_write s) = wss_posted s"
  "wss_reading (do_write s) = wss_reading s" "wss_context (do_write s) = wss_context s"
  "wss_closing (do_write s) = wss_closing s" "wss_close_op (do_write s) = wss_close_op s"
  "ws_open (do_write s) = ws_open s" "wss_calls (do_write s) = wss_calls s"
  "wss_accepted (do_write s) = wss_accepted s" "wss_written (do_write s) = wss_written s"
  "wss_lost (do_write s) = wss_lost s"
  by (simp_all add: do_write_def split: list.splits)

lemma do_write_writing:
  "wss_writing s = None \<Longrightarrow> wss_writing (do_write s) = (case wss_queue s of [] \<Rightarrow> None | m # ms \<Rightarrow> Some m)"
  by (simp add: do_write_def split: list.splits)

lemma session_inv_task:
  assumes "session_inv limit s" and "wss_posted s = t # ts"
  shows "session_inv limit (run_task limit s)"
proof (cases t)
  case (TaskClose code)
  with assms show ?thesis
    by (auto simp: session_inv_def run_task_def task_close_def)
next
  case (TaskSend m)
  let ?s = "s\<lparr>wss_posted := ts\<rparr>"
  have pending: "wss_pending s = length (wss_queue s) + Suc (length (filter is_send ts))"
    using assms TaskSend by (simp add: session_inv_def)
  consider "wss_closing s" | "\<not> wss_closing s" "length (wss_queue s) \<ge> limit"
    | "\<not> wss_closing s" "length (wss_queue s) < limit"
    by linarith
  then show ?thesis
  proof cases
    case 3
    then have "run_task limit s = (let s1 = ?s\<lparr>wss_queue := wss_queue s @ [m], wss_accepted := wss_accepted s @ [m]\<rparr>
        in if wss_queue s = [] then do_write s1 else s1)"
      using assms(2) TaskSend by (simp add: run_task_def task_send_def Let_def)
    moreover have "wss_queue s = [] \<Longrightarrow> wss_writing s = None" using assms(1) by (simp add: session_inv_def)
    ultimately show ?thesis
      using assms(1) pending 3
      by (cases "wss_queue s") (auto simp: session_inv_def Let_def do_write_writing)
  qed (use assms TaskSend pending in
      \<open>auto simp: session_inv_def run_task_def task_send_def session_close_def\<close>)
qed

lemma session_inv_read:
  assumes "session_inv limit s" and "wss_reading s"
  shows "session_inv limit (on_read result s)"
proof -
  have running: "wss_phase s = Running" using assms by (auto simp: session_inv_def)
  have calls: "calls_ok (wc_closed (wss_context s)) (wss_calls s)" using assms(1) by (simp add: session_inv_def)
  have error: "calls_ok (wc_closed (wss_context s)) (wss_calls s @ snd (emitError ec (wss_context s)))" for ec
    using emit_calls_ok [of "emitError ec" s] calls by simp
  have closed: "calls_ok True (xs @ snd (emitClose code c))"
    if "calls_ok (wc_closed c) xs" for xs code and c :: "('a, 'b, 'c) ws_context"
    using that emits_ok(3) [of code] unfolding emits_ok_def by (metis emit_context_closed(3))
  show ?thesis
  proof (cases result)
    case (ReadMessage data is_text throws)
    with assms(1) running emit_calls_ok [of "emitMessage data is_text" s] calls show ?thesis
      by (auto simp: session_inv_def on_read_def Let_def do_read_def session_close_def)
  next
    case (ReadFailed ec)
    have "calls_ok True ((wss_calls s @ snd (emitError ec (wss_context s)))
        @ snd (emitClose cc_abnormal (fst (emitError ec (wss_context s)))))"
      by (rule closed) (simp add: error)
    with ReadFailed assms(1) running show ?thesis by (simp add: session_inv_def on_read_def Let_def)
  qed (use assms(1) running closed [OF calls] in \<open>simp_all add: session_inv_def on_read_def Let_def\<close>)
qed

lemma session_inv_write:
  assumes "session_inv limit s" and "wss_writing s \<noteq> None"
  shows "session_inv limit (on_write failed s)"
proof -
  obtain m ms where "wss_queue s = m # ms" using assms by (auto simp: session_inv_def split: list.splits)
  with assms show ?thesis
    by (cases failed) (auto simp: session_inv_def on_write_def Let_def do_write_writing)
qed

lemma session_inv_close:
  assumes "session_inv limit s" and "wss_close_op s = Some code"
  shows "session_inv limit (on_close code s)"
proof -
  have "calls_ok (wc_closed (wss_context s)) (wss_calls s)" using assms(1) by (simp add: session_inv_def)
  then have "calls_ok True (wss_calls s @ snd (emitClose code (wss_context s)))"
    using emits_ok(3) [of code] unfolding emits_ok_def by (metis emit_context_closed(3))
  with assms show ?thesis by (auto simp: session_inv_def on_close_def)
qed

lemma session_inv_step:
  assumes "session_inv limit s" and "session_step limit s e t"
  shows "session_inv limit t"
proof (cases e)
  case TaskRun
  with assms show ?thesis
    by (cases "wss_posted s") (auto simp: session_step_def intro: session_inv_task)
next
  case (Accepted failed stopping opened)
  with assms show ?thesis
    by (auto simp: session_step_def session_inv_def on_accept_def do_read_def session_close_def calls_ok_def
        split: if_splits)
next
  case (ReadDone result)
  with assms show ?thesis by (auto simp: session_step_def split: if_splits intro: session_inv_read)
next
  case (WriteDone failed)
  with assms show ?thesis by (auto simp: session_step_def split: if_splits intro: session_inv_write)
next
  case CloseDone
  with assms show ?thesis by (auto simp: session_step_def split: option.splits intro: session_inv_close)
next
  case (SendCalled m)
  with assms have "t = send_internal m s" by (simp add: session_step_def)
  with assms(1) show ?thesis by (simp add: session_inv_def send_internal_def)
next
  case (CloseCalled code)
  with assms have "t = session_close code s" by (simp add: session_step_def)
  with assms(1) show ?thesis by (simp add: session_inv_def session_close_def)
next
  case (SetOnMessage cb)
  with assms have "t = update_context (ws_onMessage cb) s" by (simp add: session_step_def)
  with assms(1) show ?thesis by (simp add: session_inv_def update_context_def ws_onMessage_def)
next
  case (SetOnClose cb)
  with assms have "t = update_context (ws_onClose cb) s" by (simp add: session_step_def)
  with assms(1) show ?thesis by (simp add: session_inv_def update_context_def ws_onClose_def)
next
  case (SetOnError cb)
  with assms have "t = update_context (ws_onError cb) s" by (simp add: session_step_def)
  with assms(1) show ?thesis by (simp add: session_inv_def update_context_def ws_onError_def)
next
  case StreamDown
  with assms have "t = s\<lparr>ws_open := False\<rparr>" by (simp add: session_step_def)
  with assms(1) show ?thesis by (simp add: session_inv_def)
qed

lemma session_inv_start: "session_starts s \<Longrightarrow> session_inv limit s"
  by (auto simp: session_starts_def session_inv_def WebSocketSession_def calls_ok_def)

interpretation session_system: invariant_system session_starts "session_step limit" "session_inv limit"
  for limit :: nat
  by unfold_locales (auto intro: session_inv_start session_inv_step)

definition session_reachable :: "nat \<Rightarrow> ('h, 'c, 'b, 'ec) ws_session \<Rightarrow> bool" where
  "session_reachable limit s \<longleftrightarrow> reachable session_starts (session_step limit) s"

lemma session_reachable_inv: "session_reachable limit s \<Longrightarrow> session_inv limit s"
  unfolding session_reachable_def by (rule session_system.reachable_inv)

section \<open>The write queue\<close>

lemma task_send_queue:
  "wss_queue (task_send limit m s) = wss_queue s \<and> wss_accepted (task_send limit m s) = wss_accepted s
    \<or> wss_queue (task_send limit m s) = wss_queue s @ [m] \<and> wss_accepted (task_send limit m s) = wss_accepted s @ [m]"
  by (simp add: task_send_def Let_def session_close_def)

lemma task_history [simp]:
  "wss_written (task_send limit m s) = wss_written s" "wss_lost (task_send limit m s) = wss_lost s"
  "wss_queue (task_close c s) = wss_queue s" "wss_accepted (task_close c s) = wss_accepted s"
  "wss_written (task_close c s) = wss_written s" "wss_lost (task_close c s) = wss_lost s"
  "wss_context (task_send limit m s) = wss_context s" "wss_context (task_close c s) = wss_context s"
  by (simp_all add: task_send_def Let_def session_close_def task_close_def)

lemma step_queue_cases:
  assumes "session_inv limit s" and "session_step limit s e t"
  shows "wss_queue t = wss_queue s \<and> wss_accepted t = wss_accepted s \<and> wss_written t = wss_written s
        \<and> wss_lost t = wss_lost s
    \<or> (\<exists>m. wss_queue t = wss_queue s @ [m] \<and> wss_accepted t = wss_accepted s @ [m]
        \<and> wss_written t = wss_written s \<and> wss_lost t = wss_lost s)
    \<or> (\<exists>m. wss_queue s = m # wss_queue t \<and> wss_accepted t = wss_accepted s
        \<and> wss_written t = wss_written s @ [m] \<and> wss_lost t = wss_lost s)
    \<or> wss_queue t = [] \<and> wss_accepted t = wss_accepted s \<and> wss_written t = wss_written s
        \<and> wss_lost t = wss_lost s @ wss_queue s"
proof (cases e)
  case TaskRun
  with assms(2) obtain k ts where "wss_posted s = k # ts" "t = run_task limit s"
    by (cases "wss_posted s") (auto simp: session_step_def)
  note kt = this
  show ?thesis
  proof (cases k)
    case (TaskSend m)
    with kt task_send_queue [of limit m "s\<lparr>wss_posted := ts\<rparr>"] show ?thesis
      by (cases m) (auto simp: run_task_def)
  qed (use kt in \<open>simp add: run_task_def\<close>)
next
  case (WriteDone failed)
  with assms obtain m ms where "wss_queue s = m # ms" "wss_writing s = Some m" "t = on_write failed s"
    by (auto simp: session_step_def session_inv_def split: if_splits list.splits)
  then show ?thesis by (cases failed) (auto simp: on_write_def Let_def)
next
  case (ReadDone result)
  with assms(2) have t: "t = on_read result s" by (simp add: session_step_def split: if_splits)
  show ?thesis by (cases result) (simp_all add: t on_read_def Let_def do_read_def session_close_def)
next
  case (Accepted failed stopping opened)
  with assms(2) have "t = on_accept failed stopping opened s" by (simp add: session_step_def split: if_splits)
  then show ?thesis by (simp add: on_accept_def do_read_def session_close_def)
next
  case CloseDone
  with assms(2) obtain code where "t = on_close code s" by (auto simp: session_step_def split: option.splits)
  then show ?thesis by (simp add: on_close_def)
next
  case (SendCalled m)
  with assms(2) have "t = send_internal m s" by (simp add: session_step_def)
  then show ?thesis by (simp add: send_internal_def)
next
  case (CloseCalled code)
  with assms(2) have "t = session_close code s" by (simp add: session_step_def)
  then show ?thesis by (simp add: session_close_def)
next
  case StreamDown
  with assms(2) have "t = s\<lparr>ws_open := False\<rparr>" by (simp add: session_step_def)
  then show ?thesis by simp
next
  case (SetOnMessage cb)
  with assms(2) have "t = update_context (ws_onMessage cb) s" by (simp add: session_step_def)
  then show ?thesis by (simp add: update_context_def)
next
  case (SetOnClose cb)
  with assms(2) have "t = update_context (ws_onClose cb) s" by (simp add: session_step_def)
  then show ?thesis by (simp add: update_context_def)
next
  case (SetOnError cb)
  with assms(2) have "t = update_context (ws_onError cb) s" by (simp add: session_step_def)
  then show ?thesis by (simp add: update_context_def)
qed

interpretation session_queue: send_queue session_starts "session_step limit" wss_queue wss_accepted
    wss_written wss_lost
  for limit :: nat
proof unfold_locales
  fix s :: "('a, 'b, 'c, 'd) ws_session" and e t
  show "session_starts s \<Longrightarrow> wss_queue s = [] \<and> wss_accepted s = [] \<and> wss_written s = [] \<and> wss_lost s = []"
    by (auto simp: session_starts_def WebSocketSession_def)
  assume "reachable session_starts (session_step limit) s" and step: "session_step limit s e t"
  then have "session_inv limit s" by (intro session_reachable_inv) (simp add: session_reachable_def)
  from step_queue_cases [OF this step]
  show "wss_queue t = wss_queue s \<and> wss_accepted t = wss_accepted s \<and> wss_written t = wss_written s
        \<and> wss_lost t = wss_lost s
    \<or> (\<exists>m. wss_queue t = wss_queue s @ [m] \<and> wss_accepted t = wss_accepted s @ [m]
        \<and> wss_written t = wss_written s \<and> wss_lost t = wss_lost s)
    \<or> (\<exists>m. wss_queue s = m # wss_queue t \<and> wss_accepted t = wss_accepted s
        \<and> wss_written t = wss_written s @ [m] \<and> wss_lost t = wss_lost s)
    \<or> wss_queue t = [] \<and> wss_accepted t = wss_accepted s \<and> wss_written t = wss_written s
        \<and> wss_lost t = wss_lost s @ wss_queue s" .
qed

section \<open>A session for closed examples\<close>

lemma session_exec_reachable:
  assumes "exec (session_next limit) (WebSocketSession c) es = Some t" and "\<not> wc_closed c"
  shows "session_reachable limit t"
  unfolding session_reachable_def
proof (rule exec_reachable [OF assms(1)])
  show "reachable session_starts (session_step limit) (WebSocketSession c)"
    using assms(2) by (intro reachable_init) (auto simp: session_starts_def)
qed (simp add: session_step_def)

definition example_context :: "(example_h, unit, nat) ws_context" where
  "example_context =
     WebSocketContext \<lparr>rq_method = Verb_get, rq_target = ''/ws'', rq_version = 11, rq_fields = [], rq_body = []\<rparr>
       ''203.0.113.7''"

text \<open>Two messages are sent, the first is written, the peer closes.\<close>

definition example_session_events :: "(example_h, unit, nat, nat) session_event list" where
  "example_session_events =
     [Accepted False False example_context, SetOnClose 5, SendCalled (''a'', True), SendCalled (''b'', True),
      TaskRun, TaskRun, WriteDone False, ReadDone (ReadClosed 1000)]"

definition example_session :: "(example_h, unit, nat, nat) ws_session" where
  "example_session =
     (WebSocketSession example_context)
       \<lparr>wss_phase := Running, wss_context := (ws_onClose 5 example_context)\<lparr>wc_closed := True, wc_on_close := None\<rparr>,
        wss_queue := [(''b'', True)], wss_pending := 1, wss_writing := Some (''b'', True), ws_open := True,
        wss_calls := [OnClose 5 1000], wss_accepted := [(''a'', True), (''b'', True)],
        wss_written := [(''a'', True)]\<rparr>"

lemma example_session_reachable: "session_reachable 8 example_session"
proof (rule session_exec_reachable)
  show "exec (session_next 8) (WebSocketSession example_context) example_session_events = Some example_session"
    by code_simp
  show "\<not> wc_closed example_context" by code_simp
qed

section \<open>Properties\<close>

text \<open>The counter of pending messages is exact and the queue is bounded: the messages counted are the
  ones posted to the strand and not handled yet and the ones in the queue, which never holds more
  than the limit, and exactly its first message is being written.\<close>

theorem session_pending_exact:
  assumes "session_reachable limit s"
  shows "wss_pending s = length (wss_queue s) + length (filter is_send (wss_posted s))
    \<and> length (wss_queue s) \<le> limit
    \<and> wss_writing s = (if wss_queue s = [] then None else Some (hd (wss_queue s)))"
  using session_reachable_inv [OF assms] by (auto simp: session_inv_def split: list.splits)

theorem session_pending_exact_witness:
  "wss_pending example_session = length (wss_queue example_session) + length (filter is_send (wss_posted example_session))
    \<and> length (wss_queue example_session) \<le> 8
    \<and> wss_writing example_session
        = (if wss_queue example_session = [] then None else Some (hd (wss_queue example_session)))"
  by (rule session_pending_exact [OF example_session_reachable])

text \<open>C17: Messages reach the peer in the order they were queued, none twice, and none disappears: what was
  queued is what was given to the stream and written, what still waits and what a failed write dropped, and without a
  failed write the written and waiting messages are exactly the queued ones, in order.\<close>

theorem session_messages_in_order:
  assumes "session_reachable limit s"
  shows "subseq (wss_written s @ wss_queue s) (wss_accepted s)
    \<and> mset (wss_accepted s) = mset (wss_written s) + mset (wss_queue s) + mset (wss_lost s)
    \<and> (wss_lost s = [] \<longrightarrow> wss_accepted s = wss_written s @ wss_queue s)"
  using assms session_queue.in_order session_queue.conserved session_queue.nothing_lost
  unfolding session_reachable_def by blast

theorem session_messages_in_order_witness:
  "subseq (wss_written example_session @ wss_queue example_session) (wss_accepted example_session)
    \<and> mset (wss_accepted example_session)
        = mset (wss_written example_session) + mset (wss_queue example_session) + mset (wss_lost example_session)
    \<and> wss_accepted example_session = wss_written example_session @ wss_queue example_session"
proof -
  have "wss_lost example_session = []" by (simp add: example_session_def WebSocketSession_def)
  with session_messages_in_order [OF example_session_reachable] show ?thesis by blast
qed

text \<open>The step that closes a connection calls the onClose callback set at that moment, last.\<close>

lemma session_close_step:
  assumes "session_step limit s e t" and "\<not> wc_closed (wss_context s)" and "wc_closed (wss_context t)"
  shows "\<exists>calls code. wss_calls t = wss_calls s @ calls
    @ (case wc_on_close (wss_context s) of None \<Rightarrow> [] | Some cb \<Rightarrow> [OnClose cb code])"
proof (cases e)
  case (ReadDone result)
  with assms show ?thesis
    by (cases result)
       (auto simp: session_step_def on_read_def Let_def do_read_def session_close_def emit_defs
         split: if_splits option.splits)
next
  case TaskRun
  with assms(1) have "wss_context t = wss_context s"
    by (cases "wss_posted s"; cases "hd (wss_posted s)") (auto simp: session_step_def run_task_def)
  with assms(2,3) show ?thesis by simp
next
  case (WriteDone failed)
  with assms show ?thesis
    by (auto simp: session_step_def on_write_def Let_def split: if_splits)
next
  case CloseDone
  with assms show ?thesis
    by (auto simp: session_step_def on_close_def emit_defs split: option.splits)
next
  case (Accepted failed stopping opened)
  with assms show ?thesis
    by (auto simp: session_step_def on_accept_def do_read_def session_close_def split: if_splits)
qed (use assms in \<open>auto simp: session_step_def send_internal_def session_close_def
      update_context_def ws_onMessage_def ws_onClose_def ws_onError_def\<close>)

text \<open>C25: An accepted connection is closed as the documentation has it, whatever ends it: once it is no longer
  being read it has been reported closed, and the step that closed it called the onClose callback
  set at that moment. OnClose comes at most once and is the last call the application gets.\<close>

theorem session_closes_once:
  assumes "session_reachable limit s"
  shows "length (filter is_close_call (wss_calls s)) \<le> 1
    \<and> (\<forall>c \<in> set (butlast (wss_calls s)). \<not> is_close_call c)
    \<and> (wss_phase s = Running \<and> \<not> wss_reading s \<longrightarrow> wc_closed (wss_context s))
    \<and> (\<forall>e t. session_step limit s e t \<and> \<not> wc_closed (wss_context s) \<and> wc_closed (wss_context t) \<longrightarrow>
        (\<exists>calls code. wss_calls t = wss_calls s @ calls
          @ (case wc_on_close (wss_context s) of None \<Rightarrow> [] | Some cb \<Rightarrow> [OnClose cb code])))"
proof -
  have inv: "session_inv limit s" by (rule session_reachable_inv [OF assms])
  then have early: "\<forall>c \<in> set (butlast (wss_calls s)). \<not> is_close_call c"
    by (simp add: session_inv_def calls_ok_def)
  then have "length (filter is_close_call (wss_calls s)) \<le> 1"
    by (cases "wss_calls s" rule: rev_cases) (simp_all add: filter_False)
  with early inv session_close_step show ?thesis by (simp add: session_inv_def) blast
qed

theorem session_closes_once_witness:
  "\<exists>s t :: (example_h, unit, nat, nat) ws_session. session_step 8 s (ReadDone (ReadClosed 1000)) t
     \<and> length (filter is_close_call (wss_calls s)) \<le> 1
     \<and> (\<exists>calls code. wss_calls t = wss_calls s @ calls @ [OnClose 5 code])"
proof -
  let ?es = "[Accepted False False example_context, SetOnClose 5] :: (example_h, unit, nat, nat) session_event list"
  let ?s = "(WebSocketSession example_context)
      \<lparr>wss_phase := Running, wss_context := ws_onClose 5 example_context, wss_reading := True, ws_open := True\<rparr>
    :: (example_h, unit, nat, nat) ws_session"
  let ?t = "on_read (ReadClosed 1000) ?s"
  have "exec (session_next 8) (WebSocketSession example_context) ?es = Some ?s" by code_simp
  then have reach: "session_reachable 8 ?s" by (rule session_exec_reachable) code_simp
  have step: "session_step 8 ?s (ReadDone (ReadClosed 1000)) ?t" by (simp add: session_step_def)
  have open_closed: "\<not> wc_closed (wss_context ?s)" "wc_closed (wss_context ?t)"
    and cb: "wc_on_close (wss_context ?s) = Some 5" by code_simp+
  from session_closes_once [OF reach] step open_closed
  have "length (filter is_close_call (wss_calls ?s)) \<le> 1"
    and "\<exists>calls code. wss_calls ?t = wss_calls ?s @ calls
      @ (case wc_on_close (wss_context ?s) of None \<Rightarrow> [] | Some cb \<Rightarrow> [OnClose cb code])" by blast+
  then show ?thesis unfolding cb option.case using step by blast
qed

end
