(* ===== verification/Server.thy ===== *)
theory Server
  imports SessionShutdown WebSocketSession
begin

text \<open>
  The server as a whole: the \<^verbatim>\<open>Listener\<close> of Listener.h with its registry, the HTTP
  sessions it starts and the WebSocket sessions these turn into. The components are those of
  \<^theory_text>\<open>SessionRegistry\<close>, \<^theory_text>\<open>HttpSession\<close> and \<^theory_text>\<open>WebSocketSession\<close>; here their steps
  interleave, share the registry and the state of the user's handlers, and \<^verbatim>\<open>stop\<close>
  reaches them one after the other.
\<close>

section \<open>State\<close>

datatype ('h, 'c, 'b, 'w, 'ec) connection =
    Http "('h, 'w) http_session"
  | Ws "('h, 'c, 'b, 'ec) ws_session"
  | Gone

text \<open>
  A session's address is its place in \<open>sv_conns\<close>; \<open>Gone\<close> is one that was destroyed.
  \<open>sv_telling\<close> are the sessions \<^verbatim>\<open>stopAll\<close> still holds and has not called yet,
  \<open>sv_stop_tasks\<close> the HTTP sessions whose posted stop has not run.
\<close>

record ('h, 'c, 'b, 'w, 'ec) server =
  sv_listener :: listener
  sv_world :: 'w
  sv_conns :: "('h, 'c, 'b, 'w, 'ec) connection list"
  sv_telling :: "nat list"
  sv_stop_tasks :: "nat list"

definition Server_run :: "'w \<Rightarrow> ('h, 'c, 'b, 'w, 'ec) server" where
  "Server_run world =
     \<lparr>sv_listener = Listener_run, sv_world = world, sv_conns = [], sv_telling = [], sv_stop_tasks = []\<rparr>"

abbreviation sv_registry :: "('h, 'c, 'b, 'w, 'ec) server \<Rightarrow> registry" where
  "sv_registry w \<equiv> ls_registry (sv_listener w)"

abbreviation sv_stopping :: "('h, 'c, 'b, 'w, 'ec) server \<Rightarrow> bool" where
  "sv_stopping w \<equiv> reg_stopping (sv_registry w)"

definition set_registry :: "registry \<Rightarrow> ('h, 'c, 'b, 'w, 'ec) server \<Rightarrow> ('h, 'c, 'b, 'w, 'ec) server" where
  "set_registry r w = w\<lparr>sv_listener := (sv_listener w)\<lparr>ls_registry := r\<rparr>\<rparr>"

definition set_conn ::
  "nat \<Rightarrow> ('h, 'c, 'b, 'w, 'ec) connection \<Rightarrow> ('h, 'c, 'b, 'w, 'ec) server \<Rightarrow> ('h, 'c, 'b, 'w, 'ec) server" where
  "set_conn i c w = w\<lparr>sv_conns := (sv_conns w)[i := c]\<rparr>"

section \<open>Operations\<close>

text \<open>An accepted connection: the new session registers; a refused one is destroyed at once.\<close>

definition server_accept ::
  "('h, 'p) session_env \<Rightarrow> ('h, 'c, 'b, 'w, 'ec) server \<Rightarrow> ('h, 'c, 'b, 'w, 'ec) server" where
  "server_accept E w =
     (let l = ls_on_accept AcceptOk (sv_listener w); w1 = w\<lparr>sv_listener := l\<rparr>
      in if ls_started l = ls_started (sv_listener w) then w1
         else let i = length (sv_conns w);
                  (added, r) = reg_add i (ls_registry l)
              in if added then (set_registry r w1)\<lparr>sv_conns := sv_conns w @ [Http (HttpSession E (sv_world w))]\<rparr>
                 else (set_registry (reg_remove i r) w1)\<lparr>sv_conns := sv_conns w @ [Gone]\<rparr>)"

text \<open>
  A handler of an HTTP session: it sees the stop flag of the registry, and the user's handlers run on
  the shared state.
\<close>

definition server_http ::
  "('h, 'p) session_env \<Rightarrow> ('h, 'c, 'b, 'w, 'p) router \<Rightarrow> nat \<Rightarrow> 'h http_event
     \<Rightarrow> ('h, 'c, 'b, 'w, 'ec) server \<Rightarrow> ('h, 'c, 'b, 'w, 'ec) server option" where
  "server_http E rt i e w =
     (if i < length (sv_conns w) then
        case sv_conns w ! i of
          Http s \<Rightarrow>
            (case http_next E rt (s\<lparr>hs_stopping := sv_stopping w, hs_world := sv_world w\<rparr>) e of
               Some t \<Rightarrow> Some ((set_conn i (Http t) w)\<lparr>sv_world := hs_world t\<rparr>)
             | None \<Rightarrow> None)
        | _ \<Rightarrow> None
      else None)"

text \<open>
  The WebSocket session an upgrade request makes: it registers, the router decides, and the answer
  of a refusal is written without opening it. An exception of the router destroys it.
\<close>

definition server_upgrade ::
  "('h, 'p) session_env \<Rightarrow> ('h, 'c, 'b, 'w, 'p) router \<Rightarrow> string \<Rightarrow> 'h request_msg
     \<Rightarrow> ('h, 'c, 'b, 'w, 'ec) server \<Rightarrow> ('h, 'c, 'b, 'w, 'ec) server" where
  "server_upgrade E rt ip m w =
     (let i = length (sv_conns w);
          (added, r) = reg_add i (sv_registry w);
          x = \<lparr>wx_context = WebSocketContext m ip, wx_world = sv_world w\<rparr>;
          closed = (WebSocketSession (wx_context x))\<lparr>wss_phase := NotAccepted\<rparr>
      in case session_run (se_libs E) rt added x of
           Threw st \<Rightarrow> (set_registry (reg_remove i r) w)\<lparr>sv_conns := sv_conns w @ [Gone], sv_world := wx_world (fst st)\<rparr>
         | Done (RunRejected response) st \<Rightarrow>
             (set_registry r w)\<lparr>sv_conns := sv_conns w @ [Ws closed], sv_world := wx_world (fst st)\<rparr>
         | Done (RunAccepting y) st \<Rightarrow>
             (set_registry r w)\<lparr>sv_conns := sv_conns w @ [Ws (WebSocketSession (wx_context y))],
                                sv_world := wx_world (fst st)\<rparr>)"

definition server_websocket ::
  "nat \<Rightarrow> nat \<Rightarrow> ('h, 'c, 'b, 'ec) session_event \<Rightarrow> ('h, 'c, 'b, 'w, 'ec) server
     \<Rightarrow> ('h, 'c, 'b, 'w, 'ec) server option" where
  "server_websocket limit i e w =
     (if i < length (sv_conns w) then
        case sv_conns w ! i of
          Ws s \<Rightarrow> (case session_next limit s e of Some t \<Rightarrow> Some (set_conn i (Ws t) w) | None \<Rightarrow> None)
        | _ \<Rightarrow> None
      else None)"

text \<open>Whether the registry's weak reference to a session can be locked.\<close>

definition conn_alive :: "('h, 'c, 'b, 'w, 'ec) connection \<Rightarrow> bool" where
  "conn_alive c = (case c of Gone \<Rightarrow> False | _ \<Rightarrow> True)"

text \<open>\<^verbatim>\<open>stop\<close>: the flag and the list of live sessions, then one call of each session's stop.\<close>

definition server_stop :: "('h, 'c, 'b, 'w, 'ec) server \<Rightarrow> ('h, 'c, 'b, 'w, 'ec) server" where
  "server_stop w =
     (let (told, l) = ls_stop (\<lambda>i. i < length (sv_conns w) \<and> conn_alive (sv_conns w ! i)) (sv_listener w)
      in w\<lparr>sv_listener := l, sv_telling := sv_telling w @ told\<rparr>)"

definition server_tell :: "('h, 'c, 'b, 'w, 'ec) server \<Rightarrow> ('h, 'c, 'b, 'w, 'ec) server option" where
  "server_tell w =
     (case sv_telling w of
        [] \<Rightarrow> None
      | i # js \<Rightarrow>
          let w1 = w\<lparr>sv_telling := js\<rparr>
          in Some (case sv_conns w ! i of
                     Http s \<Rightarrow> w1\<lparr>sv_stop_tasks := sv_stop_tasks w @ [i]\<rparr>
                   | Ws s \<Rightarrow> set_conn i (Ws (session_close cc_going_away s)) w1
                   | Gone \<Rightarrow> w1))"

definition conn_done :: "('h, 'c, 'b, 'w, 'ec) connection \<Rightarrow> bool" where
  "conn_done c =
     (case c of
        Http s \<Rightarrow> hs_op s \<in> {Ended, Upgraded}
      | Ws s \<Rightarrow> wss_phase s \<noteq> Accepting \<and> \<not> wss_reading s \<and> wss_writing s = None \<and> wss_close_op s = None
          \<and> wss_posted s = []
      | Gone \<Rightarrow> False)"

text \<open>The destructor of a session nothing refers to any more.\<close>

definition server_destroy :: "nat \<Rightarrow> ('h, 'c, 'b, 'w, 'ec) server \<Rightarrow> ('h, 'c, 'b, 'w, 'ec) server option" where
  "server_destroy i w =
     (if i < length (sv_conns w) \<and> conn_done (sv_conns w ! i) \<and> i \<notin> set (sv_telling w) \<and> i \<notin> set (sv_stop_tasks w)
      then Some (set_registry (reg_remove i (sv_registry w)) (set_conn i Gone w)) else None)"

section \<open>Steps\<close>

datatype ('h, 'c, 'b, 'ec) server_event =
    Accepts
  | ListenerRuns listener_event
  | HttpRuns nat "'h http_event"
  | WsRuns nat "('h, 'c, 'b, 'ec) session_event"
  | Stops
  | TellsStop
  | Destroys nat

text \<open>
  An accept completes while one is pending; the other events of the listener are its own timers and
  tasks. A posted stop runs once; a handshake that completes reads the registry's flag.
\<close>

fun listener_event_ok :: "listener_event \<Rightarrow> bool" where
  "listener_event_ok (LsAccepted result) = (result \<noteq> AcceptOk)"
| "listener_event_ok (LsRetry cancelled) = True"
| "listener_event_ok LsCloseAcceptor = True"
| "listener_event_ok e = False"

definition http_runs ::
  "('h, 'p) session_env \<Rightarrow> ('h, 'c, 'b, 'w, 'p) router \<Rightarrow> nat \<Rightarrow> 'h http_event
     \<Rightarrow> ('h, 'c, 'b, 'w, 'ec) server \<Rightarrow> ('h, 'c, 'b, 'w, 'ec) server option" where
  "http_runs E rt i e w =
     (case e of
        RegistryStops \<Rightarrow> None
      | StopTask \<Rightarrow>
          if i \<in> set (sv_stop_tasks w) then server_http E rt i e (w\<lparr>sv_stop_tasks := remove1 i (sv_stop_tasks w)\<rparr>) else None
      | BodyDone ip m \<Rightarrow>
          (case server_http E rt i e w of
             Some v \<Rightarrow> Some (if se_is_upgrade E m then server_upgrade E rt ip m v else v)
           | None \<Rightarrow> None)
      | _ \<Rightarrow> server_http E rt i e w)"

definition ws_event_ok :: "('h, 'c, 'b, 'w, 'ec) server \<Rightarrow> ('h, 'c, 'b, 'ec) session_event \<Rightarrow> bool" where
  "ws_event_ok w e = (case e of Accepted failed stopping opened \<Rightarrow> stopping = sv_stopping w | _ \<Rightarrow> True)"

fun server_next ::
  "('h, 'p) session_env \<Rightarrow> ('h, 'c, 'b, 'w, 'p) router \<Rightarrow> nat \<Rightarrow> ('h, 'c, 'b, 'w, 'ec) server
     \<Rightarrow> ('h, 'c, 'b, 'ec) server_event \<Rightarrow> ('h, 'c, 'b, 'w, 'ec) server option" where
  "server_next E rt limit w Accepts = (if ls_accepting (sv_listener w) then Some (server_accept E w) else None)"
| "server_next E rt limit w (ListenerRuns e) =
     (if listener_event_ok e then
        case listener_next (sv_listener w) e of Some l \<Rightarrow> Some (w\<lparr>sv_listener := l\<rparr>) | None \<Rightarrow> None
      else None)"
| "server_next E rt limit w (HttpRuns i e) = http_runs E rt i e w"
| "server_next E rt limit w (WsRuns i e) = (if ws_event_ok w e then server_websocket limit i e w else None)"
| "server_next E rt limit w Stops = Some (server_stop w)"
| "server_next E rt limit w TellsStop = server_tell w"
| "server_next E rt limit w (Destroys i) = server_destroy i w"

definition server_step ::
  "('h, 'p) session_env \<Rightarrow> ('h, 'c, 'b, 'w, 'p) router \<Rightarrow> nat \<Rightarrow> ('h, 'c, 'b, 'w, 'ec) server
     \<Rightarrow> ('h, 'c, 'b, 'ec) server_event \<Rightarrow> ('h, 'c, 'b, 'w, 'ec) server \<Rightarrow> bool" where
  "server_step E rt limit w e v \<longleftrightarrow> server_next E rt limit w e = Some v"

definition server_starts :: "('h, 'c, 'b, 'w, 'ec) server \<Rightarrow> bool" where
  "server_starts w \<longleftrightarrow> (\<exists>world. w = Server_run world)"

section \<open>How a step changes the connections\<close>

text \<open>\<open>stopping\<close> is the flag of the registry before the step.\<close>

inductive connection_step ::
  "('h, 'p) session_env \<Rightarrow> ('h, 'c, 'b, 'w, 'p) router \<Rightarrow> nat \<Rightarrow> bool
     \<Rightarrow> ('h, 'c, 'b, 'w, 'ec) connection \<Rightarrow> ('h, 'c, 'b, 'w, 'ec) connection \<Rightarrow> bool"
  for E :: "('h, 'p) session_env" and rt :: "('h, 'c, 'b, 'w, 'p) router" and limit :: nat and stopping :: bool
where
  conn_same: "connection_step E rt limit stopping c c"
| conn_gone: "connection_step E rt limit stopping c Gone"
| conn_http: "http_step E rt (s\<lparr>hs_stopping := stopping, hs_world := world\<rparr>) e t
    \<Longrightarrow> connection_step E rt limit stopping (Http s) (Http t)"
| conn_ws: "session_step limit s e t \<Longrightarrow> (\<And>failed told opened. e = Accepted failed told opened \<Longrightarrow> told = stopping)
    \<Longrightarrow> connection_step E rt limit stopping (Ws s) (Ws t)"

inductive_cases conn_http_E: "connection_step E rt limit stopping (Http s) d"
inductive_cases conn_ws_E: "connection_step E rt limit stopping (Ws s) d"
inductive_simps conn_gone_simp [simp]: "connection_step E rt limit stopping Gone d"

text \<open>A connection that comes with a step; a stopping server only refuses.\<close>

fun newborn :: "bool \<Rightarrow> ('h, 'p) session_env \<Rightarrow> ('h, 'c, 'b, 'w, 'ec) connection \<Rightarrow> bool" where
  "newborn stopping E Gone = True"
| "newborn stopping E (Http s) = (\<not> stopping \<and> http_inv (lb_fields (se_libs E)) s)"
| "newborn stopping E (Ws s) = (wss_phase s = NotAccepted \<or> \<not> stopping \<and> wss_phase s = Accepting)"

lemma server_http_E:
  assumes "server_http E rt i e w = Some v"
  obtains s t where "i < length (sv_conns w)" and "sv_conns w ! i = Http s"
    and "http_step E rt (s\<lparr>hs_stopping := sv_stopping w, hs_world := sv_world w\<rparr>) e t"
    and "v = (set_conn i (Http t) w)\<lparr>sv_world := hs_world t\<rparr>"
  using assms by (auto simp: server_http_def http_step_def split: if_splits connection.splits option.splits)

lemma server_websocket_E:
  assumes "server_websocket limit i e w = Some v"
  obtains s t where "i < length (sv_conns w)" and "sv_conns w ! i = Ws s" and "session_step limit s e t"
    and "v = set_conn i (Ws t) w"
  using assms by (auto simp: server_websocket_def session_step_def split: if_splits connection.splits option.splits)

section \<open>The server's invariant\<close>

text \<open>The registry has every live session but a WebSocket it refused.\<close>

definition registered :: "('h, 'c, 'b, 'w, 'ec) server \<Rightarrow> nat \<Rightarrow> bool" where
  "registered w i \<longleftrightarrow>
     (case sv_conns w ! i of
        Http s \<Rightarrow> i \<in> set (reg_items (sv_registry w))
      | Ws s \<Rightarrow> wss_phase s = NotAccepted \<or> i \<in> set (reg_items (sv_registry w))
      | Gone \<Rightarrow> True)"

text \<open>A WebSocket the shutdown needs no further call for: it closes, is down or will close.\<close>

definition ws_due :: "('h, 'c, 'b, 'ec) ws_session \<Rightarrow> bool" where
  "ws_due s \<longleftrightarrow> wss_phase s \<noteq> Running \<or> wss_closing s \<or> \<not> ws_open s \<or> (\<exists>code. TaskClose code \<in> set (wss_posted s))"

definition told :: "('h, 'c, 'b, 'w, 'ec) server \<Rightarrow> nat \<Rightarrow> bool" where
  "told w i \<longleftrightarrow> (case sv_conns w ! i of Ws s \<Rightarrow> ws_due s \<or> i \<in> set (sv_telling w) | _ \<Rightarrow> True)"

definition server_inv :: "('h, 'p) session_env \<Rightarrow> ('h, 'c, 'b, 'w, 'ec) server \<Rightarrow> bool" where
  "server_inv E w \<longleftrightarrow>
     (\<forall>i < length (sv_conns w). registered w i \<and> (sv_stopping w \<longrightarrow> told w i)
        \<and> (\<forall>s. sv_conns w ! i = Http s \<longrightarrow> http_inv (lb_fields (se_libs E)) s))"

text \<open>What every step keeps, as one relation between the server before and after.\<close>

definition server_change ::
  "('h, 'p) session_env \<Rightarrow> ('h, 'c, 'b, 'w, 'p) router \<Rightarrow> nat
     \<Rightarrow> ('h, 'c, 'b, 'w, 'ec) server \<Rightarrow> ('h, 'c, 'b, 'w, 'ec) server \<Rightarrow> bool" where
  "server_change E rt limit w v \<longleftrightarrow>
     length (sv_conns w) \<le> length (sv_conns v)
   \<and> (\<forall>i < length (sv_conns w). connection_step E rt limit (sv_stopping w) (sv_conns w ! i) (sv_conns v ! i)
        \<and> (i \<in> set (reg_items (sv_registry w)) \<longrightarrow> i \<in> set (reg_items (sv_registry v)) \<or> sv_conns v ! i = Gone)
        \<and> (i \<in> set (sv_telling w) \<longrightarrow> told v i)
        \<and> (\<not> sv_stopping w \<and> sv_stopping v \<and> registered w i \<longrightarrow> told v i))
   \<and> (\<forall>i. length (sv_conns w) \<le> i \<and> i < length (sv_conns v) \<longrightarrow> newborn (sv_stopping w) E (sv_conns v ! i) \<and> registered v i)
   \<and> (sv_stopping w \<longrightarrow> sv_stopping v)"

lemma ws_due_step:
  assumes "session_step limit s e t" and "ws_due s" and "\<And>failed told opened. e = Accepted failed told opened \<Longrightarrow> told"
  shows "ws_due t"
proof (cases e)
  case TaskRun
  with assms(1) obtain k ts where "wss_posted s = k # ts" "t = run_task limit s"
    by (cases "wss_posted s") (auto simp: session_step_def)
  with assms(2) show ?thesis
    by (cases k) (auto simp: ws_due_def run_task_def task_send_def task_close_def session_close_def Let_def)
next
  case (Accepted failed told opened)
  with assms show ?thesis
    by (auto simp: session_step_def ws_due_def on_accept_def do_read_def session_close_def split: if_splits)
next
  case (ReadDone result)
  with assms(1,2) show ?thesis
    by (cases result) (auto simp: session_step_def ws_due_def on_read_def do_read_def session_close_def Let_def split: if_splits)
next
  case (WriteDone failed)
  with assms(1,2) show ?thesis
    by (cases failed) (auto simp: session_step_def ws_due_def on_write_def Let_def split: if_splits)
next
  case CloseDone
  with assms(1,2) show ?thesis by (auto simp: session_step_def ws_due_def on_close_def split: option.splits)
qed (use assms(1,2) in \<open>auto simp: session_step_def ws_due_def send_internal_def session_close_def update_context_def\<close>)

lemma phase_step:
  assumes "session_step limit s e t" and "wss_phase s = NotAccepted"
  shows "wss_phase t = NotAccepted"
proof (cases e)
  case TaskRun
  with assms(1) obtain k ts where "wss_posted s = k # ts" "t = run_task limit s"
    by (cases "wss_posted s") (auto simp: session_step_def)
  with assms(2) show ?thesis
    by (cases k) (auto simp: run_task_def task_send_def task_close_def session_close_def Let_def)
next
  case (ReadDone result)
  with assms show ?thesis
    by (cases result) (auto simp: session_step_def on_read_def do_read_def session_close_def Let_def split: if_splits)
qed (use assms in \<open>auto simp: session_step_def on_write_def on_close_def send_internal_def session_close_def
    update_context_def Let_def split: if_splits option.splits\<close>)

lemmas server_view = registered_def told_def set_conn_def set_registry_def nth_list_update nth_append

lemma conn_http_same:
  "http_step E rt (s\<lparr>hs_stopping := b, hs_world := v\<rparr>) e t \<Longrightarrow> connection_step E rt limit b (Http s) (Http t)"
  by (rule conn_http)

lemma change_http:
  assumes "server_http E rt i e w = Some v"
  shows "server_change E rt limit w v"
proof -
  from assms obtain s t where st: "i < length (sv_conns w)" "sv_conns w ! i = Http s"
    "http_step E rt (s\<lparr>hs_stopping := sv_stopping w, hs_world := sv_world w\<rparr>) e t"
    and v: "v = (set_conn i (Http t) w)\<lparr>sv_world := hs_world t\<rparr>"
    by (rule server_http_E)
  have "connection_step E rt limit (sv_stopping w) (sv_conns w ! j) (sv_conns v ! j)" if "j < length (sv_conns w)" for j
    using conn_http [OF st(3), of limit] st(1,2) that by (cases "i = j") (simp_all add: v server_view conn_same)
  then show ?thesis
    by (auto simp: server_change_def v server_view split: connection.split)
qed

lemma change_websocket:
  assumes "server_websocket limit i e w = Some v" and "ws_event_ok w e"
  shows "server_change E rt limit w v"
proof -
  from assms(1) obtain s t where st: "i < length (sv_conns w)" "sv_conns w ! i = Ws s" "session_step limit s e t"
    and v: "v = set_conn i (Ws t) w"
    by (rule server_websocket_E)
  have told: "told = sv_stopping w" if "e = Accepted failed told opened" for failed told opened
    using assms(2) that by (simp add: ws_event_ok_def)
  have "connection_step E rt limit (sv_stopping w) (sv_conns w ! j) (sv_conns v ! j)" if "j < length (sv_conns w)" for j
    using conn_ws [OF st(3), of "sv_stopping w" E rt] told st(1,2) that
    by (cases "i = j") (simp_all add: v server_view conn_same)
  then show ?thesis
    by (auto simp: server_change_def v server_view split: connection.split)
qed

lemma change_tell:
  assumes "server_tell w = Some v"
  shows "server_change E rt limit w v"
proof -
  from assms obtain i js where tell: "sv_telling w = i # js" by (auto simp: server_tell_def split: list.splits)
  have same: "sv_registry v = sv_registry w" "length (sv_conns v) = length (sv_conns w)"
    using assms tell by (auto simp: server_tell_def server_view Let_def split: connection.splits)
  have conn: "connection_step E rt limit (sv_stopping w) (sv_conns w ! j) (sv_conns v ! j)
      \<and> (j \<in> set (sv_telling w) \<longrightarrow> told v j)" if "j < length (sv_conns w)" for j
  proof (cases "sv_conns w ! i")
    case (Ws s)
    have "session_step limit s (CloseCalled cc_going_away) (session_close cc_going_away s)" by (simp add: session_step_def)
    then have "connection_step E rt limit (sv_stopping w) (Ws s) (Ws (session_close cc_going_away s))" by (rule conn_ws) simp
    moreover have "v = set_conn i (Ws (session_close cc_going_away s)) (w\<lparr>sv_telling := js\<rparr>)"
      using assms tell Ws by (simp add: server_tell_def Let_def)
    ultimately show ?thesis
      using Ws tell that
      by (cases "i = j") (auto simp: server_view conn_same ws_due_def session_close_def split: connection.split)
  qed (use assms tell that in \<open>auto simp: server_tell_def server_view Let_def conn_same split: connection.split\<close>)
  show ?thesis unfolding server_change_def same using conn by auto
qed

lemma change_stop: "server_change E rt limit w (server_stop w)"
  by (auto simp: server_change_def server_stop_def ls_stop_def reg_stopAll_def server_view conn_same ws_due_def conn_alive_def
      split: connection.split)

lemma change_destroy:
  assumes "server_destroy i w = Some v"
  shows "server_change E rt limit w v"
proof -
  have v: "v = set_registry (reg_remove i (sv_registry w)) (set_conn i Gone w)" and i: "i < length (sv_conns w)"
    using assms by (auto simp: server_destroy_def split: if_splits)
  show ?thesis
    using i by (auto simp: server_change_def v server_view reg_remove_def conn_same conn_gone split: connection.split)
qed

lemma change_same: "server_change E rt limit w w"
  by (auto simp: server_change_def told_def conn_same split: connection.split)

text \<open>A connection that is added behind the others.\<close>

lemma change_append:
  assumes "server_change E rt limit w0 w" and "sv_stopping w = sv_stopping w0"
    and "sv_conns v = sv_conns w @ [c]" and "sv_telling v = sv_telling w" and "sv_stopping v = sv_stopping w"
    and "\<And>j. j < length (sv_conns w) \<Longrightarrow> j \<in> set (reg_items (sv_registry w)) \<Longrightarrow> j \<in> set (reg_items (sv_registry v))"
    and "newborn (sv_stopping w) E c" and "registered v (length (sv_conns w))"
  shows "server_change E rt limit w0 v"
proof -
  have old: "sv_conns v ! j = sv_conns w ! j" if "j < length (sv_conns w)" for j
    using that by (simp add: assms(3) nth_append)
  have told: "told v j = told w j" if "j < length (sv_conns w)" for j
    using that by (simp add: told_def old assms(4) split: connection.split)
  have registered: "registered w j \<Longrightarrow> registered v j" if "j < length (sv_conns w)" for j
    using that assms(6) by (auto simp: registered_def old split: connection.splits)
  have le: "length (sv_conns w0) \<le> length (sv_conns w)" using assms(1) by (simp add: server_change_def)
  have "newborn (sv_stopping w0) E (sv_conns v ! i) \<and> registered v i"
    if "length (sv_conns w0) \<le> i" "i < length (sv_conns v)" for i
  proof (cases "i < length (sv_conns w)")
    case True
    with assms(1) that registered show ?thesis by (simp add: server_change_def old)
  next
    case False
    with that(2) have "i = length (sv_conns w)" by (simp add: assms(3))
    with assms(2,3,7,8) show ?thesis by simp
  qed
  moreover have "length (sv_conns v) = Suc (length (sv_conns w))" by (simp add: assms(3))
  ultimately show ?thesis
    using assms(1,2,5,6) le by (auto simp: server_change_def old told)
qed

lemma change_accept: "server_change E rt limit w (server_accept E w)"
proof (cases "ls_started (ls_on_accept AcceptOk (sv_listener w)) = ls_started (sv_listener w)")
  case True
  then show ?thesis
    by (auto simp: server_change_def server_accept_def Let_def ls_on_accept_def ls_do_accept_def told_def conn_same split: connection.split if_splits)
next
  case False
  let ?l = "ls_on_accept AcceptOk (sv_listener w)"
  have l: "ls_registry ?l = sv_registry w" by (simp add: ls_on_accept_def ls_do_accept_def Let_def)
  have inv: "http_inv (lb_fields (se_libs E)) (HttpSession E u)" for u by (simp add: http_inv_def HttpSession_def)
  show ?thesis
  proof (cases "sv_stopping w")
    case True
    then show ?thesis
      using False l by (intro change_append [OF change_same refl, where c = Gone])
        (simp_all add: server_accept_def Let_def reg_add_def reg_remove_def set_registry_def registered_def)
  next
    case not_stopping: False
    then show ?thesis
      using False l inv by (intro change_append [OF change_same refl, where c = "Http (HttpSession E (sv_world w))"])
        (simp_all add: server_accept_def Let_def reg_add_def set_registry_def registered_def)
  qed
qed

lemma change_upgrade:
  assumes "server_change E rt limit w0 w" and "sv_stopping w = sv_stopping w0"
  shows "server_change E rt limit w0 (server_upgrade E rt ip m w)"
proof -
  let ?x = "\<lparr>wx_context = WebSocketContext m ip, wx_world = sv_world w\<rparr>"
  note append = change_append [OF assms]
  show ?thesis
  proof (cases "session_run (se_libs E) rt (\<not> sv_stopping w) ?x")
    case (Threw st)
    then show ?thesis
      by (intro append [where c = Gone])
        (auto simp: server_upgrade_def Let_def reg_add_def reg_remove_def set_registry_def registered_def)
  next
    case (Done r st)
    show ?thesis
    proof (cases r)
      case (RunRejected response)
      with Done show ?thesis
        by (intro append [where c = "Ws ((WebSocketSession (WebSocketContext m ip))\<lparr>wss_phase := NotAccepted\<rparr>)"])
          (auto simp: server_upgrade_def Let_def reg_add_def set_registry_def registered_def)
    next
      case (RunAccepting y)
      with Done have "\<not> sv_stopping w" by (auto simp: session_run_def Let_def elim: rejecting.elims split: if_splits outcome.splits)
      with Done RunAccepting show ?thesis
        by (intro append [where c = "Ws (WebSocketSession (wx_context y))"])
          (auto simp: server_upgrade_def Let_def reg_add_def set_registry_def registered_def WebSocketSession_def)
    qed
  qed
qed

lemma change_listener:
  assumes "listener_event_ok e" and "listener_next (sv_listener w) e = Some l"
  shows "server_change E rt limit w (w\<lparr>sv_listener := l\<rparr>)"
proof -
  have "ls_registry l = sv_registry w"
    using assms by (cases e) (auto simp: ls_on_accept_def ls_do_accept_def ls_on_retry_def ls_close_acceptor_def Let_def
        split: if_splits)
  then show ?thesis by (auto simp: server_change_def told_def conn_same split: connection.split)
qed

lemma http_stopping:
  assumes "server_http E rt i e w = Some v"
  shows "sv_stopping v = sv_stopping w"
  using assms by (auto simp: server_http_def set_conn_def split: if_splits connection.splits option.splits)

lemma change_http_runs:
  assumes "http_runs E rt i e w = Some v"
  shows "server_change E rt limit w v"
proof (cases e)
  case StopTask
  let ?w = "w\<lparr>sv_stop_tasks := remove1 i (sv_stop_tasks w)\<rparr>"
  from assms StopTask have "server_http E rt i e ?w = Some v" by (simp add: http_runs_def split: if_splits)
  then have "server_change E rt limit ?w v" by (rule change_http)
  moreover have "registered ?w j = registered w j" for j by (simp add: registered_def split: connection.split)
  ultimately show ?thesis by (simp add: server_change_def)
next
  case (BodyDone ip m)
  then obtain u where u: "server_http E rt i e w = Some u"
    and v: "v = (if se_is_upgrade E m then server_upgrade E rt ip m u else u)"
    using assms by (auto simp: http_runs_def split: option.splits)
  from change_http [OF u] change_upgrade [OF change_http [OF u] http_stopping [OF u]] show ?thesis by (simp add: v)
qed (use assms change_http in \<open>auto simp: http_runs_def\<close>)

lemma server_step_change: "server_step E rt limit w e v \<Longrightarrow> server_change E rt limit w v"
proof (cases e)
  case Accepts
  assume "server_step E rt limit w e v"
  with Accepts show ?thesis by (auto simp: server_step_def change_accept split: if_splits)
qed (auto simp: server_step_def change_http_runs change_websocket change_listener change_tell change_stop change_destroy
    split: if_splits option.splits)

lemma server_inv_step:
  assumes "server_inv E w" and "env_ok E" and "server_step E rt limit w e v"
  shows "server_inv E v"
proof -
  have change: "server_change E rt limit w v" using assms(3) by (rule server_step_change)
  have "registered v i \<and> (sv_stopping v \<longrightarrow> told v i) \<and> (\<forall>s. sv_conns v ! i = Http s \<longrightarrow> http_inv (lb_fields (se_libs E)) s)"
    if i: "i < length (sv_conns v)" for i
  proof (cases "i < length (sv_conns w)")
    case False
    with change i have "newborn (sv_stopping w) E (sv_conns v ! i)" "registered v i" by (auto simp: server_change_def)
    then show ?thesis by (cases "sv_conns v ! i") (auto simp: told_def ws_due_def)
  next
    case True
    with change have kept: "connection_step E rt limit (sv_stopping w) (sv_conns w ! i) (sv_conns v ! i)"
      "i \<in> set (reg_items (sv_registry w)) \<Longrightarrow> i \<in> set (reg_items (sv_registry v)) \<or> sv_conns v ! i = Gone"
      "i \<in> set (sv_telling w) \<Longrightarrow> told v i" "\<not> sv_stopping w \<Longrightarrow> sv_stopping v \<Longrightarrow> registered w i \<Longrightarrow> told v i"
      by (auto simp: server_change_def)
    from True assms(1) have inv: "registered w i" "sv_stopping w \<Longrightarrow> told w i"
      "\<And>s. sv_conns w ! i = Http s \<Longrightarrow> http_inv (lb_fields (se_libs E)) s"
      by (auto simp: server_inv_def)
    from kept(1) show ?thesis
    proof (cases rule: connection_step.cases)
      case conn_same
      then have "registered v i" using inv(1) kept(2) by (auto simp: registered_def split: connection.splits)
      moreover have "told v i" if "sv_stopping w"
        using inv(2) [OF that] kept(3) conn_same by (auto simp: told_def split: connection.splits)
      ultimately show ?thesis using kept(4) inv conn_same by auto
    next
      case conn_gone
      then show ?thesis by (simp add: registered_def told_def)
    next
      case (conn_http world s e t)
      then have "http_inv (lb_fields (se_libs E)) (s\<lparr>hs_stopping := sv_stopping w, hs_world := world\<rparr>)"
        using inv(3) by (auto simp: http_inv_def)
      then have "http_inv (lb_fields (se_libs E)) t"
        by (rule http_inv_step [OF _ _ refl]) (use conn_http assms(2) in \<open>simp_all add: env_ok_def libs_ok_def\<close>)
      then show ?thesis using conn_http inv(1) kept(2) by (auto simp: registered_def told_def)
    next
      case (conn_ws s e t)
      then have "registered v i"
        using inv(1) kept(2) phase_step by (fastforce simp: registered_def)
      moreover have "told v i" if "sv_stopping w"
        using inv(2) [OF that] kept(3) conn_ws ws_due_step [OF conn_ws(3)] that by (auto simp: told_def)
      ultimately show ?thesis using kept(4) inv(1) conn_ws by auto
    qed
  qed
  then show ?thesis by (simp add: server_inv_def)
qed

interpretation server_system: invariant_system "\<lambda>w. env_ok E \<and> server_starts w" "server_step E rt limit"
  "\<lambda>w. env_ok E \<and> server_inv E w"
  for E :: "('h, 'p) session_env" and rt :: "('h, 'c, 'b, 'w, 'p) router" and limit :: nat
proof unfold_locales
  fix w :: "('h, 'c, 'b, 'w, 'd) server" and e v
  show "env_ok E \<and> server_starts w \<Longrightarrow> env_ok E \<and> server_inv E w"
    by (auto simp: server_starts_def server_inv_def Server_run_def)
  show "env_ok E \<and> server_inv E w \<Longrightarrow> server_step E rt limit w e v \<Longrightarrow> env_ok E \<and> server_inv E v"
    by (auto intro: server_inv_step)
qed

definition server_reachable ::
  "('h, 'p) session_env \<Rightarrow> ('h, 'c, 'b, 'w, 'p) router \<Rightarrow> nat \<Rightarrow> ('h, 'c, 'b, 'w, 'ec) server \<Rightarrow> bool" where
  "server_reachable E rt limit w \<longleftrightarrow> reachable (\<lambda>w. env_ok E \<and> server_starts w) (server_step E rt limit) w"

lemma server_reachable_inv: "server_reachable E rt limit w \<Longrightarrow> env_ok E \<and> server_inv E w"
  unfolding server_reachable_def by (rule server_system.reachable_inv)

section \<open>A stopping server, step after step\<close>

lemma refused_stays: "connection_step E rt limit b c d \<Longrightarrow> newborn True E c \<Longrightarrow> newborn True E d"
  by (cases rule: connection_step.cases) (auto dest: phase_step)

lemma run_refused:
  assumes "run (server_step E rt limit) w es v" and "sv_stopping w"
    and "\<forall>i. n \<le> i \<and> i < length (sv_conns w) \<longrightarrow> newborn True E (sv_conns w ! i)"
  shows "\<forall>i. n \<le> i \<and> i < length (sv_conns v) \<longrightarrow> newborn True E (sv_conns v ! i)"
  using assms
proof (induction rule: run.induct)
  case (run_cons w e u es v)
  have change: "server_change E rt limit w u" using run_cons.hyps(1) by (rule server_step_change)
  have "newborn True E (sv_conns u ! i)" if "n \<le> i" "i < length (sv_conns u)" for i
  proof (cases "i < length (sv_conns w)")
    case True
    with change have "connection_step E rt limit (sv_stopping w) (sv_conns w ! i) (sv_conns u ! i)" by (simp add: server_change_def)
    then show ?thesis by (rule refused_stays) (use run_cons.prems(2) that True in blast)
  next
    case False
    with change that run_cons.prems(1) show ?thesis by (simp add: server_change_def)
  qed
  moreover have "sv_stopping u" using change run_cons.prems(1) by (simp add: server_change_def)
  ultimately show ?case using run_cons.IH by blast
qed simp

lemma run_responses:
  assumes "run (server_step E rt limit) w es v" and "env_ok E" and "server_inv E w" and "sv_stopping w"
    and "i < length (sv_conns w)" and "sv_conns w ! i = Http s \<and> length (responses s) + may_answer s \<le> n \<or> sv_conns w ! i = Gone"
  shows "sv_conns v ! i = Gone \<or> (\<exists>t. sv_conns v ! i = Http t \<and> length (responses t) + may_answer t \<le> n)"
  using assms
proof (induction arbitrary: s rule: run.induct)
  case (run_cons w e u es v)
  have change: "server_change E rt limit w u" using run_cons.hyps(1) by (rule server_step_change)
  then have conn: "connection_step E rt limit True (sv_conns w ! i) (sv_conns u ! i)"
    using run_cons.prems(3,4) by (auto simp: server_change_def)
  have u: "sv_stopping u" "i < length (sv_conns u)" "server_inv E u"
    using change run_cons.prems server_inv_step [OF _ _ run_cons.hyps(1)] by (auto simp: server_change_def)
  have "sv_conns u ! i = Gone \<or> (\<exists>t. sv_conns u ! i = Http t \<and> length (responses t) + may_answer t \<le> n)"
    using run_cons.prems(5)
  proof
    assume s: "sv_conns w ! i = Http s \<and> length (responses s) + may_answer s \<le> n"
    then have "connection_step E rt limit True (Http s) (sv_conns u ! i)" using conn by simp
    then consider "sv_conns u ! i = Http s" | "sv_conns u ! i = Gone"
      | (steps) world f t where "sv_conns u ! i = Http t"
          "http_step E rt (s\<lparr>hs_stopping := True, hs_world := world\<rparr>) f t"
      by (rule conn_http_E) auto
    then show ?thesis
    proof cases
      case steps
      have "http_inv (lb_fields (se_libs E)) (s\<lparr>hs_stopping := True, hs_world := world\<rparr>)"
        using run_cons.prems(2,4) s by (auto simp: server_inv_def http_inv_def)
      from stopping_session_step [OF this _ steps(2)] steps(1) s show ?thesis by (simp add: responses_def)
    qed (use s in auto)
  next
    assume "sv_conns w ! i = Gone"
    with conn show ?thesis by simp
  qed
  then show ?case using run_cons.IH run_cons.prems(1) u by blast
qed auto

section \<open>A server for closed examples\<close>

text \<open>One connection that upgrades to a WebSocket, one that waits for a request, and a stop.\<close>

definition upgrading_env :: "(example_h, string) session_env" where
  "upgrading_env = example_env\<lparr>se_is_upgrade := (\<lambda>m. rq_fields m = [(''Upgrade'', ''websocket'')])\<rparr>"

definition upgrade_request :: "example_h request_msg" where
  "upgrade_request =
     \<lparr>rq_method = Verb_get, rq_target = ''/u/7'', rq_version = 11, rq_fields = [(''Upgrade'', ''websocket'')],
      rq_body = []\<rparr>"

definition running_events :: "(example_h, unit, unit, nat) server_event list" where
  "running_events =
     [Accepts, HttpRuns 0 OnRun, HttpRuns 0 (DetectDone False False), HttpRuns 0 (HeaderDone upgrade_request),
      HttpRuns 0 (BodyDone ''203.0.113.7'' upgrade_request),
      WsRuns 1 (Accepted False False (WebSocketContext upgrade_request ''203.0.113.7'')),
      Destroys 0, Accepts, HttpRuns 2 OnRun, HttpRuns 2 (DetectDone False False), Stops, TellsStop, TellsStop]"

definition stopped_server :: "(example_h, unit, unit, nat, nat) server" where
  "stopped_server = the (exec (server_next upgrading_env example_router 8) (Server_run 0) running_events)"

lemma stopped_server_checked:
  "case exec (server_next upgrading_env example_router 8) (Server_run 0) running_events of
     None \<Rightarrow> False
   | Some (w :: (example_h, unit, unit, nat, nat) server) \<Rightarrow>
       sv_stopping w \<and> sv_telling w = [] \<and> length (sv_conns w) = 3 \<and> sv_stop_tasks w = [2]
     \<and> ls_accepting (sv_listener w) \<and> ls_open (sv_listener w)
     \<and> (case sv_conns w ! 1 of Ws s \<Rightarrow> wss_phase s = Running \<and> ws_open s \<and> \<not> wss_closing s | _ \<Rightarrow> False)
     \<and> (case sv_conns w ! 2 of Http s \<Rightarrow> hs_op s = ReadingHeader \<and> length (responses s) = 0 | _ \<Rightarrow> False)"
  by code_simp

lemma stopped_server_run:
  "exec (server_next upgrading_env example_router 8) (Server_run 0) running_events = Some stopped_server"
  "sv_stopping stopped_server" "sv_telling stopped_server = []" "length (sv_conns stopped_server) = 3"
  "ls_accepting (sv_listener stopped_server)" "ls_open (sv_listener stopped_server)"
  using stopped_server_checked unfolding stopped_server_def by (auto split: option.splits)

lemma stopped_server_websocket:
  obtains s where "sv_conns stopped_server ! 1 = Ws s" and "wss_phase s = Running" and "ws_open s" and "\<not> wss_closing s"
  using stopped_server_checked stopped_server_run(1) by (auto split: connection.splits)

lemma stopped_server_http:
  obtains s where "sv_conns stopped_server ! 2 = Http s" and "hs_op s = ReadingHeader" and "length (responses s) = 0"
  using stopped_server_checked stopped_server_run(1) by (auto split: connection.splits)

text \<open>The request the waiting connection still gets answered.\<close>

definition last_request :: "(example_h, unit, unit, nat) server_event list" where
  "last_request =
     [HttpRuns 2 (HeaderDone close_request), HttpRuns 2 (BodyDone ''203.0.113.7'' close_request),
      HttpRuns 2 PostedWriteRuns, HttpRuns 2 (WriteCompletes False), HttpRuns 2 StopTask]"

lemma answered_server_checked:
  "case exec (server_next upgrading_env example_router 8) stopped_server last_request of
     None \<Rightarrow> False
   | Some v \<Rightarrow> (case sv_conns v ! 2 of Http t \<Rightarrow> length (responses t) = 1 \<and> hs_op t = Ended | _ \<Rightarrow> False)"
  by code_simp

lemma upgrading_env_ok: "env_ok upgrading_env"
  using example_env_ok by (simp add: env_ok_def upgrading_env_def)

lemma server_exec_reachable:
  assumes "exec (server_next E rt limit) (Server_run world) es = Some w" and "env_ok E"
  shows "server_reachable E rt limit w"
  unfolding server_reachable_def
proof (rule exec_reachable [OF assms(1)])
  show "reachable (\<lambda>w. env_ok E \<and> server_starts w) (server_step E rt limit) (Server_run world)"
    using assms(2) by (intro reachable_init) (auto simp: server_starts_def)
qed (simp add: server_step_def)

lemma stopped_server_reachable: "server_reachable upgrading_env example_router 8 stopped_server"
  by (rule server_exec_reachable [OF stopped_server_run(1) upgrading_env_ok])

section \<open>Properties\<close>

text \<open>C16: A stopped server forgets no WebSocket: once every session was told to stop, each WebSocket that runs is
  closing, has lost its connection or has the close on its way, also one whose upgrade was under
  way when the stop came.\<close>

theorem stopped_server_closes_websockets:
  assumes "server_reachable E rt limit w" and "sv_stopping w" and "sv_telling w = []"
    and "i < length (sv_conns w)" and "sv_conns w ! i = Ws s" and "wss_phase s = Running"
  shows "wss_closing s \<or> \<not> ws_open s \<or> (\<exists>code. TaskClose code \<in> set (wss_posted s))"
proof -
  have "told w i" using server_reachable_inv [OF assms(1)] assms(2,4) by (simp add: server_inv_def)
  with assms(3,5,6) show ?thesis by (simp add: told_def ws_due_def)
qed

theorem stopped_server_closes_websockets_witness:
  "\<exists>s code. sv_conns stopped_server ! 1 = Ws s \<and> ws_open s \<and> TaskClose code \<in> set (wss_posted s)"
proof (rule stopped_server_websocket)
  fix s
  assume s: "sv_conns stopped_server ! 1 = Ws s" "wss_phase s = Running" "ws_open s" "\<not> wss_closing s"
  have "1 < length (sv_conns stopped_server)" by (simp add: stopped_server_run(4))
  from stopped_server_closes_websockets [OF stopped_server_reachable stopped_server_run(2,3) this s(1,2)] s
  show ?thesis by blast
qed

text \<open>C30: A stopping server admits nobody: whatever happens from then on, a connection that comes is dropped
  and an upgrade is refused.\<close>

theorem stopped_server_admits_nobody:
  assumes "run (server_step E rt limit) w es v" and "sv_stopping w"
    and "length (sv_conns w) \<le> i" and "i < length (sv_conns v)"
  shows "sv_conns v ! i = Gone \<or> (\<exists>s. sv_conns v ! i = Ws s \<and> wss_phase s = NotAccepted)"
proof -
  have "\<forall>j. length (sv_conns w) \<le> j \<and> j < length (sv_conns v) \<longrightarrow> newborn True E (sv_conns v ! j)"
    by (rule run_refused [OF assms(1,2)]) auto
  with assms(3,4) have "newborn True E (sv_conns v ! i)" by blast
  then show ?thesis by (cases "sv_conns v ! i") auto
qed

theorem stopped_server_admits_nobody_witness:
  "\<exists>v. run (server_step upgrading_env example_router 8) stopped_server [Accepts] v
     \<and> length (sv_conns v) = 4 \<and> (sv_conns v ! 3 = Gone \<or> (\<exists>s. sv_conns v ! 3 = Ws s \<and> wss_phase s = NotAccepted))"
proof -
  let ?v = "server_accept upgrading_env stopped_server"
  have run: "run (server_step upgrading_env example_router 8) stopped_server [Accepts] ?v"
    by (simp add: run_cons_simp server_step_def stopped_server_run(5))
  have len: "length (sv_conns ?v) = 4"
    using stopped_server_run by (simp add: server_accept_def ls_on_accept_def ls_do_accept_def Let_def reg_add_def)
  have "sv_conns ?v ! 3 = Gone \<or> (\<exists>s. sv_conns ?v ! 3 = Ws s \<and> wss_phase s = NotAccepted)"
    by (rule stopped_server_admits_nobody [OF run stopped_server_run(2)]) (simp_all add: len stopped_server_run(4))
  with run len show ?thesis by blast
qed

text \<open>C11: On a connection of a stopping server at most one more response is made, whatever the client still
  sends and whatever else happens on the server: the request being read is answered, none after it.\<close>

theorem stopped_server_one_more_response:
  assumes "server_reachable E rt limit w" and "sv_stopping w" and "run (server_step E rt limit) w es v"
    and "i < length (sv_conns w)" and "sv_conns w ! i = Http s" and "sv_conns v ! i = Http t"
  shows "length (responses t) \<le> length (responses s) + 1"
proof -
  have inv: "env_ok E" "server_inv E w" using server_reachable_inv [OF assms(1)] by auto
  from run_responses [OF assms(3) inv assms(2,4), of s "length (responses s) + may_answer s"] assms(5,6)
  show ?thesis using can_answer_le [of "hs_op s"] by auto
qed

theorem stopped_server_one_more_response_witness:
  "\<exists>s t v. run (server_step upgrading_env example_router 8) stopped_server last_request v
     \<and> sv_conns stopped_server ! 2 = Http s \<and> sv_conns v ! 2 = Http t
     \<and> length (responses t) = 1 \<and> length (responses t) \<le> length (responses s) + 1"
proof (rule stopped_server_http)
  fix s
  assume s: "sv_conns stopped_server ! 2 = Http s" "length (responses s) = 0"
  obtain v where "exec (server_next upgrading_env example_router 8) stopped_server last_request = Some v"
    and t: "case sv_conns v ! 2 of Http t \<Rightarrow> length (responses t) = 1 \<and> hs_op t = Ended | _ \<Rightarrow> False"
    using answered_server_checked by (auto split: option.splits)
  then have run: "run (server_step upgrading_env example_router 8) stopped_server last_request v"
    by (intro exec_run) (auto simp: server_step_def)
  from t obtain t where t: "sv_conns v ! 2 = Http t" "length (responses t) = 1" by (auto split: connection.splits)
  have "2 < length (sv_conns stopped_server)" by (simp add: stopped_server_run(4))
  from stopped_server_one_more_response [OF stopped_server_reachable stopped_server_run(2) run this s(1) t(1)] run s t
  show ?thesis by blast
qed

end
