(* ===== verification/ServerSetup.thy ===== *)
theory ServerSetup
  imports HttpSession "HOL-Library.Word"
begin

unbundle bit_operations_syntax

text \<open>
  How a server is configured: \<^verbatim>\<open>ServerOptions\<close>, the \<^verbatim>\<open>Protocol\<close> flags and
  \<^verbatim>\<open>run\<close> of Listener.h, which choose the kind of the sessions, what the sessions do with the
  options, and the teardown of a TLS stream (detail/TlsStream.h).
\<close>

section \<open>Options\<close>

text \<open>Times in milliseconds; \<^verbatim>\<open>size_t\<close> has 64 bits.\<close>

record server_options =
  so_http_header_limit :: "64 word"
  so_http_body_limit :: "64 word"
  so_http_timeout :: nat
  so_http_linger_timeout :: nat
  so_websocket_message_limit :: "64 word"
  so_websocket_handshake_timeout :: nat
  so_websocket_idle_timeout :: nat
  so_websocket_keep_alive_pings :: bool
  so_websocket_send_queue_limit :: nat

definition ServerOptions :: server_options where
  "ServerOptions =
     \<lparr>so_http_header_limit = 8 * 1024, so_http_body_limit = 10000, so_http_timeout = 30000,
      so_http_linger_timeout = 2000, so_websocket_message_limit = 16 * 1024 * 1024,
      so_websocket_handshake_timeout = 30000, so_websocket_idle_timeout = 300000,
      so_websocket_keep_alive_pings = True, so_websocket_send_queue_limit = 32\<rparr>"

text \<open>What a session tells the request parser: the limit of the header is cut to 32 bits.\<close>

definition parser_limits :: "server_options \<Rightarrow> 32 word \<times> 64 word" where
  "parser_limits options = (ucast (so_http_header_limit options), so_http_body_limit options)"

text \<open>What a WebSocket session tells its stream before the handshake.\<close>

record stream_options =
  st_handshake_timeout :: nat
  st_idle_timeout :: nat
  st_keep_alive_pings :: bool
  st_read_message_max :: "64 word"

definition ws_do_accept :: "server_options \<Rightarrow> stream_options" where
  "ws_do_accept options =
     \<lparr>st_handshake_timeout = so_websocket_handshake_timeout options,
      st_idle_timeout = so_websocket_idle_timeout options,
      st_keep_alive_pings = so_websocket_keep_alive_pings options,
      st_read_message_max = so_websocket_message_limit options\<rparr>"

section \<open>Protocols\<close>

definition proto_HTTP :: "8 word" where "proto_HTTP = push_bit 0 1"
definition proto_HTTPS :: "8 word" where "proto_HTTPS = push_bit 1 1"
definition proto_WS :: "8 word" where "proto_WS = push_bit 2 1"
definition proto_WSS :: "8 word" where "proto_WSS = push_bit 3 1"
definition proto_ANY_SSL :: "8 word" where "proto_ANY_SSL = proto_HTTPS OR proto_WSS"
definition proto_ANY_PLAIN :: "8 word" where "proto_ANY_PLAIN = proto_HTTP OR proto_WS"

definition has_flag :: "8 word \<Rightarrow> 8 word \<Rightarrow> bool" where
  "has_flag flags bits \<longleftrightarrow> flags AND bits \<noteq> 0"

text \<open>
  \<^verbatim>\<open>run\<close>: flags that do not compile, because the listener or its sessions support
  nothing, the exception without a TLS context, or the kind of sessions the listener starts.
\<close>

datatype run_error = NoProtocol | NoSslContext

definition Listener_start :: "8 word \<Rightarrow> bool \<Rightarrow> run_error + (bool \<times> bool)" where
  "Listener_start flags has_context =
     (if flags = 0 \<or> \<not> (has_flag flags proto_ANY_PLAIN \<or> has_flag flags proto_ANY_SSL) then Inl NoProtocol
      else if has_flag flags proto_ANY_SSL \<and> \<not> has_context then Inl NoSslContext
      else Inr (has_flag flags proto_ANY_PLAIN, has_flag flags proto_ANY_SSL))"

text \<open>
  The constructor: the four calls on the acceptor report an error each or none, and the first error
  is thrown with the name of its call.
\<close>

definition Listener_open ::
  "'e option \<Rightarrow> 'e option \<Rightarrow> 'e option \<Rightarrow> 'e option \<Rightarrow> string \<Rightarrow> (string \<times> 'e) + unit" where
  "Listener_open open_ec option_ec bind_ec listen_ec endpoint =
     (case open_ec of
        Some ec \<Rightarrow> Inl (''Listener: open'', ec)
      | None \<Rightarrow> (case option_ec of
          Some ec \<Rightarrow> Inl (''Listener: set_option'', ec)
        | None \<Rightarrow> (case bind_ec of
            Some ec \<Rightarrow> Inl (''Listener: bind '' @ endpoint, ec)
          | None \<Rightarrow> (case listen_ec of
              Some ec \<Rightarrow> Inl (''Listener: listen'', ec)
            | None \<Rightarrow> Inr ()))))"

section \<open>The peer's address\<close>

definition remote_ip :: "string option \<Rightarrow> string" where
  "remote_ip endpoint = (case endpoint of None \<Rightarrow> ''UNKNOWN'' | Some address \<Rightarrow> address)"

section \<open>Closing TLS streams\<close>

text \<open>
  The socket under a TLS stream: open or not, and the time its operations may take. The peer
  answers the shutdown in some time, or never.
\<close>

record tls_socket =
  tk_open :: bool
  tk_expiry :: "nat option"

definition tls_teardown_grace :: nat where
  "tls_teardown_grace = 500"

definition teardown_start :: "tls_socket \<Rightarrow> tls_socket" where
  "teardown_start s = s\<lparr>tk_expiry := Some tls_teardown_grace\<rparr>"

text \<open>When a shutdown that starts now ends: the peer's answer or the expiry, the first of the two.\<close>

definition shutdown_ends :: "nat option \<Rightarrow> tls_socket \<Rightarrow> nat option" where
  "shutdown_ends answer s =
     (case (answer, tk_expiry s) of
        (Some a, Some e) \<Rightarrow> Some (min a e)
      | (Some a, None) \<Rightarrow> Some a
      | (None, expiry) \<Rightarrow> expiry)"

text \<open>The handler of the shutdown: whatever its error, the socket is closed and the error cleared.\<close>

definition teardown_finish :: "'e \<Rightarrow> tls_socket \<Rightarrow> 'e option \<times> tls_socket" where
  "teardown_finish error s = (None, s\<lparr>tk_open := False\<rparr>)"

definition async_teardown :: "nat option \<Rightarrow> 'e \<Rightarrow> tls_socket \<Rightarrow> (nat \<times> 'e option \<times> tls_socket) option" where
  "async_teardown answer error s =
     (let s1 = teardown_start s
      in case shutdown_ends answer s1 of
           Some t \<Rightarrow> Some (t, teardown_finish error s1)
         | None \<Rightarrow> None)"

text \<open>The same without a handler: the call returns when the shutdown ended.\<close>

definition teardown :: "tls_socket \<Rightarrow> 'e option \<times> tls_socket" where
  "teardown s = (None, (teardown_start s)\<lparr>tk_open := False\<rparr>)"

section \<open>What kind of stream a session has\<close>

text \<open>
  A session is on TLS only when its listener supports TLS, and on plain TCP only when it supports
  that; detection happens on plain sessions.
\<close>

definition stream_ok :: "('h, 'p) session_env \<Rightarrow> ('h, 'w) http_session \<Rightarrow> bool" where
  "stream_ok E s \<longleftrightarrow> (hs_tls s \<longrightarrow> se_with_ssl E) \<and> (\<not> hs_tls s \<longrightarrow> se_with_plain E)"

lemma tls_frame [simp]:
  "hs_tls (hs_do_write s) = hs_tls s" "hs_tls (queue_write r s) = hs_tls s" "hs_tls (posted_write F s) = hs_tls s"
  "hs_tls (do_linger s) = hs_tls s" "hs_tls (do_eof s) = hs_tls s" "hs_tls (hs_do_read s) = hs_tls s"
  "hs_tls (hs_on_write k failed s) = hs_tls s" "hs_tls (send_error E n s) = hs_tls s"
  "hs_tls (on_read_error E ec te s) = hs_tls s" "hs_tls (outcome_state (on_read_request E rt ip m s)) = hs_tls s"
  "hs_tls (read_body s) = hs_tls s" "hs_tls (on_read_header E h s) = hs_tls s" "hs_tls (on_continue_written failed s) = hs_tls s"
  "hs_tls (hs_on_run s) = hs_tls s" "hs_tls (on_handshake failed s) = hs_tls s" "hs_tls (on_stop s) = hs_tls s"
  "hs_tls (on_linger failed s) = hs_tls s"
  by (simp_all add: hs_do_write_def queue_write_def posted_write_def do_linger_def do_eof_def hs_do_read_def
      hs_on_write_def send_error_def on_read_error_def on_read_request_def read_body_def on_read_header_def
      on_continue_written_def hs_on_run_def on_handshake_def on_stop_def on_linger_def Let_def
      split: list.split option.split outcome.split)

lemma stream_step:
  assumes "stream_ok E s" and "http_step E rt s e t"
  shows "stream_ok E t"
proof (cases e)
  case (DetectDone failed tls)
  with assms(2) have "t = on_detect E failed tls s" by (simp add: http_step_def split: if_splits)
  then have "hs_tls t \<Longrightarrow> hs_tls s \<or> se_with_ssl E" and "\<not> hs_tls t \<Longrightarrow> \<not> hs_tls s"
    by (auto simp: on_detect_def on_ssl_session_def Let_def split: if_splits)
  with assms(1) show ?thesis by (auto simp: stream_ok_def)
next
  case (WriteCompletes failed)
  with assms(2) obtain k where "t = hs_on_write k failed s" by (auto simp: http_step_def split: io_op.splits)
  with assms(1) show ?thesis by (simp add: stream_ok_def)
qed (use assms in \<open>auto simp: http_step_def stream_ok_def split: if_splits\<close>)

text \<open>The sessions of a listener that \<^verbatim>\<open>run\<close> accepted.\<close>

definition started_by :: "8 word \<Rightarrow> bool \<Rightarrow> ('h, 'p) session_env \<Rightarrow> bool" where
  "started_by flags has_context E \<longleftrightarrow> Listener_start flags has_context = Inr (se_with_plain E, se_with_ssl E)"

lemma stream_start: "started_by flags has_context E \<Longrightarrow> stream_ok E (HttpSession E w)"
  by (auto simp: started_by_def Listener_start_def stream_ok_def HttpSession_def split: if_splits)

interpretation stream_system: invariant_system
  "\<lambda>s. started_by flags has_context E \<and> (\<exists>w. s = HttpSession E w)" "http_step E rt" "stream_ok E"
  for flags has_context and E :: "('h, 'p) session_env" and rt :: "('h, 'c, 'b, 'w, 'p) router"
  by unfold_locales (auto intro: stream_start stream_step)

section \<open>Properties\<close>

text \<open>A session never does TLS without a context: when the listener was started, each of its sessions
  that is on a TLS stream, from the first byte or after detection, has the context the handshake
  needs, and a session stays on plain TCP only on a listener that supports it.\<close>

theorem listener_tls_has_context:
  assumes "Listener_start flags has_context = Inr (se_with_plain E, se_with_ssl E)"
    and "reachable (\<lambda>s. \<exists>w. s = HttpSession E w) (http_step E rt) s"
  shows "(hs_tls s \<longrightarrow> has_context \<and> has_flag flags proto_ANY_SSL) \<and> (\<not> hs_tls s \<longrightarrow> has_flag flags proto_ANY_PLAIN)"
proof -
  have "started_by flags has_context E" using assms(1) by (simp add: started_by_def)
  with assms(2) have "reachable (\<lambda>s. started_by flags has_context E \<and> (\<exists>w. s = HttpSession E w)) (http_step E rt) s" by simp
  then have "stream_ok E s" by (rule stream_system.reachable_inv)
  with assms(1) show ?thesis by (auto simp: stream_ok_def Listener_start_def split: if_splits)
qed

definition tls_env :: "(example_h, string) session_env" where
  "tls_env = example_env\<lparr>se_with_ssl := True\<rparr>"

theorem listener_tls_has_context_witness:
  "\<exists>s. exec (http_next tls_env example_router) (HttpSession tls_env 0) [OnRun, DetectDone False True] = Some s
     \<and> hs_tls s \<and> has_flag (proto_HTTP OR proto_HTTPS) proto_ANY_SSL"
proof -
  obtain s where s: "exec (http_next tls_env example_router) (HttpSession tls_env 0) [OnRun, DetectDone False True] = Some s"
    and tls: "hs_tls s"
    by (simp add: tls_env_def http_exec_defs on_ssl_session_def)
  have reach: "reachable (\<lambda>s. \<exists>w. s = HttpSession tls_env w) (http_step tls_env example_router) s"
    by (rule exec_reachable [OF s]) (auto simp: http_step_def intro: reachable_init)
  have "Listener_start (proto_HTTP OR proto_HTTPS) True = Inr (se_with_plain tls_env, se_with_ssl tls_env)"
    by (simp add: tls_env_def example_env_def) code_simp
  from listener_tls_has_context [OF this reach] s tls show ?thesis by blast
qed

text \<open>A limit of the header of 4 GiB or more does not reach the parser: it gets the limit modulo 2 to the
  power of 32, which for a multiple of 4 GiB is zero.\<close>

theorem header_limit_wraps:
  "unat (fst (parser_limits options)) = unat (so_http_header_limit options) mod 2 ^ 32
    \<and> (unat (fst (parser_limits options)) = unat (so_http_header_limit options)
         \<longleftrightarrow> unat (so_http_header_limit options) < 2 ^ 32)"
proof -
  have "unat (fst (parser_limits options)) = unat (so_http_header_limit options) mod 2 ^ 32"
    by (simp add: parser_limits_def unsigned_ucast_eq take_bit_eq_mod)
  then show ?thesis by (metis mod_less mod_less_divisor zero_less_numeral zero_less_power)
qed

text \<open>The teardown of a TLS stream ends within its grace, also when the peer never answers, with the
  socket closed and no error.\<close>

theorem teardown_always_ends:
  "\<exists>t u. async_teardown answer error s = Some (t, None, u) \<and> t \<le> tls_teardown_grace \<and> \<not> tk_open u"
  by (cases answer) (simp_all add: async_teardown_def teardown_start_def shutdown_ends_def teardown_finish_def Let_def)

end
