(* ===== verification/ClientCommon.thy ===== *)
theory ClientCommon
  imports Prelude
begin

text \<open>
  What the two clients share (\<^verbatim>\<open>sources/Client/ClientCommon.cpp\<close>, \<^verbatim>\<open>ClientTlsOptions.h\<close>,
  the error enumeration of \<^verbatim>\<open>HttpClient.h\<close>): taking a URL apart and configuring TLS.
  Boost.URL, the file system and what OpenSSL accepts are parameters.
\<close>

section \<open>Errors of the clients\<close>

datatype client_error =
    ErrTimeout
  | ErrCancelled
  | ErrResponseTooLarge
  | ErrInvalidUrl
  | ErrUnsupportedScheme
  | ErrClosed
  | ErrWaitOnClientThread
  | ErrUpgradeRejected
  | ErrGaveUp

fun error_value :: "client_error \<Rightarrow> int" where
  "error_value ErrTimeout = 1"
| "error_value ErrCancelled = 2"
| "error_value ErrResponseTooLarge = 3"
| "error_value ErrInvalidUrl = 4"
| "error_value ErrUnsupportedScheme = 5"
| "error_value ErrClosed = 6"
| "error_value ErrWaitOnClientThread = 7"
| "error_value ErrUpgradeRejected = 8"
| "error_value ErrGaveUp = 9"

text \<open>The error category gets the numeric value of an error code, which may be any.\<close>

definition client_message :: "int \<Rightarrow> string" where
  "client_message v =
     (if v = 1 then ''request timed out''
      else if v = 2 then ''request cancelled''
      else if v = 3 then ''response larger than max_response_size''
      else if v = 4 then ''invalid URL''
      else if v = 5 then ''unsupported URL scheme, only http and https''
      else if v = 6 then ''HTTP client destroyed''
      else if v = 7 then ''Call::wait() from a client callback would deadlock''
      else if v = 8 then ''WebSocket upgrade rejected by the server''
      else if v = 9 then ''WebSocket reconnect attempts used up''
      else ''unknown HTTP client error'')"

lemma client_message_known:
  "client_message (error_value e) \<noteq> ''unknown HTTP client error''"
  "client_message (error_value e) = client_message (error_value e') \<Longrightarrow> e = e'"
  by (cases e; simp add: client_message_def) (cases e; cases e'; simp add: client_message_def)

section \<open>URLs\<close>

record target =
  tg_tls :: bool
  tg_host :: string
  tg_port :: string
  tg_host_header :: string
  tg_target :: string
  tg_key :: string

datatype url_kind = HttpUrl | WebSocketUrl

datatype scheme_id = SchemeHttp | SchemeHttps | SchemeWs | SchemeWss | SchemeOther

text \<open>
  What the code reads of a URL parsed by Boost.URL. \<open>up_ipv6\<close> is the text of the address when the
  host is one, \<open>up_port\<close> and \<open>up_query\<close> are None when the URL has none.
\<close>

record parsed_url =
  up_has_authority :: bool
  up_scheme :: string
  up_scheme_id :: scheme_id
  up_host :: string
  up_ipv6 :: "string option"
  up_port :: "string option"
  up_encoded_host_and_port :: string
  up_encoded_host :: string
  up_encoded_path :: string
  up_encoded_query :: "string option"

type_synonym url_lib = "string \<Rightarrow> parsed_url option"

text \<open>
  Documented of the parser: a scheme and a port hold no colon, and the scheme's identifier depends
  on its text only.
\<close>

definition urls_ok :: "url_lib \<Rightarrow> bool" where
  "urls_ok parse_uri \<longleftrightarrow>
     (\<forall>url u. parse_uri url = Some u \<longrightarrow> CHR '':'' \<notin> set (up_scheme u)
        \<and> (\<forall>port. up_port u = Some port \<longrightarrow> CHR '':'' \<notin> set port))
   \<and> (\<forall>url u url' u'. parse_uri url = Some u \<longrightarrow> parse_uri url' = Some u' \<longrightarrow> up_scheme u = up_scheme u'
        \<longrightarrow> up_scheme_id u = up_scheme_id u')"

definition plain_scheme :: "url_kind \<Rightarrow> scheme_id" where
  "plain_scheme kind = (case kind of HttpUrl \<Rightarrow> SchemeHttp | WebSocketUrl \<Rightarrow> SchemeWs)"

definition secure_scheme :: "url_kind \<Rightarrow> scheme_id" where
  "secure_scheme kind = (case kind of HttpUrl \<Rightarrow> SchemeHttps | WebSocketUrl \<Rightarrow> SchemeWss)"

definition default_port :: "bool \<Rightarrow> string" where
  "default_port tls = (if tls then ''443'' else ''80'')"

definition make_target :: "bool \<Rightarrow> parsed_url \<Rightarrow> target" where
  "make_target tls u =
     (let host = (case up_ipv6 u of Some address \<Rightarrow> address | None \<Rightarrow> up_host u);
          port = (case up_port u of Some p \<Rightarrow> p | None \<Rightarrow> default_port tls);
          is_default = (up_port u = None \<or> port = default_port tls);
          host_header = (if is_default \<and> up_port u \<noteq> None then up_encoded_host u
                         else up_encoded_host_and_port u);
          path = (if up_encoded_path u = [] then ''/'' else up_encoded_path u);
          query = (case up_encoded_query u of Some q \<Rightarrow> ''?'' @ q | None \<Rightarrow> [])
      in \<lparr>tg_tls = tls, tg_host = host, tg_port = port, tg_host_header = host_header,
          tg_target = path @ query, tg_key = up_scheme u @ ''://'' @ host @ '':'' @ port\<rparr>)"

definition parseUrl :: "url_lib \<Rightarrow> string \<Rightarrow> url_kind \<Rightarrow> client_error + target" where
  "parseUrl parse_uri url kind =
     (case parse_uri url of
        None \<Rightarrow> Inl ErrInvalidUrl
      | Some u \<Rightarrow>
          if \<not> up_has_authority u \<or> up_host u = [] then Inl ErrInvalidUrl
          else if up_scheme_id u = secure_scheme kind then Inr (make_target True u)
          else if up_scheme_id u \<noteq> plain_scheme kind then Inl ErrUnsupportedScheme
          else Inr (make_target False u))"

lemma parseUrl_InrE:
  assumes "parseUrl parse_uri url kind = Inr t"
  obtains u where "parse_uri url = Some u" and "up_has_authority u" and "up_host u \<noteq> []"
    and "t = make_target (up_scheme_id u = secure_scheme kind) u"
    and "up_scheme_id u \<in> {secure_scheme kind, plain_scheme kind}"
  using assms by (auto simp: parseUrl_def split: option.splits if_splits)

text \<open>Text before the first colon, text after the last.\<close>

lemma append_colon_inj:
  assumes "s @ CHR '':'' # xs = s' @ CHR '':'' # ys" and "CHR '':'' \<notin> set s" and "CHR '':'' \<notin> set s'"
  shows "s = s' \<and> xs = ys"
proof -
  have cut: "takeWhile (\<lambda>c. c \<noteq> CHR '':'') (p @ CHR '':'' # q) = p" if "CHR '':'' \<notin> set p" for p q
    using that by (induction p) auto
  have "s = s'" using cut [OF assms(2)] cut [OF assms(3)] assms(1) by metis
  with assms(1) show ?thesis by simp
qed

lemma colon_append_inj:
  assumes "xs @ CHR '':'' # p = ys @ CHR '':'' # p'" and "CHR '':'' \<notin> set p" and "CHR '':'' \<notin> set p'"
  shows "xs = ys \<and> p = p'"
proof -
  have "rev p @ CHR '':'' # rev xs = rev p' @ CHR '':'' # rev ys"
    using arg_cong [OF assms(1), of rev] by simp
  from append_colon_inj [OF this] assms(2,3) show ?thesis by simp
qed

lemma target_key_parts:
  assumes "tg_key (make_target tls u) = tg_key (make_target tls' u')"
    and "CHR '':'' \<notin> set (up_scheme u)" and "CHR '':'' \<notin> set (up_scheme u')"
    and "\<forall>port. up_port u = Some port \<longrightarrow> CHR '':'' \<notin> set port"
    and "\<forall>port. up_port u' = Some port \<longrightarrow> CHR '':'' \<notin> set port"
  shows "up_scheme u = up_scheme u' \<and> tg_host (make_target tls u) = tg_host (make_target tls' u')
    \<and> tg_port (make_target tls u) = tg_port (make_target tls' u')"
proof -
  let ?t = "make_target tls u" and ?t' = "make_target tls' u'"
  have key: "tg_key ?t = up_scheme u @ CHR '':'' # ''//'' @ tg_host ?t @ CHR '':'' # tg_port ?t"
    "tg_key ?t' = up_scheme u' @ CHR '':'' # ''//'' @ tg_host ?t' @ CHR '':'' # tg_port ?t'"
    by (simp_all add: make_target_def Let_def)
  have port: "CHR '':'' \<notin> set (tg_port ?t)" "CHR '':'' \<notin> set (tg_port ?t')"
    using assms(4,5) by (auto simp: make_target_def Let_def default_port_def split: option.splits)
  from append_colon_inj [OF assms(1) [unfolded key] assms(2,3)]
  have scheme: "up_scheme u = up_scheme u'"
    and rest: "tg_host ?t @ CHR '':'' # tg_port ?t = tg_host ?t' @ CHR '':'' # tg_port ?t'" by auto
  from colon_append_inj [OF rest port] scheme show ?thesis by blast
qed

section \<open>TLS\<close>

record tls_options =
  verify_peer :: bool
  use_bundled_cas :: bool
  use_system_cas :: bool
  extra_ca_files :: "string list"
  extra_ca_dirs :: "string list"
  extra_ca_pem :: "string list"

definition ClientTlsOptions :: tls_options where
  "ClientTlsOptions =
     \<lparr>verify_peer = True, use_bundled_cas = True, use_system_cas = False, extra_ca_files = [],
      extra_ca_dirs = [], extra_ca_pem = []\<rparr>"

text \<open>The calls made on the OpenSSL context, in order, with the flags of \<^verbatim>\<open>set_options\<close>.\<close>

datatype tls_flag = DefaultWorkarounds | NoSslv2 | NoSslv3 | NoTlsv1 | NoTlsv1_1

datatype tls_call =
    SetOptions "tls_flag list"
  | SetVerifyMode bool
  | AddBundledPart nat
  | SetDefaultVerifyPaths
  | LoadVerifyFile string
  | AddVerifyPath string
  | AddAuthority string

datatype tls_error = CaRefused tls_call | NoSuchDirectory string | NoCaStore | NoCaSource

text \<open>The process's environment and file system, the size of the bundle, and what OpenSSL accepts.\<close>

record tls_env =
  te_file_exists :: "string \<Rightarrow> bool"
  te_dir_exists :: "string \<Rightarrow> bool"
  te_cert_file :: "string option"
  te_cert_dir :: "string option"
  te_bundle_parts :: nat
  te_accepts :: "tls_call \<Rightarrow> bool"

definition system_ca_files :: "string list" where
  "system_ca_files =
     [''/etc/ssl/certs/ca-certificates.crt'', ''/etc/pki/tls/certs/ca-bundle.crt'', ''/etc/ssl/ca-bundle.pem'',
      ''/etc/pki/tls/cacert.pem'', ''/etc/pki/ca-trust/extracted/pem/tls-ca-bundle.pem'', ''/etc/ssl/cert.pem'',
      ''/usr/local/etc/ssl/cert.pem'']"

type_synonym tls_state = "tls_call list \<times> bool"

definition call_tls :: "tls_env \<Rightarrow> tls_call \<Rightarrow> bool \<Rightarrow> tls_state \<Rightarrow> tls_error + tls_state" where
  "call_tls env c trusts st =
     (if te_accepts env c then Inr (fst st @ [c], snd st \<or> trusts) else Inl (CaRefused c))"

fun call_all ::
  "(string \<Rightarrow> tls_state \<Rightarrow> tls_error + tls_state) \<Rightarrow> string list \<Rightarrow> tls_state \<Rightarrow> tls_error + tls_state" where
  "call_all f [] st = Inr st"
| "call_all f (x # xs) st = (case f x st of Inl e \<Rightarrow> Inl e | Inr st1 \<Rightarrow> call_all f xs st1)"

fun first_existing :: "(string \<Rightarrow> bool) \<Rightarrow> string list \<Rightarrow> string option" where
  "first_existing exists_at [] = None"
| "first_existing exists_at (p # ps) = (if exists_at p then Some p else first_existing exists_at ps)"

definition loadSystemCas :: "tls_env \<Rightarrow> tls_state \<Rightarrow> tls_error + tls_state" where
  "loadSystemCas env st =
     (case call_tls env SetDefaultVerifyPaths False st of
        Inl e \<Rightarrow> Inl e
      | Inr st1 \<Rightarrow>
          let found = ((case te_cert_file env of Some f \<Rightarrow> te_file_exists env f | None \<Rightarrow> False)
                \<or> (case te_cert_dir env of Some d \<Rightarrow> te_dir_exists env d | None \<Rightarrow> False))
          in case first_existing (te_file_exists env) system_ca_files of
               Some path \<Rightarrow> call_tls env (LoadVerifyFile path) True st1
             | None \<Rightarrow> Inr (fst st1, snd st1 \<or> found))"

fun add_bundle :: "tls_env \<Rightarrow> nat \<Rightarrow> nat \<Rightarrow> tls_state \<Rightarrow> tls_error + tls_state" where
  "add_bundle env i 0 st = Inr (fst st, True)"
| "add_bundle env i (Suc n) st =
     (case call_tls env (AddBundledPart i) True st of
        Inl e \<Rightarrow> Inl e | Inr st1 \<Rightarrow> add_bundle env (Suc i) n st1)"

definition add_dir :: "tls_env \<Rightarrow> string \<Rightarrow> tls_state \<Rightarrow> tls_error + tls_state" where
  "add_dir env dir st =
     (if \<not> te_dir_exists env dir then Inl (NoSuchDirectory dir) else call_tls env (AddVerifyPath dir) True st)"

text \<open>One source of certificates after the other; the first that fails throws.\<close>

definition and_then ::
  "tls_error + tls_state \<Rightarrow> (tls_state \<Rightarrow> tls_error + tls_state) \<Rightarrow> tls_error + tls_state" where
  "and_then r f = (case r of Inl e \<Rightarrow> Inl e | Inr st \<Rightarrow> f st)"

definition configureClientTls :: "tls_env \<Rightarrow> tls_options \<Rightarrow> tls_error + tls_call list" where
  "configureClientTls env opts =
     (let st0 = ([SetOptions [DefaultWorkarounds, NoSslv2, NoSslv3, NoTlsv1, NoTlsv1_1],
                  SetVerifyMode (verify_peer opts)], False);
          r1 = (if use_bundled_cas opts then add_bundle env 0 (te_bundle_parts env) st0 else Inr st0);
          r2 = and_then r1 (\<lambda>st. if use_system_cas opts then loadSystemCas env st else Inr st);
          r3 = and_then r2 (call_all (\<lambda>f. call_tls env (LoadVerifyFile f) True) (extra_ca_files opts));
          r4 = and_then r3 (call_all (add_dir env) (extra_ca_dirs opts));
          r5 = and_then r4 (call_all (\<lambda>pem. call_tls env (AddAuthority pem) True) (extra_ca_pem opts))
      in case r5 of
           Inl e \<Rightarrow> Inl e
         | Inr (calls, trusted) \<Rightarrow>
             if verify_peer opts \<and> \<not> trusted
             then Inl (if use_system_cas opts then NoCaStore else NoCaSource)
             else Inr calls)"

text \<open>A call that brings certificates to verify against.\<close>

fun ca_source :: "tls_env \<Rightarrow> tls_call \<Rightarrow> bool" where
  "ca_source env (AddBundledPart i) = True"
| "ca_source env (LoadVerifyFile f) = True"
| "ca_source env (AddVerifyPath d) = True"
| "ca_source env (AddAuthority pem) = True"
| "ca_source env SetDefaultVerifyPaths =
     ((\<exists>f. te_cert_file env = Some f \<and> te_file_exists env f) \<or> (\<exists>d. te_cert_dir env = Some d \<and> te_dir_exists env d))"
| "ca_source env (SetOptions flags) = False"
| "ca_source env (SetVerifyMode v) = False"

definition trust_ok :: "tls_env \<Rightarrow> tls_state \<Rightarrow> bool" where
  "trust_ok env st \<longleftrightarrow> (snd st \<longrightarrow> (\<exists>c \<in> set (fst st). ca_source env c))"

text \<open>Calls are only added, and what is trusted has a source.\<close>

definition tls_extends :: "tls_env \<Rightarrow> tls_state \<Rightarrow> tls_error + tls_state \<Rightarrow> bool" where
  "tls_extends env st r \<longleftrightarrow>
     (\<forall>st'. r = Inr st' \<longrightarrow> (\<exists>cs. fst st' = fst st @ cs) \<and> (trust_ok env st \<longrightarrow> trust_ok env st'))"

lemma tls_extends_Inr [simp]: "tls_extends env st (Inr st)" "tls_extends env st (Inl e)"
  by (auto simp: tls_extends_def)

lemma tls_extends_trans:
  assumes "tls_extends env st r" and "\<And>st'. r = Inr st' \<Longrightarrow> tls_extends env st' (f st')"
  shows "tls_extends env st (and_then r f)"
proof (cases r)
  case (Inr st')
  from assms(2) [OF Inr] assms(1) Inr show ?thesis by (fastforce simp: tls_extends_def and_then_def)
qed (simp add: and_then_def)

lemma call_tls_extends: "(trusts \<Longrightarrow> ca_source env c) \<Longrightarrow> tls_extends env st (call_tls env c trusts st)"
  by (auto simp: tls_extends_def call_tls_def trust_ok_def split: if_splits)

lemma call_all_Cons: "call_all f (x # xs) st = and_then (f x st) (call_all f xs)"
  by (simp add: and_then_def)

lemma call_all_extends:
  assumes "\<And>x st. tls_extends env st (f x st)"
  shows "tls_extends env st (call_all f xs st)"
proof (induction xs arbitrary: st)
  case (Cons x xs)
  show ?case unfolding call_all_Cons by (rule tls_extends_trans [OF assms Cons.IH])
qed simp

lemma add_dir_extends: "tls_extends env st (add_dir env d st)"
  by (simp add: add_dir_def call_tls_extends)

lemma loadSystemCas_extends: "tls_extends env st (loadSystemCas env st)"
proof (cases "call_tls env SetDefaultVerifyPaths False st")
  case (Inr st1)
  then have st1: "st1 = (fst st @ [SetDefaultVerifyPaths], snd st)" by (simp add: call_tls_def split: if_splits)
  have from_file: "tls_extends env st (call_tls env (LoadVerifyFile path) True st1)" for path
    by (auto simp: tls_extends_def call_tls_def trust_ok_def st1 split: if_splits)
  have "tls_extends env st (Inr (fst st1, snd st1 \<or> ca_source env SetDefaultVerifyPaths))"
    by (auto simp: tls_extends_def trust_ok_def st1)
  with from_file show ?thesis
    by (auto simp: loadSystemCas_def Inr Let_def split: option.splits)
qed (simp add: loadSystemCas_def)

lemma add_bundle_extends: "0 < n \<or> snd st \<Longrightarrow> tls_extends env st (add_bundle env i n st)"
proof (induction n arbitrary: i st)
  case 0
  then show ?case by (auto simp: tls_extends_def trust_ok_def)
next
  case (Suc n)
  have "add_bundle env i (Suc n) st = and_then (call_tls env (AddBundledPart i) True st) (add_bundle env (Suc i) n)"
    by (simp add: and_then_def)
  also have "tls_extends env st \<dots>"
    by (rule tls_extends_trans [OF call_tls_extends], simp,
        rule Suc.IH, simp add: call_tls_def split: if_splits, auto)
  finally show ?case .
qed

section \<open>Properties\<close>

text \<open>Two requests share a connection only when their URLs agree in scheme, host and port, and so in
  whether the connection is encrypted: the key of the connection cache determines all of them.\<close>

theorem connection_key_determines_server:
  assumes "urls_ok parse_uri" and "parseUrl parse_uri url kind = Inr t" and "parseUrl parse_uri url' kind = Inr t'"
    and "tg_key t = tg_key t'"
  shows "tg_host t = tg_host t' \<and> tg_port t = tg_port t' \<and> tg_tls t = tg_tls t'"
proof -
  from parseUrl_InrE [OF assms(2)] obtain u where u: "parse_uri url = Some u"
    and t: "t = make_target (up_scheme_id u = secure_scheme kind) u" .
  from parseUrl_InrE [OF assms(3)] obtain u' where u': "parse_uri url' = Some u'"
    and t': "t' = make_target (up_scheme_id u' = secure_scheme kind) u'" .
  from assms(1) u u' have parts: "CHR '':'' \<notin> set (up_scheme u)" "CHR '':'' \<notin> set (up_scheme u')"
    "\<forall>port. up_port u = Some port \<longrightarrow> CHR '':'' \<notin> set port" "\<forall>port. up_port u' = Some port \<longrightarrow> CHR '':'' \<notin> set port"
    by (auto simp: urls_ok_def)
  from target_key_parts [OF assms(4) [unfolded t t'] parts] t t'
  have same: "up_scheme u = up_scheme u'" "tg_host t = tg_host t'" "tg_port t = tg_port t'" by auto
  moreover have "up_scheme_id u = up_scheme_id u'" using assms(1) u u' same(1) unfolding urls_ok_def by blast
  moreover have "tg_tls (make_target tls v) = tls" for tls v by (simp add: make_target_def Let_def)
  ultimately show ?thesis by (simp add: t t')
qed

definition example_url :: "string \<Rightarrow> string option \<Rightarrow> string \<Rightarrow> string option \<Rightarrow> parsed_url" where
  "example_url host port path query =
     \<lparr>up_has_authority = True, up_scheme = ''https'', up_scheme_id = SchemeHttps, up_host = host, up_ipv6 = None,
      up_port = port, up_encoded_host_and_port = host @ (case port of Some p \<Rightarrow> '':'' @ p | None \<Rightarrow> []),
      up_encoded_host = host, up_encoded_path = path, up_encoded_query = query\<rparr>"

definition example_urls :: url_lib where
  "example_urls url =
     (if url = ''https://h/a'' then Some (example_url ''h'' None ''/a'' None)
      else if url = ''https://h:443/?q'' then Some (example_url ''h'' (Some ''443'') ''/'' (Some ''q''))
      else None)"

lemma example_urls_ok: "urls_ok example_urls"
  by (auto simp: urls_ok_def example_urls_def example_url_def)

lemma example_urls_parse:
  "parseUrl example_urls ''https://h/a'' HttpUrl
     = Inr \<lparr>tg_tls = True, tg_host = ''h'', tg_port = ''443'', tg_host_header = ''h'', tg_target = ''/a'',
            tg_key = ''https://h:443''\<rparr>"
  "parseUrl example_urls ''https://h:443/?q'' HttpUrl
     = Inr \<lparr>tg_tls = True, tg_host = ''h'', tg_port = ''443'', tg_host_header = ''h'', tg_target = ''/?q'',
            tg_key = ''https://h:443''\<rparr>"
  by code_simp+

theorem connection_key_determines_server_witness:
  "\<exists>t t'. parseUrl example_urls ''https://h/a'' HttpUrl = Inr t
     \<and> parseUrl example_urls ''https://h:443/?q'' HttpUrl = Inr t' \<and> tg_key t = tg_key t' \<and> tg_tls t = tg_tls t'"
  using connection_key_determines_server [OF example_urls_ok example_urls_parse] example_urls_parse by simp

text \<open>A client that verifies its peers never starts without certificates to verify against: when the
  configuration succeeds, the context got TLS 1.2 as its minimum and the requested verify mode
  first, and, if peers are verified, at least one source of certificates.\<close>

theorem verified_client_has_ca:
  assumes "configureClientTls env opts = Inr calls" and "0 < te_bundle_parts env"
  shows "take 2 calls = [SetOptions [DefaultWorkarounds, NoSslv2, NoSslv3, NoTlsv1, NoTlsv1_1],
                         SetVerifyMode (verify_peer opts)]
    \<and> (verify_peer opts \<longrightarrow> (\<exists>c \<in> set calls. ca_source env c))"
proof -
  let ?st0 = "([SetOptions [DefaultWorkarounds, NoSslv2, NoSslv3, NoTlsv1, NoTlsv1_1],
                SetVerifyMode (verify_peer opts)], False)"
  let ?r = "and_then (and_then (and_then (and_then
      (if use_bundled_cas opts then add_bundle env 0 (te_bundle_parts env) ?st0 else Inr ?st0)
      (\<lambda>st. if use_system_cas opts then loadSystemCas env st else Inr st))
      (call_all (\<lambda>f. call_tls env (LoadVerifyFile f) True) (extra_ca_files opts)))
      (call_all (add_dir env) (extra_ca_dirs opts)))
      (call_all (\<lambda>pem. call_tls env (AddAuthority pem) True) (extra_ca_pem opts))"
  have "tls_extends env ?st0 ?r"
    by (intro tls_extends_trans call_all_extends)
      (simp_all add: assms(2) add_bundle_extends loadSystemCas_extends add_dir_extends call_tls_extends)
  moreover obtain trusted where "?r = Inr (calls, trusted)" and "verify_peer opts \<longrightarrow> trusted"
    using assms(1) by (auto simp: configureClientTls_def Let_def split: sum.splits if_splits)
  moreover have "trust_ok env ?st0" by (simp add: trust_ok_def)
  ultimately show ?thesis by (fastforce simp: tls_extends_def trust_ok_def)
qed

definition example_tls_env :: tls_env where
  "example_tls_env =
     \<lparr>te_file_exists = (\<lambda>f. f = ''/etc/ssl/cert.pem''), te_dir_exists = (\<lambda>d. False), te_cert_file = None,
      te_cert_dir = None, te_bundle_parts = 2, te_accepts = (\<lambda>c. True)\<rparr>"

theorem verified_client_has_ca_witness:
  "\<exists>calls. configureClientTls example_tls_env (ClientTlsOptions\<lparr>use_bundled_cas := False, use_system_cas := True\<rparr>)
     = Inr calls
   \<and> take 2 calls = [SetOptions [DefaultWorkarounds, NoSslv2, NoSslv3, NoTlsv1, NoTlsv1_1], SetVerifyMode True]
   \<and> (\<exists>c \<in> set calls. ca_source example_tls_env c)"
proof -
  let ?opts = "ClientTlsOptions\<lparr>use_bundled_cas := False, use_system_cas := True\<rparr>"
  have run: "configureClientTls example_tls_env ?opts
      = Inr [SetOptions [DefaultWorkarounds, NoSslv2, NoSslv3, NoTlsv1, NoTlsv1_1], SetVerifyMode True,
             SetDefaultVerifyPaths, LoadVerifyFile ''/etc/ssl/cert.pem'']"
    by code_simp
  have "verify_peer ?opts" "0 < te_bundle_parts example_tls_env"
    by (simp_all add: ClientTlsOptions_def example_tls_env_def)
  with verified_client_has_ca [OF run] show ?thesis by (metis run)
qed

end
