(* ===== verification/HttpClient.thy ===== *)
theory HttpClient
  imports ClientCommon HttpMessage ConnectionPool "HOL-Library.AList"
begin

text \<open>
  The HTTP client (\<^verbatim>\<open>HttpClient.h\<close>, \<^verbatim>\<open>sources/Client/HttpClient.cpp\<close>): the cache of idle
  connections shared by the calls of a client, and one call as a state machine on its strand. A
  call has at most one operation pending at a time, besides its deadline; a step is a completed
  operation, an expired deadline, a cancellation or the client's end. What the network, the
  serializer and the parser report is an input of the step.
\<close>

section \<open>Methods that may be repeated\<close>

definition idempotent :: "verb \<Rightarrow> bool" where
  "idempotent m \<longleftrightarrow> m \<in> {Verb_get, Verb_head, Verb_options, Verb_put, Verb_delete, Verb_trace}"

section \<open>Idle connections\<close>

text \<open>
  \<open>ic_host\<close>, \<open>ic_port\<close> and \<open>ic_tls\<close> are the server the connection was made to: the host and port
  that were looked up for it, and whether its stream is a TLS one.
\<close>

record idle_conn =
  ic_id :: nat
  ic_key :: string
  ic_since :: int
  ic_host :: string
  ic_port :: string
  ic_tls :: bool

type_synonym idle_map = "(string \<times> idle_conn list) list"

record http_client =
  hc_idle :: idle_map
  hc_closed :: bool
  hc_max_idle :: nat
  hc_idle_timeout :: int

text \<open>The list is walked from its back; the result also has the connections that expired.\<close>

fun pop_idle :: "int \<Rightarrow> int \<Rightarrow> idle_conn list \<Rightarrow> idle_conn option \<times> idle_conn list \<times> idle_conn list" where
  "pop_idle timeout now [] = (None, [], [])"
| "pop_idle timeout now (c # cs) =
     (if now - ic_since c < ms_to_ns timeout then (Some c, cs, [])
      else case pop_idle timeout now cs of (found, rest, expired) \<Rightarrow> (found, rest, c # expired))"

definition takeIdle :: "string \<Rightarrow> int \<Rightarrow> http_client \<Rightarrow> idle_conn option \<times> idle_conn list \<times> http_client" where
  "takeIdle key now hc =
     (case map_of (hc_idle hc) key of
        None \<Rightarrow> (None, [], hc)
      | Some list \<Rightarrow>
          case pop_idle (hc_idle_timeout hc) now (rev list) of
            (found, rest, expired) \<Rightarrow> (found, expired, hc\<lparr>hc_idle := AList.update key (rev rest) (hc_idle hc)\<rparr>))"

definition idle_list :: "http_client \<Rightarrow> string \<Rightarrow> idle_conn list" where
  "idle_list hc key = (case map_of (hc_idle hc) key of Some list \<Rightarrow> list | None \<Rightarrow> [])"

text \<open>True when the connection was kept; it is closed otherwise.\<close>

definition putIdle :: "idle_conn \<Rightarrow> int \<Rightarrow> http_client \<Rightarrow> bool \<times> http_client" where
  "putIdle c now hc =
     (let list = idle_list hc (ic_key c)
      in if hc_closed hc \<or> length list \<ge> hc_max_idle hc
         then (False, hc\<lparr>hc_idle := AList.update (ic_key c) list (hc_idle hc)\<rparr>)
         else (True, hc\<lparr>hc_idle := AList.update (ic_key c) (list @ [c\<lparr>ic_since := now\<rparr>]) (hc_idle hc)\<rparr>))"

definition idleCount :: "http_client \<Rightarrow> nat" where
  "idleCount hc = sum_list (map (length \<circ> snd) (hc_idle hc))"

text \<open>The destructor's critical section; the calls alive are aborted after it.\<close>

definition client_close :: "http_client \<Rightarrow> http_client" where
  "client_close hc = hc\<lparr>hc_closed := True, hc_idle := []\<rparr>"

section \<open>A call\<close>

datatype call_error = ClientErr client_error | BodyLimitErr | BufferOverflowErr | StreamTimeoutErr | NetErr nat

datatype call_result = CallFailed call_error | CallResponse nat

text \<open>\<open>CResolve\<close> has the host and the port that are looked up.\<close>

datatype call_op =
    is_resolve: CResolve string string | CConnect | CHandshake | CWriteHeader | CWriteBody | CReadHeader | CReadBody

datatype direction = Upload | Download

type_synonym progress_report = "direction \<times> nat \<times> nat option"

text \<open>
  \<open>cl_parser\<close> is None without a parser, and whether it got some data otherwise. \<open>cl_results\<close> holds
  what the promise was set to, \<open>cl_completions\<close> and \<open>cl_reports\<close> the callbacks made, \<open>cl_sent\<close>
  counts the times the request was started on a connection and \<open>cl_opened\<close> the new connections.
\<close>

record call_state =
  cl_started :: bool
  cl_op :: "call_op option"
  cl_target :: "target option"
  cl_deadline :: bool
  cl_conn :: "idle_conn option"
  cl_reused :: bool
  cl_retried :: bool
  cl_finished :: bool
  cl_aborted :: "client_error option"
  cl_parser :: "bool option"
  cl_up_done :: nat
  cl_down_done :: nat
  cl_down_total :: "nat option"
  cl_reported_bytes :: nat
  cl_reported_at :: int
  cl_on_progress :: bool
  cl_on_complete :: bool
  cl_results :: "call_result list"
  cl_completions :: "call_result list"
  cl_reports :: "progress_report list"
  cl_sent :: nat
  cl_opened :: nat
  cl_client :: http_client

text \<open>
  \<open>he_refuses\<close> is whether Beast throws while the request is built from its method, fields and body:
  \<^verbatim>\<open>prepare_payload\<close> does for a TRACE request with a body.
\<close>

record call_env =
  he_urls :: url_lib
  he_method :: verb
  he_url :: string
  he_headers :: "(string \<times> string) list"
  he_body :: string
  he_user_agent :: string
  he_on_progress :: bool
  he_on_complete :: bool
  he_refuses :: "verb \<Rightarrow> (string \<times> string) list \<Rightarrow> string \<Rightarrow> bool"

definition CallState :: "call_env \<Rightarrow> http_client \<Rightarrow> call_state" where
  "CallState E hc =
     \<lparr>cl_started = False, cl_op = None, cl_target = None, cl_deadline = False, cl_conn = None, cl_reused = False,
      cl_retried = False, cl_finished = False, cl_aborted = None, cl_parser = None, cl_up_done = 0, cl_down_done = 0,
      cl_down_total = None, cl_reported_bytes = 0, cl_reported_at = 0, cl_on_progress = he_on_progress E,
      cl_on_complete = he_on_complete E, cl_results = [], cl_completions = [], cl_reports = [], cl_sent = 0,
      cl_opened = 0, cl_client = hc\<rparr>"

text \<open>The request that goes out: the application's fields may replace ours.\<close>

definition call_request :: "'h fields_lib \<Rightarrow> call_env \<Rightarrow> target \<Rightarrow> 'h request_msg" where
  "call_request F E t =
     (let h1 = bf_set F ''User-Agent'' (he_user_agent E) (bf_set F ''Host'' (tg_host_header t) (bf_empty F));
          h2 = fold (\<lambda>(name, v) h. bf_set F name v h) (he_headers E) h1
      in \<lparr>rq_method = he_method E, rq_target = tg_target t, rq_version = 11,
          rq_fields = bf_prepare F 0 (he_body E) h2, rq_body = he_body E\<rparr>)"

definition begin_op :: "call_op \<Rightarrow> call_state \<Rightarrow> call_state" where
  "begin_op op s = s\<lparr>cl_op := Some op\<rparr>"

definition call_finish :: "call_result \<Rightarrow> call_state \<Rightarrow> call_state" where
  "call_finish r s =
     (if cl_finished s then s
      else s\<lparr>cl_finished := True, cl_deadline := False, cl_conn := None, cl_results := cl_results s @ [r],
             cl_on_progress := False,
             cl_completions := (if cl_on_complete s then cl_completions s @ [r] else cl_completions s),
             cl_on_complete := False\<rparr>)"

definition call_abort :: "client_error \<Rightarrow> call_state \<Rightarrow> call_state" where
  "call_abort why s = (if cl_finished s \<or> cl_aborted s \<noteq> None then s else s\<lparr>cl_aborted := Some why\<rparr>)"

definition resolve_host :: "call_state \<Rightarrow> call_state" where
  "resolve_host s =
     (case cl_target s of
        Some t \<Rightarrow> begin_op (CResolve (tg_host t) (tg_port t)) s
      | None \<Rightarrow> begin_op (CResolve [] []) s)"

definition call_fail :: "call_env \<Rightarrow> call_error \<Rightarrow> bool \<Rightarrow> call_state \<Rightarrow> call_state" where
  "call_fail E ec during_write s =
     (case cl_aborted s of
        Some why \<Rightarrow> call_finish (CallFailed (ClientErr why)) s
      | None \<Rightarrow>
          if ec = BodyLimitErr \<or> ec = BufferOverflowErr then call_finish (CallFailed (ClientErr ErrResponseTooLarge)) s
          else if ec = StreamTimeoutErr then call_finish (CallFailed (ClientErr ErrTimeout)) s
          else let nothing_received = (cl_parser s \<noteq> Some True)
               in if cl_reused s \<and> \<not> cl_retried s \<and> nothing_received \<and> (idempotent (he_method E) \<or> during_write)
                  then resolve_host (s\<lparr>cl_retried := True, cl_reused := False, cl_conn := None, cl_up_done := 0,
                                       cl_reported_bytes := 0, cl_parser := None\<rparr>)
                  else call_finish (CallFailed ec) s)"

text \<open>What a completed operation reports to its handler.\<close>

record call_input =
  ci_error :: "call_error option"
  ci_bytes :: nat
  ci_done :: bool
  ci_length :: "nat option"
  ci_keep_alive :: bool
  ci_status :: nat
  ci_sni_ok :: bool
  ci_got_some :: bool
  ci_conn :: nat
  ci_now :: int

definition progress_bytes :: nat where
  "progress_bytes = 64 * 1024"

definition progress_time :: int where
  "progress_time = 100 * 1000000"

text \<open>Byte counts are 64-bit unsigned, their difference wraps.\<close>

definition size_diff :: "nat \<Rightarrow> nat \<Rightarrow> nat" where
  "size_diff a b = (a + 2 ^ 64 - b) mod 2 ^ 64"

definition call_progress :: "direction \<Rightarrow> nat \<Rightarrow> nat option \<Rightarrow> bool \<Rightarrow> int \<Rightarrow> call_state \<Rightarrow> call_state" where
  "call_progress dir bytes size_known last_one now s =
     (if \<not> cl_on_progress s then s
      else if \<not> last_one \<and> size_diff bytes (cl_reported_bytes s) < progress_bytes
              \<and> now - cl_reported_at s < progress_time then s
      else s\<lparr>cl_reported_bytes := bytes, cl_reported_at := now,
             cl_reports := cl_reports s @ [(dir, bytes, size_known)]\<rparr>)"

definition writeHeader :: "call_state \<Rightarrow> call_state" where
  "writeHeader s = begin_op CWriteHeader (s\<lparr>cl_sent := cl_sent s + 1\<rparr>)"

definition readHeader :: "call_state \<Rightarrow> call_state" where
  "readHeader s = begin_op CReadHeader (s\<lparr>cl_reported_bytes := 0, cl_parser := Some False\<rparr>)"

definition writeBody :: "call_env \<Rightarrow> call_input \<Rightarrow> call_state \<Rightarrow> call_state" where
  "writeBody E i s =
     (if ci_done i then
        readHeader (if he_body E \<noteq> [] then
            call_progress Upload (cl_up_done s) (Some (length (he_body E))) True (ci_now i) s else s)
      else begin_op CWriteBody s)"

definition call_succeed :: "call_input \<Rightarrow> call_state \<Rightarrow> call_state" where
  "call_succeed i s =
     (let keep_alive = (ci_keep_alive i \<and> cl_aborted s = None);
          s1 = (case cl_conn s of
                  Some c \<Rightarrow> if keep_alive
                            then s\<lparr>cl_client := snd (putIdle c (ci_now i) (cl_client s)), cl_conn := None\<rparr> else s
                | None \<Rightarrow> s)
      in call_finish (CallResponse (ci_status i)) s1)"

definition readBody :: "call_input \<Rightarrow> call_state \<Rightarrow> call_state" where
  "readBody i s =
     (if ci_done i then
        (let s1 = s\<lparr>cl_down_done := ci_bytes i\<rparr>;
             size_known = (case cl_down_total s1 of Some n \<Rightarrow> n | None \<Rightarrow> cl_down_done s1)
         in call_succeed i (call_progress Download (cl_down_done s1) (Some size_known) True (ci_now i) s1))
      else begin_op CReadBody s)"

definition call_connect :: "int \<Rightarrow> target \<Rightarrow> call_state \<Rightarrow> call_state" where
  "call_connect now t s =
     (case takeIdle (tg_key t) now (cl_client s) of
        (Some c, expired, hc) \<Rightarrow> writeHeader (s\<lparr>cl_client := hc, cl_conn := Some c, cl_reused := True\<rparr>)
      | (None, expired, hc) \<Rightarrow> resolve_host (s\<lparr>cl_client := hc\<rparr>))"

text \<open>An exception of the request's construction leaves \<^verbatim>\<open>begin\<close>.\<close>

definition call_begin :: "call_env \<Rightarrow> int \<Rightarrow> (call_state, unit) action" where
  "call_begin E now s =
     (case parseUrl (he_urls E) (he_url E) HttpUrl of
        Inl e \<Rightarrow> Done () (call_finish (CallFailed (ClientErr e)) s)
      | Inr t \<Rightarrow>
          if he_refuses E (he_method E) (he_headers E) (he_body E) then Threw (s\<lparr>cl_target := Some t\<rparr>)
          else Done () (call_connect now t (s\<lparr>cl_target := Some t, cl_deadline := True\<rparr>)))"

text \<open>The connection is made to what was looked up, and has a TLS stream if the target says so.\<close>

definition onResolve :: "string \<Rightarrow> string \<Rightarrow> call_input \<Rightarrow> call_state \<Rightarrow> call_state" where
  "onResolve host port i s =
     (case cl_aborted s of
        Some why \<Rightarrow> call_finish (CallFailed (ClientErr why)) s
      | None \<Rightarrow>
          let key = (case cl_target s of Some t \<Rightarrow> tg_key t | None \<Rightarrow> []);
              tls = (case cl_target s of Some t \<Rightarrow> tg_tls t | None \<Rightarrow> False)
          in begin_op CConnect (s\<lparr>cl_conn := Some \<lparr>ic_id = ci_conn i, ic_key = key, ic_since = 0, ic_host = host,
                                                ic_port = port, ic_tls = tls\<rparr>,
                                   cl_opened := cl_opened s + 1\<rparr>))"

definition onConnect :: "call_input \<Rightarrow> call_state \<Rightarrow> call_state" where
  "onConnect i s =
     (if \<not> (case cl_conn s of Some c \<Rightarrow> ic_tls c | None \<Rightarrow> False) then writeHeader s
      else if \<not> ci_sni_ok i then call_finish (CallFailed (NetErr 0)) s
      else begin_op CHandshake s)"

definition onWriteBody :: "call_env \<Rightarrow> call_input \<Rightarrow> call_state \<Rightarrow> call_state" where
  "onWriteBody E i s =
     (let s1 = s\<lparr>cl_up_done := cl_up_done s + ci_bytes i\<rparr>;
          s2 = (if he_body E \<noteq> [] then
                  call_progress Upload (cl_up_done s1) (Some (length (he_body E))) False (ci_now i) s1 else s1)
      in writeBody E i s2)"

definition onReadHeader :: "call_env \<Rightarrow> call_input \<Rightarrow> call_state \<Rightarrow> call_state" where
  "onReadHeader E i s =
     readBody i (case ci_length i of
        Some n \<Rightarrow> if he_method E \<noteq> Verb_head then s\<lparr>cl_down_total := Some n\<rparr> else s
      | None \<Rightarrow> s)"

definition onReadBody :: "call_input \<Rightarrow> call_state \<Rightarrow> call_state" where
  "onReadBody i s =
     (let s1 = s\<lparr>cl_down_done := ci_bytes i\<rparr>
      in readBody i (call_progress Download (cl_down_done s1) (cl_down_total s1) False (ci_now i) s1))"

text \<open>The handler of a completed operation; the parser's progress is seen when it runs.\<close>

definition saw :: "call_input \<Rightarrow> call_state \<Rightarrow> call_state" where
  "saw i s = s\<lparr>cl_parser := map_option (\<lambda>got. got \<or> ci_got_some i) (cl_parser s)\<rparr>"

fun op_during_write :: "call_op \<Rightarrow> bool" where
  "op_during_write CWriteHeader = True"
| "op_during_write CWriteBody = True"
| "op_during_write op = False"

fun op_succeeded :: "call_env \<Rightarrow> call_input \<Rightarrow> call_op \<Rightarrow> call_state \<Rightarrow> call_state" where
  "op_succeeded E i (CResolve host port) s = onResolve host port i s"
| "op_succeeded E i CConnect s = onConnect i s"
| "op_succeeded E i CHandshake s = writeHeader s"
| "op_succeeded E i CWriteHeader s = writeBody E i s"
| "op_succeeded E i CWriteBody s = onWriteBody E i s"
| "op_succeeded E i CReadHeader s = onReadHeader E i s"
| "op_succeeded E i CReadBody s = onReadBody i s"

definition op_completed :: "call_env \<Rightarrow> call_input \<Rightarrow> call_op \<Rightarrow> call_state \<Rightarrow> call_state" where
  "op_completed E i op s0 =
     (let s = saw i (s0\<lparr>cl_op := None\<rparr>)
      in case ci_error i of
           Some ec \<Rightarrow> call_fail E ec (op_during_write op) s
         | None \<Rightarrow> op_succeeded E i op s)"

section \<open>Steps\<close>

datatype call_event =
    Begin int
  | BeginClosed
  | OpDone call_input
  | DeadlineExpires
  | AbortRuns client_error
  | ClientChanges http_client

text \<open>
  Nothing catches an exception of \<^verbatim>\<open>begin\<close> on a client's thread: the process ends, and the
  call has no next state.
\<close>

fun call_next :: "call_env \<Rightarrow> call_state \<Rightarrow> call_event \<Rightarrow> call_state option" where
  "call_next E s (Begin now) =
     (if cl_started s then None
      else case call_begin E now (s\<lparr>cl_started := True\<rparr>) of Done u t \<Rightarrow> Some t | Threw t \<Rightarrow> None)"
| "call_next E s BeginClosed =
     (if cl_started s then None
      else Some (call_finish (CallFailed (ClientErr ErrClosed)) (s\<lparr>cl_started := True\<rparr>)))"
| "call_next E s (OpDone i) =
     (case cl_op s of Some op \<Rightarrow> Some (op_completed E i op s) | None \<Rightarrow> None)"
| "call_next E s DeadlineExpires =
     (if cl_deadline s then Some (call_abort ErrTimeout (s\<lparr>cl_deadline := False\<rparr>)) else None)"
| "call_next E s (AbortRuns why) = Some (call_abort why s)"
| "call_next E s (ClientChanges hc) = Some (s\<lparr>cl_client := hc\<rparr>)"

definition call_step :: "call_env \<Rightarrow> call_state \<Rightarrow> call_event \<Rightarrow> call_state \<Rightarrow> bool" where
  "call_step E s e t \<longleftrightarrow> call_next E s e = Some t"

definition call_starts :: "call_env \<Rightarrow> call_state \<Rightarrow> bool" where
  "call_starts E s \<longleftrightarrow> (\<exists>hc. s = CallState E hc)"

text \<open>\<^verbatim>\<open>send\<close> on a client that is being destroyed completes at once.\<close>

definition send_event :: "http_client \<Rightarrow> int \<Rightarrow> call_event" where
  "send_event hc now = (if hc_closed hc then BeginClosed else Begin now)"

text \<open>
  The handle: None is a default one, and the result None of \<open>call_wait\<close> is a call that blocks.
\<close>

definition call_done :: "call_state option \<Rightarrow> bool" where
  "call_done h = (case h of None \<Rightarrow> False | Some s \<Rightarrow> cl_results s \<noteq> [])"

definition call_wait :: "bool \<Rightarrow> call_state option \<Rightarrow> call_result option" where
  "call_wait on_client_thread h =
     (case h of
        None \<Rightarrow> Some (CallFailed (ClientErr ErrInvalidUrl))
      | Some s \<Rightarrow>
          if on_client_thread \<and> \<not> call_done h then Some (CallFailed (ClientErr ErrWaitOnClientThread))
          else case cl_results s of r # rs \<Rightarrow> Some r | [] \<Rightarrow> None)"

section \<open>The invariant of a call\<close>

fun connecting_op :: "call_op \<Rightarrow> bool" where
  "connecting_op (CResolve host port) = True"
| "connecting_op CConnect = True"
| "connecting_op CHandshake = True"
| "connecting_op op = False"

text \<open>While an operation is pending: where the connection comes from, and how often the request went out.\<close>

definition op_ok :: "call_op \<Rightarrow> call_state \<Rightarrow> bool" where
  "op_ok op s \<longleftrightarrow>
     (if connecting_op op then \<not> cl_reused s \<and> cl_sent s = of_bool (cl_retried s)
        \<and> cl_opened s = of_bool (\<not> is_resolve op) \<and> (\<not> is_resolve op \<longrightarrow> cl_conn s \<noteq> None)
      else cl_sent s = 1 + of_bool (cl_retried s) \<and> cl_opened s = of_bool (\<not> cl_reused s) \<and> cl_conn s \<noteq> None)"

definition call_inv :: "call_env \<Rightarrow> call_state \<Rightarrow> bool" where
  "call_inv E s \<longleftrightarrow>
     length (cl_results s) = of_bool (cl_finished s)
   \<and> cl_completions s = (if he_on_complete E then cl_results s else [])
   \<and> (cl_on_complete s \<longleftrightarrow> he_on_complete E \<and> \<not> cl_finished s)
   \<and> (cl_op s = None \<longleftrightarrow> \<not> cl_started s \<or> cl_finished s)
   \<and> (\<not> cl_started s \<longrightarrow> \<not> cl_finished s \<and> cl_sent s = 0 \<and> cl_opened s = 0 \<and> \<not> cl_retried s \<and> \<not> cl_reused s)
   \<and> (cl_retried s \<longrightarrow> \<not> cl_reused s)
   \<and> cl_sent s \<le> 1 + of_bool (cl_retried s) \<and> cl_opened s \<le> 1 \<and> (cl_sent s = 2 \<longrightarrow> cl_opened s = 1)
   \<and> (\<forall>op. cl_op s = Some op \<longrightarrow> op_ok op s)"

text \<open>The state inside a handler: no operation pending, not finished.\<close>

definition call_mid :: "call_env \<Rightarrow> call_op \<Rightarrow> call_state \<Rightarrow> bool" where
  "call_mid E op s \<longleftrightarrow>
     cl_results s = [] \<and> cl_completions s = [] \<and> cl_on_complete s = he_on_complete E \<and> cl_op s = None
   \<and> cl_started s \<and> \<not> cl_finished s \<and> (cl_retried s \<longrightarrow> \<not> cl_reused s) \<and> op_ok op s"

lemma call_progress_fields [simp]:
  "cl_results (call_progress d n t l w s) = cl_results s" "cl_completions (call_progress d n t l w s) = cl_completions s"
  "cl_on_complete (call_progress d n t l w s) = cl_on_complete s" "cl_op (call_progress d n t l w s) = cl_op s"
  "cl_started (call_progress d n t l w s) = cl_started s" "cl_finished (call_progress d n t l w s) = cl_finished s"
  "cl_retried (call_progress d n t l w s) = cl_retried s" "cl_reused (call_progress d n t l w s) = cl_reused s"
  "cl_sent (call_progress d n t l w s) = cl_sent s" "cl_opened (call_progress d n t l w s) = cl_opened s"
  "cl_conn (call_progress d n t l w s) = cl_conn s" "cl_aborted (call_progress d n t l w s) = cl_aborted s"
  "cl_client (call_progress d n t l w s) = cl_client s" "cl_down_done (call_progress d n t l w s) = cl_down_done s"
  "cl_down_total (call_progress d n t l w s) = cl_down_total s" "cl_up_done (call_progress d n t l w s) = cl_up_done s"
  "cl_parser (call_progress d n t l w s) = cl_parser s" "cl_deadline (call_progress d n t l w s) = cl_deadline s"
  "cl_target (call_progress d n t l w s) = cl_target s"
  by (simp_all add: call_progress_def)

lemma call_mid_progress [simp]: "call_mid E op (call_progress d n t l w s) = call_mid E op s"
  by (simp add: call_mid_def op_ok_def)

lemma finish_inv:
  assumes "call_mid E op s"
  shows "call_inv E (call_finish r s)"
  using assms by (cases op) (auto simp: call_mid_def call_finish_def call_inv_def op_ok_def)

lemma begin_op_inv:
  assumes "call_mid E op' s" and "op_ok op s"
  shows "call_inv E (begin_op op s)"
  using assms by (cases op) (auto simp: call_mid_def begin_op_def call_inv_def op_ok_def)

lemma call_fail_inv:
  assumes "call_mid E op s"
  shows "call_inv E (call_fail E ec w s)"
proof -
  note fin = finish_inv [OF assms]
  have "call_inv E (resolve_host (s\<lparr>cl_retried := True, cl_reused := False, cl_conn := None, cl_up_done := 0,
      cl_reported_bytes := 0, cl_parser := None\<rparr>))" if "cl_reused s" "\<not> cl_retried s"
    using assms that unfolding resolve_host_def
    by (cases op) (auto simp: call_mid_def begin_op_def call_inv_def op_ok_def split: option.split)
  with fin show ?thesis by (simp add: call_fail_def Let_def split: option.split)
qed

lemma writeHeader_inv:
  assumes "call_mid E op s" and "connecting_op op" and "\<not> is_resolve op"
  shows "call_inv E (writeHeader s)"
  using assms by (auto simp: writeHeader_def begin_op_def call_mid_def call_inv_def op_ok_def)

lemma call_succeed_inv:
  assumes "call_mid E op s"
  shows "call_inv E (call_succeed i s)"
proof -
  have "call_inv E (call_finish r (s\<lparr>cl_client := hc, cl_conn := c\<rparr>))" for r hc c
    using assms by (cases op) (auto simp: call_mid_def call_finish_def call_inv_def op_ok_def)
  with finish_inv [OF assms] show ?thesis by (simp add: call_succeed_def Let_def split: option.split)
qed

lemma readBody_inv:
  assumes "call_mid E op s" and "\<not> connecting_op op"
  shows "call_inv E (readBody i s)"
proof -
  have "call_mid E op (s\<lparr>cl_down_done := n\<rparr>)" for n using assms by (simp add: call_mid_def op_ok_def)
  then have "call_inv E (call_succeed i (call_progress d n t l w (s\<lparr>cl_down_done := m\<rparr>)))" for d n t l w m
    by (intro call_succeed_inv) simp
  moreover have "call_inv E (begin_op CReadBody s)"
    using assms by (intro begin_op_inv) (auto simp: call_mid_def op_ok_def)
  ultimately show ?thesis by (simp add: readBody_def Let_def)
qed

lemma writeBody_inv:
  assumes "call_mid E op s" and "\<not> connecting_op op"
  shows "call_inv E (writeBody E i s)"
proof -
  have "call_inv E (readHeader u)" if "call_mid E op u" for u
    using that assms(2) unfolding readHeader_def
    by (intro begin_op_inv [of E op]) (auto simp: call_mid_def op_ok_def)
  moreover have "call_inv E (begin_op CWriteBody s)"
    using assms by (intro begin_op_inv) (auto simp: call_mid_def op_ok_def)
  ultimately show ?thesis using assms(1) by (simp add: writeBody_def)
qed

lemma op_succeeded_inv:
  assumes "call_mid E op s"
  shows "call_inv E (op_succeeded E i op s)"
proof (cases op)
  case (CResolve host port)
  have "call_inv E (begin_op CConnect (s\<lparr>cl_conn := Some c, cl_opened := cl_opened s + 1\<rparr>))" for c
    using assms unfolding CResolve
    by (auto simp: begin_op_def call_mid_def call_inv_def op_ok_def)
  then show ?thesis
    using finish_inv [OF assms] by (simp add: CResolve onResolve_def Let_def split: option.split)
next
  case CConnect
  have "call_inv E (begin_op CHandshake s)"
    using assms by (intro begin_op_inv [OF assms]) (auto simp: CConnect call_mid_def op_ok_def)
  then show ?thesis
    using finish_inv [OF assms] writeHeader_inv [OF assms] by (simp add: CConnect onConnect_def)
next
  case CHandshake
  with writeHeader_inv [OF assms] show ?thesis by simp
next
  case CWriteHeader
  with writeBody_inv [OF assms] show ?thesis by simp
next
  case CWriteBody
  have "call_mid E op (s\<lparr>cl_up_done := n\<rparr>)" for n using assms by (simp add: call_mid_def op_ok_def)
  then have "call_inv E (writeBody E i (call_progress d n t l w (s\<lparr>cl_up_done := m\<rparr>)))"
    "call_inv E (writeBody E i (s\<lparr>cl_up_done := m\<rparr>))" for d n t l w m
    using CWriteBody by (auto intro!: writeBody_inv [of E op])
  then show ?thesis by (simp add: CWriteBody onWriteBody_def Let_def)
next
  case CReadHeader
  have "call_mid E op (s\<lparr>cl_down_total := n\<rparr>)" for n using assms by (simp add: call_mid_def op_ok_def)
  then have "call_inv E (readBody i (s\<lparr>cl_down_total := n\<rparr>))" for n
    using CReadHeader by (auto intro!: readBody_inv [of E op])
  then show ?thesis
    using readBody_inv [OF assms] CReadHeader by (simp add: onReadHeader_def split: option.split)
next
  case CReadBody
  have "call_mid E op (s\<lparr>cl_down_done := n\<rparr>)" for n using assms by (simp add: call_mid_def op_ok_def)
  then have "call_inv E (readBody i (call_progress d n t l w (s\<lparr>cl_down_done := m\<rparr>)))" for d n t l w m
    using CReadBody by (auto intro!: readBody_inv [of E op])
  then show ?thesis by (simp add: CReadBody onReadBody_def Let_def)
qed

lemma op_completed_inv:
  assumes "call_inv E s" and "cl_op s = Some op"
  shows "call_inv E (op_completed E i op s)"
proof -
  have "call_mid E op (saw i (s\<lparr>cl_op := None\<rparr>))"
    using assms by (auto simp: call_inv_def call_mid_def saw_def op_ok_def)
  then show ?thesis
    using call_fail_inv op_succeeded_inv by (simp add: op_completed_def Let_def split: option.split)
qed

lemma call_begin_inv:
  assumes "call_inv E s" and "\<not> cl_started s" and "call_begin E now (s\<lparr>cl_started := True\<rparr>) = Done u t"
  shows "call_inv E t"
proof -
  have fin: "call_inv E (call_finish r (s\<lparr>cl_started := True\<rparr>))" for r
    using assms by (auto simp: call_inv_def call_finish_def)
  have "call_inv E (call_connect now t (s\<lparr>cl_started := True, cl_target := Some t, cl_deadline := True\<rparr>))" for t
    using assms
    by (auto simp: call_connect_def writeHeader_def resolve_host_def begin_op_def call_inv_def op_ok_def
        split: prod.split option.split)
  with fin assms(3) show ?thesis by (auto simp: call_begin_def split: sum.splits if_splits)
qed

lemma call_inv_frame:
  assumes "call_inv E s"
  shows "call_inv E (s\<lparr>cl_aborted := a\<rparr>)" and "call_inv E (s\<lparr>cl_deadline := d\<rparr>)" and "call_inv E (s\<lparr>cl_client := hc\<rparr>)"
    and "call_inv E (s\<lparr>cl_deadline := d, cl_aborted := a\<rparr>)"
  using assms by (auto simp: call_inv_def op_ok_def)

lemma call_next_inv:
  assumes "call_inv E s" and "call_next E s e = Some t"
  shows "call_inv E t"
proof (cases e)
  case BeginClosed
  with assms show ?thesis by (auto simp: call_inv_def call_finish_def split: if_splits)
next
  case DeadlineExpires
  with assms call_inv_frame [OF assms(1)] show ?thesis by (auto simp: call_abort_def split: if_splits)
next
  case (AbortRuns why)
  with assms call_inv_frame [OF assms(1)] show ?thesis by (auto simp: call_abort_def split: if_splits)
qed (use assms call_begin_inv op_completed_inv call_inv_frame [OF assms(1)] in \<open>auto split: if_splits option.splits outcome.splits\<close>)

definition call_reachable :: "call_env \<Rightarrow> call_state \<Rightarrow> bool" where
  "call_reachable E s \<longleftrightarrow> reachable (call_starts E) (call_step E) s"

interpretation http_call: invariant_system "call_starts E" "call_step E" "call_inv E" for E :: call_env
proof unfold_locales
  show "call_starts E s \<Longrightarrow> call_inv E s" for s
    by (auto simp: call_starts_def CallState_def call_inv_def)
  show "call_inv E s \<Longrightarrow> call_step E s e t \<Longrightarrow> call_inv E t" for s e t
    unfolding call_step_def by (rule call_next_inv)
qed

lemma call_reachable_inv: "call_reachable E s \<Longrightarrow> call_inv E s"
  unfolding call_reachable_def by (rule http_call.reachable_inv)

section \<open>The cache of idle connections\<close>

definition idle_inv :: "http_client \<Rightarrow> bool" where
  "idle_inv hc \<longleftrightarrow> (\<forall>key. length (idle_list hc key) \<le> hc_max_idle hc \<and> (\<forall>c \<in> set (idle_list hc key). ic_key c = key))
     \<and> (hc_closed hc \<longrightarrow> (\<forall>key. idle_list hc key = []))"

lemma pop_idle_split:
  assumes "pop_idle timeout now cs = (found, rest, expired)"
  shows "cs = expired @ (case found of Some c \<Rightarrow> [c] | None \<Rightarrow> []) @ rest
    \<and> (\<forall>c \<in> set expired. now - ic_since c \<ge> ms_to_ns timeout)
    \<and> (\<forall>c. found = Some c \<longrightarrow> now - ic_since c < ms_to_ns timeout) \<and> (found = None \<longrightarrow> rest = [])"
  using assms
proof (induction cs arbitrary: found rest expired)
  case (Cons c cs)
  then show ?case by (auto split: if_splits prod.splits)
qed simp

lemma idle_list_update [simp]:
  "idle_list (hc\<lparr>hc_idle := AList.update key list (hc_idle hc)\<rparr>) k = (if k = key then list else idle_list hc k)"
  by (simp add: idle_list_def update_conv')

lemma idle_list_max [simp]: "idle_list (hc\<lparr>hc_closed := b\<rparr>) k = idle_list hc k"
  by (simp add: idle_list_def)

lemma takeIdle_split:
  assumes "takeIdle key now hc = (found, expired, hc')"
  shows "idle_list hc key = idle_list hc' key @ (case found of Some c \<Rightarrow> [c] | None \<Rightarrow> []) @ rev expired
    \<and> (\<forall>c \<in> set expired. now - ic_since c \<ge> ms_to_ns (hc_idle_timeout hc))
    \<and> (\<forall>c. found = Some c \<longrightarrow> now - ic_since c < ms_to_ns (hc_idle_timeout hc))
    \<and> (found = None \<longrightarrow> idle_list hc' key = []) \<and> (\<forall>k. k \<noteq> key \<longrightarrow> idle_list hc' k = idle_list hc k)
    \<and> hc_closed hc' = hc_closed hc \<and> hc_max_idle hc' = hc_max_idle hc"
proof (cases "map_of (hc_idle hc) key")
  case None
  with assms show ?thesis by (simp add: takeIdle_def idle_list_def)
next
  case (Some list)
  obtain found' rest expired' where pop: "pop_idle (hc_idle_timeout hc) now (rev list) = (found', rest, expired')"
    by (metis prod_cases3)
  with assms Some have eq: "found = found'" "expired = expired'"
    "hc' = hc\<lparr>hc_idle := AList.update key (rev rest) (hc_idle hc)\<rparr>" by (simp_all add: takeIdle_def)
  from pop_idle_split [OF pop] have "list = rev rest @ rev (case found' of Some c \<Rightarrow> [c] | None \<Rightarrow> []) @ rev expired'"
    by (metis append.assoc rev_append rev_rev_ident)
  moreover have "idle_list hc key = list" using Some by (simp add: idle_list_def)
  ultimately show ?thesis
    using pop_idle_split [OF pop] by (auto simp: eq split: option.splits)
qed

lemma takeIdle_inv:
  assumes "idle_inv hc" and "takeIdle key now hc = (found, expired, hc')"
  shows "idle_inv hc'"
proof -
  note split = takeIdle_split [OF assms(2)]
  then obtain taken where key: "idle_list hc key = idle_list hc' key @ taken" by blast
  have keep: "length (idle_list hc' k) \<le> length (idle_list hc k) \<and> set (idle_list hc' k) \<subseteq> set (idle_list hc k)" for k
    using split key by (cases "k = key") auto
  have "length (idle_list hc' k) \<le> hc_max_idle hc'" for k
    using keep [of k] assms(1) split le_trans unfolding idle_inv_def by metis
  moreover have "\<forall>c \<in> set (idle_list hc' k). ic_key c = k" for k
    using keep [of k] assms(1) by (auto simp: idle_inv_def)
  moreover have "idle_list hc' k = []" if "hc_closed hc'" for k
    using keep [of k] assms(1) split that by (simp add: idle_inv_def)
  ultimately show ?thesis by (simp add: idle_inv_def)
qed

lemma putIdle_inv:
  assumes "idle_inv hc"
  shows "idle_inv (snd (putIdle c now hc))"
  using assms by (auto simp: idle_inv_def putIdle_def Let_def)

lemma client_close_inv: "idle_inv (client_close hc)"
  by (simp add: client_close_def idle_inv_def idle_list_def)

datatype cache_op = TakeIdle string int | PutIdle idle_conn int | CloseClient

fun cache_step :: "http_client \<Rightarrow> cache_op \<Rightarrow> http_client \<Rightarrow> bool" where
  "cache_step hc (TakeIdle key now) hc' = (hc' = snd (snd (takeIdle key now hc)))"
| "cache_step hc (PutIdle c now) hc' = (hc' = snd (putIdle c now hc))"
| "cache_step hc CloseClient hc' = (hc' = client_close hc)"

definition ClientImpl :: "nat \<Rightarrow> int \<Rightarrow> http_client" where
  "ClientImpl max_idle_conns timeout =
     \<lparr>hc_idle = [], hc_closed = False, hc_max_idle = max_idle_conns, hc_idle_timeout = timeout\<rparr>"

definition cache_starts :: "http_client \<Rightarrow> bool" where
  "cache_starts hc \<longleftrightarrow> (\<exists>n timeout. hc = ClientImpl n timeout)"

interpretation idle_cache: invariant_system cache_starts cache_step idle_inv
proof unfold_locales
  show "cache_starts hc \<Longrightarrow> idle_inv hc" for hc
    by (auto simp: cache_starts_def ClientImpl_def idle_inv_def idle_list_def)
  show "idle_inv hc \<Longrightarrow> cache_step hc e hc' \<Longrightarrow> idle_inv hc'" for hc e hc'
    by (cases e) (auto simp: putIdle_inv client_close_inv, metis takeIdle_inv prod.collapse)
qed

section \<open>What a step changes\<close>

lemma retried_frame [simp]:
  "cl_retried (call_finish r s) = cl_retried s" "cl_retried (begin_op op s) = cl_retried s"
  "cl_retried (writeHeader s) = cl_retried s" "cl_retried (readHeader s) = cl_retried s"
  "cl_retried (writeBody E i s) = cl_retried s" "cl_retried (call_succeed i s) = cl_retried s"
  "cl_retried (readBody i s) = cl_retried s" "cl_retried (onResolve h p i s) = cl_retried s"
  "cl_retried (onConnect i s) = cl_retried s" "cl_retried (outcome_state (call_begin E now s)) = cl_retried s"
  "cl_retried (call_abort why s) = cl_retried s"
  by (simp_all add: call_finish_def begin_op_def writeHeader_def readHeader_def writeBody_def call_succeed_def
      readBody_def onResolve_def onConnect_def call_begin_def call_connect_def resolve_host_def call_abort_def Let_def
      split: option.split sum.split prod.split)

lemma op_succeeded_retried [simp]: "cl_retried (op_succeeded E i op s) = cl_retried s"
  by (cases op) (simp_all add: onWriteBody_def onReadHeader_def onReadBody_def Let_def split: option.split)

lemma call_fail_retried:
  assumes "cl_retried (call_fail E ec w s)" and "\<not> cl_retried s"
  shows "cl_reused s \<and> cl_parser s \<noteq> Some True \<and> (idempotent (he_method E) \<or> w) \<and> cl_aborted s = None"
  using assms by (auto simp: call_fail_def Let_def split: option.splits if_splits)

text \<open>A retry looks the server up again and has no connection meanwhile.\<close>

lemma call_fail_retry_resolves:
  assumes "cl_retried (call_fail E ec w s)" and "\<not> cl_retried s"
  shows "\<exists>host port. cl_op (call_fail E ec w s) = Some (CResolve host port)"
    and "cl_conn (call_fail E ec w s) = None" and "\<not> cl_reused (call_fail E ec w s)"
    and "cl_opened (call_fail E ec w s) = cl_opened s"
  using assms
  by (auto simp: call_fail_def Let_def resolve_host_def begin_op_def split: option.splits if_splits)

lemma retry_step:
  assumes "call_next E s e = Some t" and "call_step E s e t \<and> cl_retried t \<and> \<not> cl_retried s"
  obtains i op where "e = OpDone i" and "cl_op s = Some op" and "t = op_completed E i op s"
proof (cases e)
  case (Begin now)
  with assms obtain u where "call_begin E now (s\<lparr>cl_started := True\<rparr>) = Done u t"
    by (auto split: if_splits outcome.splits)
  then have "cl_retried t = cl_retried s"
    using retried_frame(10) [of E now "s\<lparr>cl_started := True\<rparr>"] by simp
  with assms(2) show ?thesis by simp
qed (use assms that in \<open>auto split: if_splits option.splits\<close>)

section \<open>Calls for closed examples\<close>

lemma call_exec_reachable:
  assumes "exec (call_next E) (CallState E hc) es = Some t"
  shows "call_reachable E t"
  unfolding call_reachable_def
proof (rule exec_reachable [OF assms])
  show "reachable (call_starts E) (call_step E) (CallState E hc)"
    by (intro reachable_init) (auto simp: call_starts_def)
qed (simp add: call_step_def)

definition example_call_env :: call_env where
  "example_call_env =
     \<lparr>he_urls = example_urls, he_method = Verb_get, he_url = ''https://h/a'', he_headers = [], he_body = [],
      he_user_agent = ''cppgate'', he_on_progress = True, he_on_complete = True,
      he_refuses = (\<lambda>m fields body. m = Verb_trace \<and> body \<noteq> [])\<rparr>"

definition call_ok :: call_input where
  "call_ok = \<lparr>ci_error = None, ci_bytes = 5, ci_done = True, ci_length = Some 5, ci_keep_alive = True, ci_status = 200,
     ci_sni_ok = True, ci_got_some = True, ci_conn = 1, ci_now = 2000\<rparr>"

definition call_refused :: call_input where
  "call_refused = call_ok\<lparr>ci_error := Some (NetErr 104), ci_got_some := False\<rparr>"

definition example_idle :: http_client where
  "example_idle =
     \<lparr>hc_idle = [(''https://h:443'', [\<lparr>ic_id = 7, ic_key = ''https://h:443'', ic_since = 0, ic_host = ''h'', ic_port = ''443'', ic_tls = True\<rparr>])], hc_closed = False,
      hc_max_idle = 8, hc_idle_timeout = 30000\<rparr>"

text \<open>A request on a cached connection the server has closed: about to be retried, and then completed.\<close>

definition reusing_call :: call_state where
  "reusing_call =
     (CallState example_call_env example_idle)
       \<lparr>cl_started := True, cl_op := Some CReadHeader, cl_deadline := True,
        cl_target := Some \<lparr>tg_tls = True, tg_host = ''h'', tg_port = ''443'', tg_host_header = ''h'',
          tg_target = ''/a'', tg_key = ''https://h:443''\<rparr>,
        cl_conn := Some \<lparr>ic_id = 7, ic_key = ''https://h:443'', ic_since = 0, ic_host = ''h'', ic_port = ''443'', ic_tls = True\<rparr>, cl_reused := True,
        cl_parser := Some False, cl_sent := 1, cl_client := example_idle\<lparr>hc_idle := [(''https://h:443'', [])]\<rparr>\<rparr>"

lemma reusing_call_exec:
  "exec (call_next example_call_env) (CallState example_call_env example_idle) [Begin 1000, OpDone call_ok]
     = Some reusing_call"
  by code_simp

lemma reusing_call_reachable: "call_reachable example_call_env reusing_call"
  by (rule call_exec_reachable [OF reusing_call_exec])

definition retry_events :: "call_event list" where
  "retry_events = [OpDone call_refused, OpDone call_ok, OpDone call_ok, OpDone call_ok, OpDone call_ok, OpDone call_ok]"

definition answered_call :: call_state where
  "answered_call =
     reusing_call
       \<lparr>cl_op := None, cl_deadline := False, cl_conn := None, cl_reused := False, cl_retried := True,
        cl_finished := True, cl_parser := Some True, cl_down_done := 5, cl_down_total := Some 5,
        cl_reported_bytes := 5, cl_reported_at := 2000, cl_on_progress := False, cl_on_complete := False,
        cl_results := [CallResponse 200], cl_completions := [CallResponse 200], cl_reports := [(Download, 5, Some 5)],
        cl_sent := 2, cl_opened := 1,
        cl_client := example_idle
          \<lparr>hc_idle := [(''https://h:443'', [\<lparr>ic_id = 1, ic_key = ''https://h:443'', ic_since = 2000, ic_host = ''h'', ic_port = ''443'', ic_tls = True\<rparr>])]\<rparr>\<rparr>"

lemma answered_call_reachable: "call_reachable example_call_env answered_call"
proof (rule call_exec_reachable)
  show "exec (call_next example_call_env) (CallState example_call_env example_idle)
      (Begin 1000 # OpDone call_ok # retry_events) = Some answered_call"
    by code_simp
qed

section \<open>Properties\<close>

text \<open>C7: A call completes exactly once and never gets stuck: it has at most one result, onComplete got
  exactly that result if there is a callback, and until then, once started, an operation is pending.\<close>

theorem call_completes_once:
  assumes "call_reachable E s"
  shows "length (cl_results s) \<le> 1 \<and> cl_completions s = (if he_on_complete E then cl_results s else [])
    \<and> (cl_started s \<and> cl_results s = [] \<longrightarrow> cl_op s \<noteq> None) \<and> (cl_results s \<noteq> [] \<longrightarrow> cl_op s = None)"
  using call_reachable_inv [OF assms] by (auto simp: call_inv_def)

theorem call_completes_once_witness:
  "length (cl_results answered_call) \<le> 1 \<and> cl_completions answered_call = cl_results answered_call"
proof -
  have "he_on_complete example_call_env" by (simp add: example_call_env_def)
  with call_completes_once [OF answered_call_reachable] show ?thesis by simp
qed

text \<open>C21: A request goes out at most twice and the call opens at most one connection; a second time only over
  the new connection. It is repeated only when that is safe to try: on a reused connection from which
  nothing was received, if the method is idempotent or the request was not even written, never after
  a cancellation. The retry gives the old connection up and looks the server up again.\<close>

theorem retried_once_when_safe:
  assumes "call_reachable E s"
  shows "cl_sent s \<le> 1 + of_bool (cl_retried s) \<and> cl_opened s \<le> 1
    \<and> (cl_retried s \<longrightarrow> \<not> cl_reused s) \<and> (cl_sent s = 2 \<longrightarrow> cl_opened s = 1)
    \<and> (\<forall>e t. call_step E s e t \<and> cl_retried t \<and> \<not> cl_retried s \<longrightarrow>
        (\<exists>i op. e = OpDone i \<and> cl_op s = Some op \<and> ci_error i \<noteq> None \<and> cl_reused s
          \<and> (cl_parser s = None \<or> cl_parser s = Some False \<and> \<not> ci_got_some i)
          \<and> (idempotent (he_method E) \<or> op_during_write op) \<and> cl_aborted s = None)
        \<and> (\<exists>host port. cl_op t = Some (CResolve host port)) \<and> cl_conn t = None \<and> cl_opened t = 0)"
proof -
  have inv: "call_inv E s" by (rule call_reachable_inv [OF assms])
  have retry: "(\<exists>i op. e = OpDone i \<and> cl_op s = Some op \<and> ci_error i \<noteq> None \<and> cl_reused s
          \<and> (cl_parser s = None \<or> cl_parser s = Some False \<and> \<not> ci_got_some i)
          \<and> (idempotent (he_method E) \<or> op_during_write op) \<and> cl_aborted s = None)
        \<and> (\<exists>host port. cl_op t = Some (CResolve host port)) \<and> cl_conn t = None \<and> cl_opened t = 0"
    if st: "call_step E s e t \<and> cl_retried t \<and> \<not> cl_retried s" for e t
  proof -
    from st have step: "call_next E s e = Some t" by (simp add: call_step_def)
    then obtain i op where e: "e = OpDone i" "cl_op s = Some op" "t = op_completed E i op s"
      using st by (rule retry_step)
    let ?s = "saw i (s\<lparr>cl_op := None\<rparr>)"
    have fields: "cl_retried ?s = cl_retried s" "cl_reused ?s = cl_reused s" "cl_aborted ?s = cl_aborted s"
      "cl_opened ?s = cl_opened s"
      "cl_parser ?s = map_option (\<lambda>got. got \<or> ci_got_some i) (cl_parser s)" by (simp_all add: saw_def)
    obtain ec where ec: "ci_error i = Some ec"
      using st e(3) fields(1) by (cases "ci_error i") (auto simp: op_completed_def Let_def)
    with e(3) have t: "t = call_fail E ec (op_during_write op) ?s" by (simp add: op_completed_def Let_def)
    with st fields(1) have failed: "cl_retried (call_fail E ec (op_during_write op) ?s)" "\<not> cl_retried ?s" by simp_all
    have "cl_opened s = 0"
      using inv e(2) call_fail_retried [OF failed] fields by (auto simp: call_inv_def op_ok_def split: if_splits)
    with call_fail_retried [OF failed] call_fail_retry_resolves [OF failed] fields e(1,2) ec show ?thesis
      unfolding t by (cases "cl_parser s") auto
  qed
  have "cl_sent s \<le> 1 + of_bool (cl_retried s)" "cl_opened s \<le> 1" "cl_retried s \<longrightarrow> \<not> cl_reused s"
    "cl_sent s = 2 \<longrightarrow> cl_opened s = 1"
    using inv unfolding call_inv_def by blast+
  with retry show ?thesis by blast
qed

theorem retried_once_when_safe_witness:
  "\<exists>t. call_next example_call_env reusing_call (OpDone call_refused) = Some t \<and> cl_retried t \<and> cl_reused reusing_call
     \<and> cl_sent reusing_call \<le> 1 \<and> cl_conn t = None"
proof -
  obtain t where step: "call_step example_call_env reusing_call (OpDone call_refused) t"
    by (simp add: call_step_def reusing_call_def)
  have "exec (call_next example_call_env) reusing_call [OpDone call_refused] \<noteq> None
      \<and> cl_retried (the (exec (call_next example_call_env) reusing_call [OpDone call_refused]))"
    by code_simp
  with step have retried: "cl_retried t" by (simp add: call_step_def)
  have fresh: "\<not> cl_retried reusing_call" by (simp add: reusing_call_def CallState_def)
  with retried_once_when_safe [OF reusing_call_reachable] step retried
  have "cl_sent reusing_call \<le> 1" "cl_reused reusing_call" "cl_conn t = None" by auto
  with step retried show ?thesis by (auto simp: call_step_def)
qed

text \<open>A request Beast refuses to build, a TRACE with a body, ends the process instead of failing its call:
  the call starts, but never gets a state after that.\<close>

theorem refused_request_ends_process:
  assumes "parseUrl (he_urls E) (he_url E) HttpUrl = Inr t" and "he_refuses E (he_method E) (he_headers E) (he_body E)"
  shows "call_begin E now (CallState E hc) = Threw ((CallState E hc)\<lparr>cl_target := Some t\<rparr>)
    \<and> call_next E (CallState E hc) (Begin now) = None"
  using assms by (simp add: call_begin_def CallState_def)

theorem refused_request_ends_process_witness:
  "call_next (example_call_env\<lparr>he_method := Verb_trace, he_body := ''x''\<rparr>)
     (CallState (example_call_env\<lparr>he_method := Verb_trace, he_body := ''x''\<rparr>) example_idle) (Begin 0) = None"
  by (rule conjunct2 [OF refused_request_ends_process]) (simp_all add: example_call_env_def example_urls_parse)

text \<open>Whoever stops a call is told so: after a timeout, a cancellation or the end of the client, the
  next failure of the pending operation, or the end of the lookup, completes the call with that
  error and nothing else.\<close>

theorem aborted_call_reports_reason:
  assumes "call_reachable E s" and "cl_aborted s = Some why" and "cl_op s = Some op" and "call_step E s (OpDone i) t"
    and "ci_error i \<noteq> None \<or> is_resolve op"
  shows "cl_results t = [CallFailed (ClientErr why)] \<and> cl_finished t"
proof -
  have "\<not> cl_finished s" "cl_results s = []"
    using call_reachable_inv [OF assms(1)] assms(3) by (auto simp: call_inv_def)
  with assms(2-5) show ?thesis
    by (cases op) (auto simp: call_step_def op_completed_def Let_def saw_def call_fail_def onResolve_def call_finish_def
        split: option.splits)
qed

lemma cancelled_call_reachable:
  "call_reachable example_call_env (reusing_call\<lparr>cl_aborted := Some ErrCancelled\<rparr>)"
proof (rule call_exec_reachable)
  show "exec (call_next example_call_env) (CallState example_call_env example_idle)
      [Begin 1000, OpDone call_ok, AbortRuns ErrCancelled, AbortRuns ErrTimeout]
    = Some (reusing_call\<lparr>cl_aborted := Some ErrCancelled\<rparr>)"
    by code_simp
qed

theorem aborted_call_reports_reason_witness:
  "\<exists>t. call_next example_call_env (reusing_call\<lparr>cl_aborted := Some ErrCancelled\<rparr>) (OpDone call_refused) = Some t
     \<and> cl_results t = [CallFailed (ClientErr ErrCancelled)]"
proof -
  let ?s = "reusing_call\<lparr>cl_aborted := Some ErrCancelled\<rparr>"
  obtain t where step: "call_step example_call_env ?s (OpDone call_refused) t"
    by (simp add: call_step_def reusing_call_def)
  have "cl_results t = [CallFailed (ClientErr ErrCancelled)] \<and> cl_finished t"
    by (rule aborted_call_reports_reason [OF cancelled_call_reachable _ _ step, of ErrCancelled CReadHeader])
      (simp_all add: reusing_call_def call_refused_def)
  with step show ?thesis by (simp add: call_step_def)
qed

text \<open>A connection that was given back is the next one taken for its key, unless it timed out: the most
  recently used connection is reused first, and the other ones stay as they were.\<close>

theorem idle_connection_roundtrip:
  assumes "putIdle c now hc = (True, hc1)" and "later - now < ms_to_ns (hc_idle_timeout hc)"
  shows "\<exists>hc2. takeIdle (ic_key c) later hc1 = (Some (c\<lparr>ic_since := now\<rparr>), [], hc2)
    \<and> (\<forall>key. idle_list hc2 key = idle_list hc key)"
proof -
  let ?l = "idle_list hc (ic_key c) @ [c\<lparr>ic_since := now\<rparr>]"
  have hc1: "hc1 = hc\<lparr>hc_idle := AList.update (ic_key c) ?l (hc_idle hc)\<rparr>"
    using assms(1) by (auto simp: putIdle_def Let_def split: if_splits)
  have "map_of (hc_idle hc1) (ic_key c) = Some ?l" by (simp add: hc1 update_conv')
  with assms(2) have "takeIdle (ic_key c) later hc1
      = (Some (c\<lparr>ic_since := now\<rparr>), [], hc1\<lparr>hc_idle := AList.update (ic_key c) (idle_list hc (ic_key c)) (hc_idle hc1)\<rparr>)"
    by (simp add: takeIdle_def hc1)
  then show ?thesis by (simp add: hc1)
qed

theorem idle_connection_roundtrip_witness:
  "\<exists>hc1 hc2. putIdle \<lparr>ic_id = 3, ic_key = ''k'', ic_since = 0, ic_host = ''h'', ic_port = ''443'', ic_tls = True\<rparr> 100 example_idle = (True, hc1)
     \<and> takeIdle ''k'' 200 hc1 = (Some \<lparr>ic_id = 3, ic_key = ''k'', ic_since = 100, ic_host = ''h'', ic_port = ''443'', ic_tls = True\<rparr>, [], hc2)
     \<and> idle_list hc2 ''k'' = []"
proof -
  let ?c = "\<lparr>ic_id = 3, ic_key = ''k'', ic_since = 0, ic_host = ''h'', ic_port = ''443'', ic_tls = True\<rparr>"
  obtain hc1 where put: "putIdle ?c 100 example_idle = (True, hc1)"
    by (simp add: putIdle_def Let_def example_idle_def idle_list_def)
  have "(200 :: int) - 100 < ms_to_ns (hc_idle_timeout example_idle)" by (simp add: example_idle_def ms_to_ns_exact)
  from idle_connection_roundtrip [OF put this] put show ?thesis
    by (auto simp: idle_list_def example_idle_def)
qed

text \<open>The cache never keeps more than \<^verbatim>\<open>max_idle_per_host\<close> connections of a key, never one
  under another key than its own, and none once the client is closed.\<close>

theorem idle_cache_bounded:
  assumes "reachable cache_starts cache_step hc"
  shows "length (idle_list hc key) \<le> hc_max_idle hc \<and> (\<forall>c \<in> set (idle_list hc key). ic_key c = key)
    \<and> (hc_closed hc \<longrightarrow> idle_list hc key = [])"
  using idle_cache.reachable_inv [OF assms] by (auto simp: idle_inv_def)

theorem idle_cache_bounded_witness:
  "\<exists>hc. cache_step (ClientImpl 1 30000) (PutIdle \<lparr>ic_id = 3, ic_key = ''k'', ic_since = 0, ic_host = ''h'', ic_port = ''443'', ic_tls = True\<rparr> 100) hc
     \<and> length (idle_list hc ''k'') \<le> hc_max_idle hc \<and> idle_list hc ''k'' \<noteq> []"
proof -
  have "reachable cache_starts cache_step (ClientImpl 1 30000)"
    by (rule reachable_init) (auto simp: cache_starts_def)
  then obtain hc where hc: "cache_step (ClientImpl 1 30000) (PutIdle \<lparr>ic_id = 3, ic_key = ''k'', ic_since = 0, ic_host = ''h'', ic_port = ''443'', ic_tls = True\<rparr> 100) hc"
    and reach: "reachable cache_starts cache_step hc"
    by (meson cache_step.simps(2) reachable_step)
  have "idle_list hc ''k'' \<noteq> []"
    using hc by (simp add: putIdle_def ClientImpl_def Let_def idle_list_def update_conv')
  with idle_cache_bounded [OF reach, of "''k''"] hc show ?thesis by blast
qed

text \<open>\<^verbatim>\<open>wait\<close> called on one of the client's own threads returns instead of deadlocking.\<close>

lemma call_wait_on_client_thread: "call_wait True h \<noteq> None"
  by (auto simp: call_wait_def call_done_def split: option.split list.split)

end
