(* ===== verification/ClientCalls.thy ===== *)
theory ClientCalls
  imports HttpClient
begin

text \<open>
  The HTTP client as a whole (\<^verbatim>\<open>HttpClient\<close> and \<^verbatim>\<open>ClientImpl\<close> of
  sources/Client/HttpClient.cpp): any number of calls of \<^theory_text>\<open>HttpClient\<close> that share the cache of
  idle connections, the list of calls, cancellation, and the destructor. The handlers of different
  calls run on different threads; what a handler does to the cache is one critical section, so a
  handler is one step of the client.
\<close>

section \<open>State\<close>

text \<open>
  Call \<open>i\<close> is the \<open>i\<close>-th ever sent. Each call has a copy of the cache that is refreshed before each
  of its steps and written back after it. \<open>ht_list\<close> holds the weak references,
  \<open>ht_admitted\<close> the calls sent before the end of the client, \<open>ht_posted\<close> the aborts
  posted to a call's strand and \<open>ht_aborting\<close> the calls the destructor has still to abort.
  \<open>ht_made\<close> numbers the connections: each new one has an identity of its own.
\<close>

record http_calls =
  ht_client :: http_client
  ht_envs :: "call_env list"
  ht_calls :: "call_state list"
  ht_list :: "nat list"
  ht_admitted :: "nat list"
  ht_posted :: "(nat \<times> client_error) list"
  ht_aborting :: "nat list"
  ht_made :: nat

definition HttpClient_init :: "nat \<Rightarrow> int \<Rightarrow> http_calls" where
  "HttpClient_init max_idle_conns timeout =
     \<lparr>ht_client = ClientImpl max_idle_conns timeout, ht_envs = [], ht_calls = [], ht_list = [], ht_admitted = [],
      ht_posted = [], ht_aborting = [], ht_made = 0\<rparr>"

text \<open>
  A call expires when nothing refers to it: no handler, deadline or posted task, and none of
  \<open>kept\<close>, the ones with a handle or a handler that was cancelled but has not run.
\<close>

definition call_expired :: "nat list \<Rightarrow> http_calls \<Rightarrow> nat \<Rightarrow> bool" where
  "call_expired kept w i \<longleftrightarrow>
     (let s = ht_calls w ! i
      in i \<notin> set kept \<and> i \<notin> set (ht_aborting w) \<and> i \<notin> fst ` set (ht_posted w)
         \<and> cl_started s \<and> cl_op s = None \<and> \<not> cl_deadline s)"

section \<open>Operations\<close>

definition http_send :: "nat list \<Rightarrow> call_env \<Rightarrow> http_calls \<Rightarrow> http_calls" where
  "http_send kept E w =
     (let i = length (ht_calls w);
          w1 = (if hc_closed (ht_client w) then w
                else w\<lparr>ht_list := filter (\<lambda>j. \<not> call_expired kept w j) (ht_list w) @ [i],
                       ht_admitted := ht_admitted w @ [i]\<rparr>)
      in w1\<lparr>ht_envs := ht_envs w @ [E], ht_calls := ht_calls w @ [CallState E (ht_client w)]\<rparr>)"

text \<open>A call's handler runs on the shared cache.\<close>

definition call_runs :: "nat \<Rightarrow> call_event \<Rightarrow> http_calls \<Rightarrow> http_calls option" where
  "call_runs i e w =
     (if i < length (ht_calls w) then
        case call_next (ht_envs w ! i) ((ht_calls w ! i)\<lparr>cl_client := ht_client w\<rparr>) e of
          Some t \<Rightarrow> Some (w\<lparr>ht_calls := (ht_calls w)[i := t], ht_client := cl_client t\<rparr>)
        | None \<Rightarrow> None
      else None)"

definition http_cancel :: "nat \<Rightarrow> http_calls \<Rightarrow> http_calls" where
  "http_cancel i w = w\<lparr>ht_posted := ht_posted w @ [(i, ErrCancelled)]\<rparr>"

text \<open>The destructor: under the mutex the flag, the cache and the list, then the aborts one by one.\<close>

definition http_destroy :: "nat list \<Rightarrow> http_calls \<Rightarrow> http_calls" where
  "http_destroy kept w =
     w\<lparr>ht_client := client_close (ht_client w),
       ht_aborting := filter (\<lambda>j. \<not> call_expired kept w j) (ht_list w), ht_list := []\<rparr>"

definition destroy_abort :: "http_calls \<Rightarrow> http_calls option" where
  "destroy_abort w =
     (case ht_aborting w of
        [] \<Rightarrow> None
      | i # js \<Rightarrow> Some (w\<lparr>ht_aborting := js, ht_posted := ht_posted w @ [(i, ErrClosed)]\<rparr>))"

section \<open>Steps\<close>

datatype http_calls_event =
    Sends "nat list" call_env
  | CallRuns nat call_event
  | Cancels nat
  | PostedAbort nat client_error
  | DestroysClient "nat list"
  | DestructorAborts

text \<open>
  What may run: a call begins the way \<^verbatim>\<open>send\<close> decided, a new connection is a new one,
  and aborts come from the posted ones only.
\<close>

fun call_event_ok :: "http_calls \<Rightarrow> nat \<Rightarrow> call_event \<Rightarrow> bool" where
  "call_event_ok w i (Begin now) = (i \<in> set (ht_admitted w))"
| "call_event_ok w i BeginClosed = (i \<notin> set (ht_admitted w))"
| "call_event_ok w i (OpDone inp) = (ci_conn inp = ht_made w)"
| "call_event_ok w i DeadlineExpires = True"
| "call_event_ok w i e = False"

fun calls_next :: "http_calls \<Rightarrow> http_calls_event \<Rightarrow> http_calls option" where
  "calls_next w (Sends kept E) = Some (http_send kept E w)"
| "calls_next w (CallRuns i e) =
     (if call_event_ok w i e then call_runs i e (w\<lparr>ht_made := ht_made w + 1\<rparr>) else None)"
| "calls_next w (Cancels i) = (if i < length (ht_calls w) then Some (http_cancel i w) else None)"
| "calls_next w (PostedAbort i why) =
     (if (i, why) \<in> set (ht_posted w)
      then call_runs i (AbortRuns why) (w\<lparr>ht_posted := remove1 (i, why) (ht_posted w)\<rparr>) else None)"
| "calls_next w (DestroysClient kept) =
     (if hc_closed (ht_client w) then None else Some (http_destroy kept w))"
| "calls_next w DestructorAborts = destroy_abort w"

definition calls_step :: "http_calls \<Rightarrow> http_calls_event \<Rightarrow> http_calls \<Rightarrow> bool" where
  "calls_step w e v \<longleftrightarrow> calls_next w e = Some v"

definition calls_start :: "http_calls \<Rightarrow> bool" where
  "calls_start w \<longleftrightarrow> (\<exists>n timeout. w = HttpClient_init n timeout)"

section \<open>Who holds a connection\<close>

text \<open>How often connection \<open>x\<close> is idle, and whether a call has it.\<close>

definition idle_count :: "nat \<Rightarrow> http_client \<Rightarrow> nat" where
  "idle_count x hc = sum_list (map (\<lambda>(k, l). count_list (map ic_id l) x) (hc_idle hc))"

definition conn_count :: "nat \<Rightarrow> call_state \<Rightarrow> nat" where
  "conn_count x s = (case cl_conn s of None \<Rightarrow> 0 | Some c \<Rightarrow> of_bool (ic_id c = x))"

definition held_count :: "nat \<Rightarrow> call_state \<Rightarrow> nat" where
  "held_count x s = idle_count x (cl_client s) + conn_count x s"

lemma sum_list_alist_update:
  fixes g :: "'k \<times> 'v \<Rightarrow> nat"
  shows "sum_list (map g (AList.update k v al)) + (case map_of al k of Some v0 \<Rightarrow> g (k, v0) | None \<Rightarrow> 0)
    = sum_list (map g al) + g (k, v)"
  by (induction al) auto

lemma idle_count_update:
  "idle_count x (hc\<lparr>hc_idle := AList.update key l (hc_idle hc)\<rparr>) + count_list (map ic_id (idle_list hc key)) x
    = idle_count x hc + count_list (map ic_id l) x"
  using sum_list_alist_update [of "\<lambda>(k, l). count_list (map ic_id l) x" key l "hc_idle hc"]
  by (auto simp: idle_count_def idle_list_def split: option.splits)

lemma count_list_rev [simp]: "count_list (rev xs) x = count_list xs x"
  by (induction xs) auto

lemma takeIdle_count:
  assumes "takeIdle key now hc = (found, expired, hc')"
  shows "idle_count x hc' + (case found of Some c \<Rightarrow> of_bool (ic_id c = x) | None \<Rightarrow> 0) \<le> idle_count x hc"
proof (cases "map_of (hc_idle hc) key")
  case None
  with assms show ?thesis by (simp add: takeIdle_def)
next
  case (Some list)
  with assms obtain rest where hc': "hc' = hc\<lparr>hc_idle := AList.update key (rev rest) (hc_idle hc)\<rparr>"
    by (auto simp: takeIdle_def split: prod.splits)
  then have rest: "idle_list hc' key = rev rest" by simp
  from takeIdle_split [OF assms] rest
  have "idle_list hc key = rev rest @ (case found of Some c \<Rightarrow> [c] | None \<Rightarrow> []) @ rev expired" by simp
  then have "count_list (map ic_id (idle_list hc key)) x
      = count_list (map ic_id (rev rest)) x + (case found of Some c \<Rightarrow> of_bool (ic_id c = x) | None \<Rightarrow> 0)
        + count_list (map ic_id expired) x"
    by (auto simp flip: rev_map split: option.split)
  with idle_count_update [of x key "rev rest" hc] show ?thesis by (simp add: hc')
qed

lemma putIdle_count: "idle_count x (snd (putIdle c now hc)) \<le> idle_count x hc + of_bool (ic_id c = x)"
  using idle_count_update [of x "ic_key c" "idle_list hc (ic_key c)" hc]
    idle_count_update [of x "ic_key c" "idle_list hc (ic_key c) @ [c\<lparr>ic_since := now\<rparr>]" hc]
  by (auto simp: putIdle_def Let_def)

section \<open>Which server a call talks to\<close>

definition serves_target :: "target \<Rightarrow> call_state \<Rightarrow> bool" where
  "serves_target t s \<longleftrightarrow> cl_target s = Some t \<and> (\<forall>c. cl_conn s = Some c \<longrightarrow> ic_key c = tg_key t)
     \<and> (\<forall>host port. cl_op s = Some (CResolve host port) \<longrightarrow> host = tg_host t \<and> port = tg_port t)"

text \<open>The key of a connection with the server it was made to, and the same of a target.\<close>

definition conn_server :: "idle_conn \<Rightarrow> string \<times> string \<times> string \<times> bool" where
  "conn_server c = (ic_key c, ic_host c, ic_port c, ic_tls c)"

definition target_server :: "target \<Rightarrow> string \<times> string \<times> string \<times> bool" where
  "target_server t = (tg_key t, tg_host t, tg_port t, tg_tls t)"

definition idle_servers :: "http_client \<Rightarrow> (string \<times> string \<times> string \<times> bool) set" where
  "idle_servers hc = {conn_server c |c. \<exists>key. c \<in> set (idle_list hc key)}"

definition servers :: "call_state \<Rightarrow> (string \<times> string \<times> string \<times> bool) set" where
  "servers s = idle_servers (cl_client s) \<union> conn_server ` set_option (cl_conn s)"

lemma takeIdle_servers:
  assumes "takeIdle key now hc = (found, expired, hc')"
  shows "idle_servers hc' \<union> conn_server ` set_option found \<subseteq> idle_servers hc"
proof -
  note split = takeIdle_split [OF assms]
  have "set (idle_list hc' k) \<subseteq> set (idle_list hc k)" for k using split by (cases "k = key") auto
  moreover have "c \<in> set (idle_list hc key)" if "found = Some c" for c using split that by simp
  ultimately show ?thesis unfolding idle_servers_def by (cases found) auto
qed

lemma putIdle_servers: "idle_servers (snd (putIdle c now hc)) \<subseteq> insert (conn_server c) (idle_servers hc)"
  by (auto simp: putIdle_def Let_def idle_servers_def conn_server_def split: if_splits)

text \<open>
  A handler that opens no connection: it makes no copy of one, comes to none of another server,
  never moves to another server, and keeps the cache and the reason of an abort.
\<close>

definition keeps :: "call_state \<Rightarrow> call_state \<Rightarrow> bool" where
  "keeps s t \<longleftrightarrow> (\<forall>x. held_count x t \<le> held_count x s) \<and> (\<forall>k. serves_target k s \<longrightarrow> serves_target k t)
     \<and> (idle_inv (cl_client s) \<longrightarrow> idle_inv (cl_client t)) \<and> cl_aborted t = cl_aborted s
     \<and> hc_closed (cl_client t) = hc_closed (cl_client s) \<and> servers t \<subseteq> servers s"

lemma keeps_trans [trans]: "keeps s t \<Longrightarrow> keeps t u \<Longrightarrow> keeps s u"
  unfolding keeps_def by (auto intro: order_trans)

lemma keeps_same:
  assumes "cl_target t = cl_target s" and "cl_conn t = cl_conn s \<or> cl_conn t = None" and "cl_client t = cl_client s"
    and "cl_aborted t = cl_aborted s" and "cl_op t = cl_op s \<or> (\<forall>op. cl_op t = Some op \<longrightarrow> \<not> is_resolve op)"
  shows "keeps s t"
proof -
  have "cl_op s = Some (CResolve host port)" if "cl_op t = Some (CResolve host port)" for host port
    using assms(5) that by auto
  with assms(1-4) show ?thesis by (auto simp: keeps_def held_count_def conn_count_def serves_target_def servers_def)
qed

lemma keeps_progress: "keeps s (call_progress d n t l w s)"
  by (rule keeps_same) simp_all

lemma keeps_finish: "keeps s (call_finish r s)"
  by (rule keeps_same) (simp_all add: call_finish_def)

lemma keeps_begin_op: "\<not> is_resolve op \<Longrightarrow> keeps s (begin_op op s)"
  by (rule keeps_same) (simp_all add: begin_op_def)

lemma keeps_headers: "keeps s (writeHeader s)" "keeps s (readHeader s)"
  by (rule keeps_same, simp_all add: writeHeader_def readHeader_def begin_op_def)+

lemma keeps_writeBody: "keeps s (writeBody E i s)"
  using keeps_trans [OF keeps_progress keeps_headers(2)] keeps_headers(2) keeps_begin_op by (simp add: writeBody_def)

lemma putIdle_closed [simp]: "hc_closed (snd (putIdle c now hc)) = hc_closed hc"
  by (simp add: putIdle_def Let_def)

lemma keeps_succeed: "keeps s (call_succeed i s)"
proof (cases "cl_conn s")
  case (Some c)
  have "keeps s (s\<lparr>cl_client := snd (putIdle c (ci_now i) (cl_client s)), cl_conn := None\<rparr>)"
    using putIdle_count [of _ c "ci_now i" "cl_client s"] putIdle_servers [of c "ci_now i" "cl_client s"] Some
    by (auto simp: keeps_def held_count_def conn_count_def serves_target_def putIdle_inv servers_def)
  from keeps_trans [OF this keeps_finish] keeps_finish Some show ?thesis by (simp add: call_succeed_def)
qed (simp add: call_succeed_def keeps_finish)

lemma keeps_readBody: "keeps s (readBody i s)"
proof -
  have "keeps s (s\<lparr>cl_down_done := n\<rparr>)" for n by (rule keeps_same) simp_all
  from keeps_trans [OF keeps_trans [OF this keeps_progress] keeps_succeed] keeps_begin_op
  show ?thesis by (simp add: readBody_def Let_def)
qed

lemma keeps_fail: "keeps s (call_fail E ec w s)"
proof -
  have "keeps s (resolve_host (s\<lparr>cl_retried := True, cl_reused := False, cl_conn := None, cl_up_done := 0,
      cl_reported_bytes := 0, cl_parser := None\<rparr>))"
    by (auto simp: keeps_def held_count_def conn_count_def serves_target_def servers_def resolve_host_def begin_op_def
        split: option.split)
  with keeps_finish show ?thesis by (simp add: call_fail_def Let_def split: option.split)
qed

lemma keeps_op_succeeded:
  assumes "\<not> is_resolve op"
  shows "keeps s (op_succeeded E i op s)"
proof (cases op)
  case CConnect
  with keeps_headers(1) keeps_finish keeps_begin_op show ?thesis by (simp add: onConnect_def)
next
  case CHandshake
  with keeps_headers(1) show ?thesis by simp
next
  case CWriteHeader
  with keeps_writeBody show ?thesis by simp
next
  case CWriteBody
  have "keeps s (s\<lparr>cl_up_done := n\<rparr>)" for n by (rule keeps_same) simp_all
  from keeps_trans [OF this keeps_writeBody] keeps_trans [OF keeps_trans [OF this keeps_progress] keeps_writeBody]
  show ?thesis by (simp add: CWriteBody onWriteBody_def Let_def)
next
  case CReadHeader
  have "keeps s (s\<lparr>cl_down_total := n\<rparr>)" for n by (rule keeps_same) simp_all
  from keeps_trans [OF this keeps_readBody] keeps_readBody show ?thesis
    by (simp add: CReadHeader onReadHeader_def split: option.split)
next
  case CReadBody
  have "keeps s (s\<lparr>cl_down_done := n\<rparr>)" for n by (rule keeps_same) simp_all
  from keeps_trans [OF keeps_trans [OF this keeps_progress] keeps_readBody] show ?thesis
    by (simp add: CReadBody onReadBody_def Let_def)
qed (use assms in simp)

lemma keeps_op_completed:
  assumes "\<not> is_resolve op \<or> ci_error i \<noteq> None"
  shows "keeps s (op_completed E i op s)"
proof -
  have "keeps s (saw i (s\<lparr>cl_op := None\<rparr>))" by (rule keeps_same) (simp_all add: saw_def)
  from keeps_trans [OF this keeps_fail] keeps_trans [OF this keeps_op_succeeded] assms
  show ?thesis by (auto simp: op_completed_def Let_def split: option.split)
qed

section \<open>What a handler does\<close>

text \<open>A call that has a connection or an operation talks to the server of its URL.\<close>

definition server_ok :: "call_env \<Rightarrow> call_state \<Rightarrow> bool" where
  "server_ok E s \<longleftrightarrow> cl_conn s \<noteq> None \<or> cl_op s \<noteq> None
     \<longrightarrow> (\<exists>t. parseUrl (he_urls E) (he_url E) HttpUrl = Inr t \<and> serves_target t s)"

text \<open>The connection a completed operation may open.\<close>

fun opened_by :: "call_event \<Rightarrow> nat option" where
  "opened_by (OpDone i) = Some (ci_conn i)"
| "opened_by e = None"

definition call_effect :: "call_env \<Rightarrow> call_event \<Rightarrow> call_state \<Rightarrow> call_state \<Rightarrow> bool" where
  "call_effect E e s t \<longleftrightarrow>
     (\<forall>x. held_count x t \<le> held_count x s + of_bool (opened_by e = Some x)) \<and> server_ok E t \<and> idle_inv (cl_client t)
   \<and> hc_closed (cl_client t) = hc_closed (cl_client s) \<and> (cl_aborted s \<noteq> None \<longrightarrow> cl_aborted t = cl_aborted s)
   \<and> (\<forall>x \<in> servers t. x \<in> servers s
        \<or> (\<exists>k. parseUrl (he_urls E) (he_url E) HttpUrl = Inr k \<and> x = target_server k))"

lemma keeps_effect:
  assumes "keeps s t" and "idle_inv (cl_client s)" and "parseUrl (he_urls E) (he_url E) HttpUrl = Inr k" and "serves_target k s"
  shows "call_effect E e s t"
  using assms unfolding call_effect_def keeps_def server_ok_def by (meson subsetD trans_le_add1)

lemma begin_effect:
  assumes "call_inv E s" and "idle_inv (cl_client s)" and "\<not> cl_started s" and "cl_conn s = None"
    and "call_begin E now (s\<lparr>cl_started := True\<rparr>) = Done u v"
  shows "call_effect E (Begin now) s v"
proof (cases "parseUrl (he_urls E) (he_url E) HttpUrl")
  case (Inl err)
  have "cl_op s = None" using assms(1,3) by (simp add: call_inv_def)
  moreover have "v = call_finish (CallFailed (ClientErr err)) (s\<lparr>cl_started := True\<rparr>)"
    using assms(5) Inl by (simp add: call_begin_def)
  then have "cl_client v = cl_client s" "cl_conn v = None" "cl_op v = cl_op s" "cl_aborted v = cl_aborted s"
    using assms(4) by (simp_all add: call_finish_def)
  ultimately show ?thesis
    using assms(2) by (simp add: call_effect_def held_count_def conn_count_def server_ok_def servers_def)
next
  case (Inr t)
  obtain found expired hc where take: "takeIdle (tg_key t) now (cl_client s) = (found, expired, hc)" by (metis prod_cases3)
  note split = takeIdle_split [OF take]
  have key: "ic_key c = tg_key t" if "found = Some c" for c
  proof -
    have "c \<in> set (idle_list (cl_client s) (tg_key t))" using split that by simp
    with assms(2) show ?thesis by (simp add: idle_inv_def)
  qed
  from assms(5) Inr have v: "v = call_connect now t (s\<lparr>cl_started := True, cl_target := Some t, cl_deadline := True\<rparr>)"
    by (auto simp: call_begin_def split: if_splits)
  have "servers v \<subseteq> servers s"
    using take takeIdle_servers [OF take] assms(4)
    by (cases found)
      (auto simp: v call_connect_def servers_def writeHeader_def resolve_host_def begin_op_def)
  then show ?thesis
    using Inr take split takeIdle_count [OF take] takeIdle_inv [OF assms(2) take] key assms(4)
    by (cases found)
      (auto simp: v call_connect_def call_effect_def held_count_def conn_count_def server_ok_def serves_target_def
        writeHeader_def resolve_host_def begin_op_def)
qed

lemma resolve_effect:
  assumes "idle_inv (cl_client s)" and "parseUrl (he_urls E) (he_url E) HttpUrl = Inr k" and "serves_target k s"
    and "ci_error i = None" and "cl_op s = Some (CResolve host port)"
  shows "call_effect E (OpDone i) s (op_completed E i (CResolve host port) s)"
proof (cases "cl_aborted s")
  case None
  with assms show ?thesis
    by (auto simp: op_completed_def Let_def saw_def onResolve_def begin_op_def call_effect_def held_count_def
        conn_count_def server_ok_def serves_target_def servers_def conn_server_def target_server_def split: option.split)
next
  case (Some why)
  with assms show ?thesis
    by (auto simp: op_completed_def Let_def saw_def onResolve_def call_finish_def call_effect_def held_count_def
        conn_count_def server_ok_def serves_target_def servers_def split: option.split)
qed

lemma call_next_effect:
  assumes "call_inv E s" and "idle_inv (cl_client s)" and "server_ok E s" and "\<not> cl_started s \<longrightarrow> cl_conn s = None"
    and "call_next E s e = Some t" and "\<And>hc. e \<noteq> ClientChanges hc"
  shows "call_effect E e s t"
proof (cases e)
  case (Begin now)
  with assms(3-5) obtain u where "\<not> cl_started s" "call_begin E now (s\<lparr>cl_started := True\<rparr>) = Done u t"
    by (auto split: if_splits outcome.splits)
  with Begin assms(1,2,4) show ?thesis by (auto intro: begin_effect)
next
  case BeginClosed
  with assms(4,5) have "\<not> cl_started s" "cl_conn s = None"
    "t = call_finish (CallFailed (ClientErr ErrClosed)) (s\<lparr>cl_started := True\<rparr>)"
    by (auto split: if_splits)
  moreover have "cl_op s = None" using assms(1) \<open>\<not> cl_started s\<close> by (simp add: call_inv_def)
  ultimately show ?thesis
    using assms(2) by (auto simp: call_finish_def call_effect_def held_count_def conn_count_def server_ok_def servers_def)
next
  case (OpDone i)
  with assms(5) obtain op where op: "cl_op s = Some op" "t = op_completed E i op s" by (auto split: option.splits)
  with assms(3) obtain k where k: "parseUrl (he_urls E) (he_url E) HttpUrl = Inr k" "serves_target k s"
    by (auto simp: server_ok_def)
  show ?thesis
  proof (cases "\<not> is_resolve op \<or> ci_error i \<noteq> None")
    case True
    with keeps_effect [OF keeps_op_completed assms(2) k] op(2) show ?thesis by simp
  next
    case False
    with resolve_effect [OF assms(2) k] op OpDone show ?thesis by (cases op) simp_all
  qed
next
  case DeadlineExpires
  with assms(2,3,5) show ?thesis
    by (auto simp: call_abort_def call_effect_def held_count_def conn_count_def server_ok_def serves_target_def servers_def
        split: if_splits)
next
  case (AbortRuns why)
  with assms(2,3,5) show ?thesis
    by (auto simp: call_abort_def call_effect_def held_count_def conn_count_def server_ok_def serves_target_def servers_def
        split: if_splits)
qed (use assms(6) in simp)

text \<open>A call starts once, and a finished one stays so.\<close>

lemma op_completed_started [simp]: "cl_started (op_completed E i op s) = cl_started s"
  by (cases op) (simp_all add: op_completed_def saw_def Let_def call_fail_def call_finish_def resolve_host_def begin_op_def
      onResolve_def onConnect_def onWriteBody_def writeBody_def onReadHeader_def onReadBody_def readBody_def
      call_succeed_def readHeader_def writeHeader_def split: option.split)

lemma call_begin_started: "call_begin E now s = Done u t \<Longrightarrow> cl_started t = cl_started s"
  by (auto simp: call_begin_def call_connect_def call_finish_def resolve_host_def writeHeader_def begin_op_def
      split: sum.splits prod.splits option.splits if_splits)

lemma call_next_started:
  assumes "call_next E s e = Some t" and "cl_started s"
  shows "cl_started t"
  using assms by (cases e) (auto simp: call_abort_def call_finish_def split: if_splits option.splits)

lemma call_next_finished:
  assumes "call_inv E s" and "call_next E s e = Some t" and "cl_finished s"
  shows "cl_finished t"
proof -
  have "cl_started s" "cl_op s = None" using assms(1,3) by (auto simp: call_inv_def)
  with assms(2,3) show ?thesis by (cases e) (auto simp: call_abort_def split: if_splits)
qed

lemma unstarted_conn:
  assumes "call_reachable E s"
  shows "\<not> cl_started s \<longrightarrow> cl_conn s = None"
  using assms unfolding call_reachable_def
proof (induction rule: reachable.induct)
  case (reachable_step s e t)
  show ?case
  proof (cases "cl_started s")
    case True
    with reachable_step.hyps(2) call_next_started show ?thesis by (auto simp: call_step_def)
  next
    case False
    then have "cl_op s = None"
      using http_call.reachable_inv [OF reachable_step.hyps(1)] by (simp add: call_inv_def)
    with reachable_step False show ?thesis
      by (cases e) (auto simp: call_step_def call_abort_def call_finish_def dest: call_begin_started
          split: if_splits outcome.splits)
  qed
qed (auto simp: call_starts_def CallState_def)

section \<open>The invariant of the client\<close>

definition conn_owners :: "nat \<Rightarrow> http_calls \<Rightarrow> nat" where
  "conn_owners x w = idle_count x (ht_client w) + sum_list (map (conn_count x) (ht_calls w))"

definition every_call_ok :: "http_calls \<Rightarrow> bool" where
  "every_call_ok w \<longleftrightarrow> length (ht_envs w) = length (ht_calls w) \<and> idle_inv (ht_client w)
     \<and> (\<forall>i < length (ht_calls w). call_reachable (ht_envs w ! i) (ht_calls w ! i) \<and> server_ok (ht_envs w ! i) (ht_calls w ! i))"

definition owned :: "http_calls \<Rightarrow> bool" where
  "owned w \<longleftrightarrow> (\<forall>x. conn_owners x w \<le> 1 \<and> (0 < conn_owners x w \<longrightarrow> x < ht_made w))"

text \<open>A call that will complete: it finished, or the reason to give is set and its operation fails.\<close>

definition settling :: "call_state \<Rightarrow> bool" where
  "settling s \<longleftrightarrow> cl_finished s \<or> cl_aborted s \<noteq> None"

definition calls_refs_ok :: "http_calls \<Rightarrow> bool" where
  "calls_refs_ok w \<longleftrightarrow>
     set (ht_admitted w) \<union> set (ht_aborting w) \<union> fst ` set (ht_posted w) \<subseteq> {..<length (ht_calls w)}
   \<and> (\<forall>i < length (ht_calls w). i \<notin> set (ht_admitted w) \<longrightarrow> hc_closed (ht_client w)
        \<and> (cl_started (ht_calls w ! i) \<longrightarrow> cl_finished (ht_calls w ! i)))
   \<and> (if hc_closed (ht_client w)
      then \<forall>i \<in> set (ht_admitted w). i \<in> set (ht_aborting w) \<or> (i, ErrClosed) \<in> set (ht_posted w) \<or> settling (ht_calls w ! i)
      else ht_aborting w = [] \<and> set (ht_list w) \<subseteq> {..<length (ht_calls w)}
        \<and> (\<forall>i \<in> set (ht_admitted w). i \<in> set (ht_list w) \<or> cl_finished (ht_calls w ! i)))"

text \<open>Every connection, idle or used by a call, was made to the server of the URL of some call.\<close>

definition all_servers :: "http_calls \<Rightarrow> (string \<times> string \<times> string \<times> bool) set" where
  "all_servers w = idle_servers (ht_client w) \<union> (\<Union>s \<in> set (ht_calls w). conn_server ` set_option (cl_conn s))"

definition made_for :: "call_env \<Rightarrow> string \<times> string \<times> string \<times> bool \<Rightarrow> bool" where
  "made_for E x \<longleftrightarrow> (\<exists>k. parseUrl (he_urls E) (he_url E) HttpUrl = Inr k \<and> x = target_server k)"

definition made_ok :: "http_calls \<Rightarrow> bool" where
  "made_ok w \<longleftrightarrow> (\<forall>x \<in> all_servers w. \<exists>E \<in> set (ht_envs w). made_for E x)"

definition calls_inv :: "http_calls \<Rightarrow> bool" where
  "calls_inv w \<longleftrightarrow> every_call_ok w \<and> owned w \<and> calls_refs_ok w \<and> made_ok w"

lemma call_runs_cases:
  assumes "call_runs i e w = Some v"
  obtains t where "i < length (ht_calls w)"
    and "call_next (ht_envs w ! i) ((ht_calls w ! i)\<lparr>cl_client := ht_client w\<rparr>) e = Some t"
    and "v = w\<lparr>ht_calls := (ht_calls w)[i := t], ht_client := cl_client t\<rparr>"
  using assms by (auto simp: call_runs_def split: if_splits option.splits)

lemma call_reachable_next: "call_reachable E s \<Longrightarrow> call_next E s e = Some t \<Longrightarrow> call_reachable E t"
  unfolding call_reachable_def call_step_def [symmetric] by (rule reachable_step)

lemma server_ok_client [simp]: "server_ok E (s\<lparr>cl_client := hc\<rparr>) = server_ok E s"
  by (simp add: server_ok_def serves_target_def)

text \<open>A handler of a call, seen from the client.\<close>

lemma call_runs_effect:
  assumes "every_call_ok w" and "call_runs i e w = Some v" and "\<And>hc. e \<noteq> ClientChanges hc"
  obtains t where "i < length (ht_calls w)" and "v = w\<lparr>ht_calls := (ht_calls w)[i := t], ht_client := cl_client t\<rparr>"
    and "call_reachable (ht_envs w ! i) t" and "call_effect (ht_envs w ! i) e ((ht_calls w ! i)\<lparr>cl_client := ht_client w\<rparr>) t"
    and "cl_finished (ht_calls w ! i) \<Longrightarrow> cl_finished t"
    and "call_next (ht_envs w ! i) ((ht_calls w ! i)\<lparr>cl_client := ht_client w\<rparr>) e = Some t"
proof -
  let ?E = "ht_envs w ! i" and ?s = "(ht_calls w ! i)\<lparr>cl_client := ht_client w\<rparr>"
  from assms(2) obtain t where t: "i < length (ht_calls w)" "call_next ?E ?s e = Some t"
    "v = w\<lparr>ht_calls := (ht_calls w)[i := t], ht_client := cl_client t\<rparr>" by (rule call_runs_cases)
  have "call_reachable ?E (ht_calls w ! i)" using assms(1) t(1) by (simp add: every_call_ok_def)
  from call_reachable_next [OF this, of "ClientChanges (ht_client w)"] have reach: "call_reachable ?E ?s" by simp
  note inv = call_reachable_inv [OF reach]
  have "call_effect ?E e ?s t"
  proof (rule call_next_effect [OF inv _ _ _ t(2) assms(3)])
    show "idle_inv (cl_client ?s)" "server_ok ?E ?s" using assms(1) t(1) by (simp_all add: every_call_ok_def)
  qed (rule unstarted_conn [OF reach])
  moreover have "cl_finished t" if "cl_finished (ht_calls w ! i)"
    using call_next_finished [OF inv t(2)] that by simp
  ultimately show ?thesis using that t call_reachable_next [OF reach t(2)] by blast
qed

lemma call_runs_ok:
  assumes "every_call_ok w" and "call_runs i e w = Some v" and "\<And>hc. e \<noteq> ClientChanges hc"
  shows "every_call_ok v"
proof -
  from call_runs_effect [OF assms] obtain t where t: "i < length (ht_calls w)"
    "v = w\<lparr>ht_calls := (ht_calls w)[i := t], ht_client := cl_client t\<rparr>" "call_reachable (ht_envs w ! i) t"
    "server_ok (ht_envs w ! i) t" "idle_inv (cl_client t)" unfolding call_effect_def by blast
  with assms(1) show ?thesis by (simp add: every_call_ok_def nth_list_update)
qed

lemma call_runs_owned:
  assumes "every_call_ok w" and "owned w" and "call_runs i e (w\<lparr>ht_made := m\<rparr>) = Some v" and "\<And>hc. e \<noteq> ClientChanges hc"
    and "ht_made w \<le> m" and "\<And>x. opened_by e = Some x \<Longrightarrow> x = ht_made w \<and> ht_made w < m"
  shows "owned v"
proof -
  have ok: "every_call_ok (w\<lparr>ht_made := m\<rparr>)" using assms(1) by (simp add: every_call_ok_def)
  from call_runs_effect [OF ok assms(3,4)] obtain t where t: "i < length (ht_calls w)"
    "v = w\<lparr>ht_made := m, ht_calls := (ht_calls w)[i := t], ht_client := cl_client t\<rparr>"
    "call_effect (ht_envs w ! i) e ((ht_calls w ! i)\<lparr>cl_client := ht_client w\<rparr>) t" by auto
  have le: "conn_owners x v \<le> conn_owners x w + of_bool (opened_by e = Some x)" for x
  proof -
    have "held_count x t \<le> idle_count x (ht_client w) + conn_count x (ht_calls w ! i) + of_bool (opened_by e = Some x)"
      using t(3) by (simp add: call_effect_def held_count_def conn_count_def)
    with sum_list_map_update [OF t(1), of "conn_count x" t] show ?thesis by (simp add: t(2) conn_owners_def held_count_def)
  qed
  show ?thesis
    unfolding owned_def
  proof
    fix x
    have w: "conn_owners x w \<le> 1" "0 < conn_owners x w \<Longrightarrow> x < ht_made w" using assms(2) by (simp_all add: owned_def)
    show "conn_owners x v \<le> 1 \<and> (0 < conn_owners x v \<longrightarrow> x < ht_made v)"
    proof (cases "opened_by e = Some x")
      case True
      note x = assms(6) [OF True]
      with w(2) have "conn_owners x w = 0" by auto
      with le [of x] x True show ?thesis by (simp add: t(2))
    next
      case False
      with w le [of x] assms(5) show ?thesis by (auto simp: t(2))
    qed
  qed
qed

lemma call_runs_made:
  assumes "every_call_ok w" and "made_ok w" and "call_runs i e w = Some v" and "\<And>hc. e \<noteq> ClientChanges hc"
  shows "made_ok v"
proof -
  from call_runs_effect [OF assms(1,3,4)] obtain t where t: "i < length (ht_calls w)"
    "v = w\<lparr>ht_calls := (ht_calls w)[i := t], ht_client := cl_client t\<rparr>"
    "call_effect (ht_envs w ! i) e ((ht_calls w ! i)\<lparr>cl_client := ht_client w\<rparr>) t" by auto
  have E: "ht_envs w ! i \<in> set (ht_envs w)" using assms(1) t(1) by (simp add: every_call_ok_def)
  have "ht_calls w ! i \<in> set (ht_calls w)" using t(1) by simp
  then have old: "servers ((ht_calls w ! i)\<lparr>cl_client := ht_client w\<rparr>) \<subseteq> all_servers w"
    by (auto simp: servers_def all_servers_def)
  have new: "x \<in> all_servers w \<or> made_for (ht_envs w ! i) x" if "x \<in> servers t" for x
    using t(3) that old by (auto simp: call_effect_def made_for_def)
  have "x \<in> servers t \<or> x \<in> all_servers w" if "x \<in> all_servers v" for x
    using that set_update_subset_insert [of "ht_calls w" i t] by (auto simp: t(2) all_servers_def servers_def)
  with new have "x \<in> all_servers w \<or> made_for (ht_envs w ! i) x" if "x \<in> all_servers v" for x
    using that by blast
  moreover have "ht_envs v = ht_envs w" by (simp add: t(2))
  ultimately show ?thesis using assms(2) E unfolding made_ok_def by metis
qed

text \<open>The references, from what a step of a call may change.\<close>

lemma calls_refs_update:
  assumes "calls_refs_ok w" and "i < length (ht_calls w)" and "hc_closed hc = hc_closed (ht_client w)"
    and "fst ` set p \<subseteq> {..<length (ht_calls w)}" and "cl_finished (ht_calls w ! i) \<Longrightarrow> cl_finished t"
    and "i \<notin> set (ht_admitted w) \<Longrightarrow> cl_started t \<Longrightarrow> cl_finished t"
    and "(i, ErrClosed) \<in> set (ht_posted w) \<or> settling (ht_calls w ! i) \<Longrightarrow> (i, ErrClosed) \<in> set p \<or> settling t"
    and "\<And>j. j \<noteq> i \<Longrightarrow> (j, ErrClosed) \<in> set (ht_posted w) \<Longrightarrow> (j, ErrClosed) \<in> set p"
  shows "calls_refs_ok (w\<lparr>ht_posted := p, ht_calls := (ht_calls w)[i := t], ht_client := hc\<rparr>)" (is "calls_refs_ok ?v")
proof -
  have calls: "ht_calls ?v ! j = (if j = i then t else ht_calls w ! j)" if "j < length (ht_calls w)" for j
    using that assms(2) by (simp add: nth_list_update)
  have admitted: "j < length (ht_calls w)" if "j \<in> set (ht_admitted w)" for j
    using that assms(1) by (auto simp: calls_refs_ok_def)
  have "hc_closed (ht_client ?v) \<and> (cl_started (ht_calls ?v ! j) \<longrightarrow> cl_finished (ht_calls ?v ! j))"
    if "j < length (ht_calls w)" "j \<notin> set (ht_admitted w)" for j
    using that assms(1,3,6) unfolding calls [OF that(1)] by (cases "j = i") (auto simp: calls_refs_ok_def)
  moreover have "j \<in> set (ht_aborting w) \<or> (j, ErrClosed) \<in> set p \<or> settling (ht_calls ?v ! j)"
    if "hc_closed (ht_client w)" "j \<in> set (ht_admitted w)" for j
  proof -
    have "j \<in> set (ht_aborting w) \<or> (j, ErrClosed) \<in> set (ht_posted w) \<or> settling (ht_calls w ! j)"
      using that assms(1) by (simp add: calls_refs_ok_def)
    with assms(7,8) calls [OF admitted [OF that(2)]] show ?thesis by (cases "j = i") auto
  qed
  moreover have "j \<in> set (ht_list w) \<or> cl_finished (ht_calls ?v ! j)"
    if "\<not> hc_closed (ht_client w)" "j \<in> set (ht_admitted w)" for j
  proof -
    have "j \<in> set (ht_list w) \<or> cl_finished (ht_calls w ! j)" using that assms(1) by (simp add: calls_refs_ok_def)
    with assms(5) calls [OF admitted [OF that(2)]] show ?thesis by (cases "j = i") auto
  qed
  ultimately show ?thesis using assms(1,3,4) by (simp add: calls_refs_ok_def)
qed

lemma call_runs_refs:
  assumes "every_call_ok w" and "calls_refs_ok w" and "call_runs i e w = Some v" and "\<And>hc. e \<noteq> ClientChanges hc"
    and "i \<notin> set (ht_admitted w) \<Longrightarrow> e \<in> {BeginClosed, DeadlineExpires} \<or> (\<exists>why. e = AbortRuns why) \<or> (\<exists>inp. e = OpDone inp)"
  shows "calls_refs_ok v"
proof -
  let ?s = "(ht_calls w ! i)\<lparr>cl_client := ht_client w\<rparr>"
  obtain t where t: "i < length (ht_calls w)" "v = w\<lparr>ht_calls := (ht_calls w)[i := t], ht_client := cl_client t\<rparr>"
    "call_effect (ht_envs w ! i) e ?s t" "cl_finished (ht_calls w ! i) \<Longrightarrow> cl_finished t"
    "call_next (ht_envs w ! i) ?s e = Some t"
    using call_runs_effect [OF assms(1,3,4)] by metis
  have closed: "hc_closed (cl_client t) = hc_closed (ht_client w)" using t(3) by (simp add: call_effect_def)
  have settle: "settling t" if "settling (ht_calls w ! i)"
    using that t(3,4) by (auto simp: settling_def call_effect_def)
  have v: "v = w\<lparr>ht_posted := ht_posted w, ht_calls := (ht_calls w)[i := t], ht_client := cl_client t\<rparr>" using t(2) by simp
  have refused: "cl_finished t" if "i \<notin> set (ht_admitted w)" "cl_started t"
  proof (cases "cl_started (ht_calls w ! i)")
    case True
    with assms(2) that(1) t(1,4) show ?thesis by (auto simp: calls_refs_ok_def)
  next
    case False
    have "call_inv (ht_envs w ! i) (ht_calls w ! i)" using assms(1) t(1) by (simp add: every_call_ok_def call_reachable_inv)
    with False have "cl_op (ht_calls w ! i) = None" by (simp add: call_inv_def)
    with False that assms(5) t(5) show ?thesis by (auto simp: call_abort_def call_finish_def split: if_splits)
  qed
  show ?thesis
    unfolding v
  proof (rule calls_refs_update [OF assms(2) t(1) closed])
    show "fst ` set (ht_posted w) \<subseteq> {..<length (ht_calls w)}" using assms(2) by (simp add: calls_refs_ok_def)
  qed (use t(4) refused settle in auto)
qed

lemma send_inv:
  assumes "calls_inv w"
  shows "calls_inv (http_send kept E w)"
proof -
  note inv = assms [unfolded calls_inv_def]
  have reach: "call_reachable E (CallState E (ht_client w))"
    unfolding call_reachable_def by (rule reachable_init) (auto simp: call_starts_def)
  have new: "\<not> cl_started (CallState E hc)" "cl_conn (CallState E hc) = None" "cl_op (CallState E hc) = None" for hc
    by (simp_all add: CallState_def)
  have "every_call_ok (http_send kept E w)"
    using inv reach new by (auto simp: every_call_ok_def http_send_def server_ok_def Let_def nth_append less_Suc_eq)
  moreover have "conn_owners x (http_send kept E w) = conn_owners x w" "ht_made (http_send kept E w) = ht_made w" for x
    using new by (simp_all add: conn_owners_def http_send_def conn_count_def Let_def)
  then have "owned (http_send kept E w)" using inv by (simp add: owned_def)
  moreover have "cl_finished (ht_calls w ! i)" if "i < length (ht_calls w)" "call_expired kept w i" for i
    using that inv call_reachable_inv by (auto simp: call_expired_def every_call_ok_def call_inv_def Let_def)
  then have "calls_refs_ok (http_send kept E w)"
    using inv new unfolding calls_refs_ok_def
    by (auto simp: http_send_def Let_def nth_append less_Suc_eq subset_iff)
  moreover have "all_servers (http_send kept E w) = all_servers w" "set (ht_envs w) \<subseteq> set (ht_envs (http_send kept E w))"
    using new by (auto simp: all_servers_def http_send_def Let_def)
  then have "made_ok (http_send kept E w)" using inv unfolding made_ok_def by blast
  ultimately show ?thesis by (simp add: calls_inv_def)
qed

lemma destroy_calls_inv:
  assumes "calls_inv w" and "\<not> hc_closed (ht_client w)"
  shows "calls_inv (http_destroy kept w)"
proof -
  note inv = assms(1) [unfolded calls_inv_def]
  have "every_call_ok (http_destroy kept w)" using inv by (simp add: every_call_ok_def http_destroy_def client_close_inv)
  moreover have "conn_owners x (http_destroy kept w) \<le> conn_owners x w" for x
    by (simp add: conn_owners_def http_destroy_def client_close_def idle_count_def)
  then have "owned (http_destroy kept w)"
    using inv unfolding owned_def by (simp add: http_destroy_def) (meson le_trans less_le_trans)
  moreover have "cl_finished (ht_calls w ! i)" if "i < length (ht_calls w)" "call_expired kept w i" for i
    using that inv call_reachable_inv by (auto simp: call_expired_def every_call_ok_def call_inv_def Let_def)
  then have "calls_refs_ok (http_destroy kept w)"
    using inv assms(2) unfolding calls_refs_ok_def
    by (auto simp: http_destroy_def client_close_def settling_def subset_iff)
  moreover have "all_servers (http_destroy kept w) \<subseteq> all_servers w" "ht_envs (http_destroy kept w) = ht_envs w"
    by (auto simp: all_servers_def http_destroy_def client_close_def idle_servers_def idle_list_def)
  then have "made_ok (http_destroy kept w)" using inv unfolding made_ok_def by auto
  ultimately show ?thesis by (simp add: calls_inv_def)
qed

text \<open>An abort that ran settles its call.\<close>

lemma posted_abort_inv:
  assumes "calls_inv w" and "(i, why) \<in> set (ht_posted w)"
    and "call_runs i (AbortRuns why) (w\<lparr>ht_posted := remove1 (i, why) (ht_posted w)\<rparr>) = Some v"
  shows "calls_inv v"
proof -
  let ?w = "w\<lparr>ht_posted := remove1 (i, why) (ht_posted w)\<rparr>"
  note inv = assms(1) [unfolded calls_inv_def]
  have ok: "every_call_ok ?w" and owned: "owned ?w" using inv by (simp_all add: every_call_ok_def owned_def conn_owners_def)
  have "owned v"
    by (rule call_runs_owned [OF ok owned, of i "AbortRuns why" "ht_made w"]) (use assms(3) in simp_all)
  moreover from call_runs_ok [OF ok assms(3)] have "every_call_ok v" by simp
  moreover have "made_ok ?w" using inv by (simp add: made_ok_def all_servers_def)
  from call_runs_made [OF ok this assms(3)] have "made_ok v" by simp
  moreover have "calls_refs_ok v"
  proof -
    from assms(3) obtain t where t: "i < length (ht_calls w)" "t = call_abort why ((ht_calls w ! i)\<lparr>cl_client := ht_client w\<rparr>)"
      "v = w\<lparr>ht_posted := remove1 (i, why) (ht_posted w), ht_calls := (ht_calls w)[i := t], ht_client := cl_client t\<rparr>"
      by (auto elim!: call_runs_cases)
    have fields: "cl_client t = ht_client w" "settling t" "cl_finished t = cl_finished (ht_calls w ! i)"
      "cl_started t = cl_started (ht_calls w ! i)" by (auto simp: t(2) call_abort_def settling_def)
    have refs: "calls_refs_ok w" using inv by simp
    have refused: "cl_finished t" if "i \<notin> set (ht_admitted w)" "cl_started t"
      using that refs t(1) fields(3,4) by (simp add: calls_refs_ok_def)
    show ?thesis
      unfolding t(3)
    proof (rule calls_refs_update [OF refs t(1)])
      have "fst ` set (remove1 (i, why) (ht_posted w)) \<subseteq> fst ` set (ht_posted w)"
        by (intro image_mono set_remove1_subset)
      also have "\<dots> \<subseteq> {..<length (ht_calls w)}" using refs by (simp add: calls_refs_ok_def)
      finally show "fst ` set (remove1 (i, why) (ht_posted w)) \<subseteq> {..<length (ht_calls w)}" .
    qed (use fields refused in \<open>simp_all add: in_set_remove1\<close>)
  qed
  ultimately show ?thesis by (simp add: calls_inv_def)
qed

lemma destroy_abort_inv:
  assumes "calls_inv w" and "destroy_abort w = Some v"
  shows "calls_inv v"
proof -
  note inv = assms(1) [unfolded calls_inv_def]
  from assms(2) obtain i js where i: "ht_aborting w = i # js"
    "v = w\<lparr>ht_aborting := js, ht_posted := ht_posted w @ [(i, ErrClosed)]\<rparr>"
    by (auto simp: destroy_abort_def split: list.splits)
  have "every_call_ok v" "owned v" "made_ok v"
    using inv by (simp_all add: i(2) every_call_ok_def owned_def conn_owners_def made_ok_def all_servers_def)
  moreover have "calls_refs_ok v"
    using inv i(1) unfolding calls_refs_ok_def i(2) by (auto split: if_splits)
  ultimately show ?thesis by (simp add: calls_inv_def)
qed

lemma call_handler_inv:
  assumes "calls_inv w" and "call_event_ok w i e" and "call_runs i e (w\<lparr>ht_made := ht_made w + 1\<rparr>) = Some v"
  shows "calls_inv v"
proof -
  let ?w = "w\<lparr>ht_made := ht_made w + 1\<rparr>"
  note inv = assms(1) [unfolded calls_inv_def]
  have handler: "e \<noteq> ClientChanges hc" "e \<noteq> AbortRuns why" for hc why using assms(2) by auto
  have "every_call_ok ?w" "calls_refs_ok ?w" "made_ok ?w"
    using inv by (simp_all add: every_call_ok_def calls_refs_ok_def made_ok_def all_servers_def)
  moreover have "e \<in> {BeginClosed, DeadlineExpires} \<or> (\<exists>why. e = AbortRuns why) \<or> (\<exists>inp. e = OpDone inp)"
    if "i \<notin> set (ht_admitted ?w)"
    using that assms(2) by (cases e) simp_all
  ultimately have "every_call_ok v" "calls_refs_ok v" "made_ok v"
    using call_runs_ok [of ?w i e v] call_runs_refs [of ?w i e v] call_runs_made [of ?w i e v] assms(3) handler(1)
    by blast+
  moreover have "owned v"
  proof (rule call_runs_owned [OF _ _ assms(3) handler(1)])
    show "every_call_ok w" "owned w" using inv by simp_all
    show "x = ht_made w \<and> ht_made w < ht_made w + 1" if "opened_by e = Some x" for x
      using that assms(2) by (cases e) simp_all
  qed simp
  ultimately show ?thesis by (simp add: calls_inv_def)
qed

lemma cancel_inv:
  assumes "calls_inv w" and "i < length (ht_calls w)"
  shows "calls_inv (http_cancel i w)"
proof -
  note inv = assms(1) [unfolded calls_inv_def]
  have "every_call_ok (http_cancel i w)" "owned (http_cancel i w)" "made_ok (http_cancel i w)"
    using inv by (simp_all add: http_cancel_def every_call_ok_def owned_def conn_owners_def made_ok_def all_servers_def)
  moreover have "calls_refs_ok (http_cancel i w)"
    using inv assms(2) unfolding calls_refs_ok_def http_cancel_def by (auto split: if_splits)
  ultimately show ?thesis by (simp add: calls_inv_def)
qed

lemma calls_next_inv:
  assumes "calls_inv w" and "calls_next w e = Some v"
  shows "calls_inv v"
proof (cases e)
  case (Sends kept E)
  with assms send_inv [OF assms(1)] show ?thesis by auto
next
  case (CallRuns i f)
  with assms(2) have "call_event_ok w i f" "call_runs i f (w\<lparr>ht_made := ht_made w + 1\<rparr>) = Some v"
    by (simp_all split: if_splits)
  then show ?thesis by (rule call_handler_inv [OF assms(1)])
next
  case (Cancels i)
  with assms(2) have "i < length (ht_calls w)" "v = http_cancel i w" by (simp_all split: if_splits)
  then show ?thesis by (simp add: cancel_inv [OF assms(1)])
next
  case (PostedAbort i why)
  with assms(2) have "(i, why) \<in> set (ht_posted w)"
    "call_runs i (AbortRuns why) (w\<lparr>ht_posted := remove1 (i, why) (ht_posted w)\<rparr>) = Some v"
    by (simp_all split: if_splits)
  then show ?thesis by (rule posted_abort_inv [OF assms(1)])
next
  case (DestroysClient kept)
  with assms destroy_calls_inv [OF assms(1)] show ?thesis by (auto split: if_splits)
next
  case DestructorAborts
  with assms(2) show ?thesis by (simp add: destroy_abort_inv [OF assms(1)])
qed

interpretation http_clients: invariant_system calls_start calls_step calls_inv
proof
  have "idle_inv (ClientImpl n timeout)" for n timeout
    by (rule idle_cache.init_inv) (auto simp: cache_starts_def)
  then show "calls_start w \<Longrightarrow> calls_inv w" for w
    by (auto simp: calls_start_def calls_inv_def HttpClient_init_def every_call_ok_def owned_def conn_owners_def calls_refs_ok_def
        ClientImpl_def idle_count_def made_ok_def all_servers_def idle_servers_def idle_list_def)
qed (auto simp: calls_step_def intro: calls_next_inv)

section \<open>Two calls for closed examples\<close>

definition example_input :: "nat \<Rightarrow> call_input" where
  "example_input n = call_ok\<lparr>ci_conn := n\<rparr>"

text \<open>
  Call 0 answers and gives its connection back, call 1 takes it and is cancelled, call 2 is waiting
  for its lookup when the client is destroyed, call 3 comes too late.
\<close>

definition sharing_events :: "http_calls_event list" where
  "sharing_events = Sends [] example_call_env # CallRuns 0 (Begin 0)
     # map (\<lambda>n. CallRuns 0 (OpDone (example_input n))) [1..<6]
     @ [Sends [] example_call_env, CallRuns 1 (Begin 2100), Cancels 1, PostedAbort 1 ErrCancelled]"

definition destroying_calls_events :: "http_calls_event list" where
  "destroying_calls_events =
     [Sends [] example_call_env, CallRuns 2 (Begin 2100), DestroysClient [], Sends [] example_call_env,
      DestructorAborts, DestructorAborts]"

definition sharing_client :: http_calls where
  "sharing_client = the (exec calls_next (HttpClient_init 8 30000) sharing_events)"

definition destroyed_client :: http_calls where
  "destroyed_client = the (exec calls_next sharing_client destroying_calls_events)"

lemma sharing_client_reachable: "reachable calls_start calls_step sharing_client"
proof (rule exec_reachable)
  have "exec calls_next (HttpClient_init 8 30000) sharing_events \<noteq> None" by code_simp
  then show "exec calls_next (HttpClient_init 8 30000) sharing_events = Some sharing_client" by (simp add: sharing_client_def)
  show "reachable calls_start calls_step (HttpClient_init 8 30000)"
    by (intro reachable_init) (auto simp: calls_start_def)
qed (simp add: calls_step_def)

lemma destroyed_client_reachable: "reachable calls_start calls_step destroyed_client"
proof (rule exec_reachable [OF _ sharing_client_reachable])
  have "exec calls_next sharing_client destroying_calls_events \<noteq> None" by code_simp
  then show "exec calls_next sharing_client destroying_calls_events = Some destroyed_client"
    by (simp add: destroyed_client_def)
qed (simp add: calls_step_def)

lemma calls_next_envs:
  assumes "calls_next w e = Some v"
  shows "ht_envs v = ht_envs w @ (case e of Sends kept E \<Rightarrow> [E] | _ \<Rightarrow> [])"
  using assms
  by (cases e) (auto simp: http_send_def http_cancel_def http_destroy_def destroy_abort_def call_runs_def Let_def
      split: if_splits list.splits option.splits)

lemma exec_calls_envs:
  assumes "exec calls_next w es = Some v"
  shows "ht_envs v = ht_envs w @ concat (map (\<lambda>e. case e of Sends kept E \<Rightarrow> [E] | _ \<Rightarrow> []) es)"
  using assms
proof (induction es arbitrary: w)
  case (Cons e es)
  then obtain u where u: "calls_next w e = Some u" "exec calls_next u es = Some v" by (auto split: option.splits)
  show ?case using Cons.IH [OF u(2)] calls_next_envs [OF u(1)] by simp
qed simp

lemma sharing_client_envs: "ht_envs sharing_client = [example_call_env, example_call_env]"
proof -
  have "exec calls_next (HttpClient_init 8 30000) sharing_events \<noteq> None" by code_simp
  then have "exec calls_next (HttpClient_init 8 30000) sharing_events = Some sharing_client"
    by (simp add: sharing_client_def)
  from exec_calls_envs [OF this] show ?thesis
    by (simp add: sharing_events_def HttpClient_init_def upt_conv_Cons)
qed

section \<open>Properties\<close>

definition conn_ids :: "http_calls \<Rightarrow> nat list" where
  "conn_ids w = concat (map (map ic_id \<circ> snd) (hc_idle (ht_client w)))
     @ concat (map (\<lambda>s. case cl_conn s of Some c \<Rightarrow> [ic_id c] | None \<Rightarrow> []) (ht_calls w))"

lemma count_conn_ids: "count_list (conn_ids w) x = conn_owners x w"
proof -
  have "count_list (concat (map (map ic_id \<circ> snd) al)) x = sum_list (map (\<lambda>(k, l). count_list (map ic_id l) x) al)"
    for al :: idle_map
    by (induction al) auto
  moreover have "count_list (concat (map (\<lambda>s. case cl_conn s of Some c \<Rightarrow> [ic_id c] | None \<Rightarrow> []) ss)) x
      = sum_list (map (conn_count x) ss)" for ss
    by (induction ss) (auto simp: conn_count_def split: option.split)
  ultimately show ?thesis by (simp add: conn_ids_def conn_owners_def idle_count_def)
qed

text \<open>C8: A connection has one owner: over any interleaving of calls, cancellations and the destructor, no
  connection is idle twice, idle while a call uses it, or used by two calls.\<close>

theorem http_connection_has_one_owner:
  assumes "reachable calls_start calls_step w"
  shows "distinct (conn_ids w)"
proof (rule count_list_distinct)
  fix x
  have "owned w" using http_clients.reachable_inv [OF assms] by (simp add: calls_inv_def)
  then show "count_list (conn_ids w) x \<le> 1" by (simp add: count_conn_ids owned_def)
qed

theorem http_connection_has_one_owner_witness:
  "conn_ids sharing_client = [1] \<and> distinct (conn_ids sharing_client)"
proof
  show "conn_ids sharing_client = [1]" by code_simp
  show "distinct (conn_ids sharing_client)" by (rule http_connection_has_one_owner [OF sharing_client_reachable])
qed

text \<open>C22: A request only travels over a connection to its own server: whether a call's connection is new or
  reused from the cache, it was made to the host and the port of the call's own URL, and over TLS exactly
  when that URL says so.\<close>

theorem call_uses_its_server:
  assumes "reachable calls_start calls_step w" and "i < length (ht_calls w)" and "cl_conn (ht_calls w ! i) = Some c"
    and "urls_ok parse_uri" and "\<forall>E \<in> set (ht_envs w). he_urls E = parse_uri"
  shows "\<exists>t. parseUrl parse_uri (he_url (ht_envs w ! i)) HttpUrl = Inr t
    \<and> ic_host c = tg_host t \<and> ic_port c = tg_port t \<and> ic_tls c = tg_tls t"
proof -
  have inv: "every_call_ok w" "made_ok w" using http_clients.reachable_inv [OF assms(1)] by (simp_all add: calls_inv_def)
  have "ht_envs w ! i \<in> set (ht_envs w)" using inv(1) assms(2) by (simp add: every_call_ok_def)
  with assms(5) have urls: "he_urls (ht_envs w ! i) = parse_uri" by blast
  have "server_ok (ht_envs w ! i) (ht_calls w ! i)" using inv(1) assms(2) by (simp add: every_call_ok_def)
  with assms(3) urls obtain t where t: "parseUrl parse_uri (he_url (ht_envs w ! i)) HttpUrl = Inr t" "ic_key c = tg_key t"
    by (auto simp: server_ok_def serves_target_def)
  have "conn_server c \<in> conn_server ` set_option (cl_conn (ht_calls w ! i))" by (simp add: assms(3))
  with nth_mem [OF assms(2)] have "conn_server c \<in> all_servers w" unfolding all_servers_def by blast
  with inv(2) obtain E where E: "E \<in> set (ht_envs w)" "made_for E (conn_server c)" unfolding made_ok_def by blast
  then have "he_urls E = parse_uri" using assms(5) by blast
  with E(2) obtain k where k: "parseUrl parse_uri (he_url E) HttpUrl = Inr k" "conn_server c = target_server k"
    unfolding made_for_def by blast
  then have "tg_key k = tg_key t" using t(2) by (simp add: conn_server_def target_server_def)
  from connection_key_determines_server [OF assms(4) k(1) t(1) this] k(2) t(1) show ?thesis
    by (auto simp: conn_server_def target_server_def)
qed

theorem call_uses_its_server_witness:
  "\<exists>c t. cl_conn (ht_calls sharing_client ! 1) = Some c \<and> cl_reused (ht_calls sharing_client ! 1)
     \<and> ic_host c = tg_host t \<and> ic_port c = tg_port t \<and> ic_tls c = tg_tls t
     \<and> parseUrl example_urls (he_url (ht_envs sharing_client ! 1)) HttpUrl = Inr t"
proof -
  have facts: "1 < length (ht_calls sharing_client)" "cl_conn (ht_calls sharing_client ! 1) \<noteq> None"
    "cl_reused (ht_calls sharing_client ! 1)" by code_simp+
  then obtain c where c: "cl_conn (ht_calls sharing_client ! 1) = Some c" by auto
  have "\<forall>E \<in> set (ht_envs sharing_client). he_urls E = example_urls"
    by (simp add: sharing_client_envs example_call_env_def)
  from call_uses_its_server [OF sharing_client_reachable facts(1) c example_urls_ok this] facts(3) c
  show ?thesis by blast
qed

text \<open>C23: The end of the client reaches every call: once the destructor posted its aborts, each call has
  completed, knows the reason it will complete with, or has the abort posted; a call sent too late was
  never started. And nothing is idle any more.\<close>

theorem destroyed_client_aborts_calls:
  assumes "reachable calls_start calls_step w" and "hc_closed (ht_client w)" and "ht_aborting w = []"
    and "i < length (ht_calls w)"
  shows "(cl_finished (ht_calls w ! i) \<or> cl_aborted (ht_calls w ! i) \<noteq> None \<or> (i, ErrClosed) \<in> set (ht_posted w)
      \<or> i \<notin> set (ht_admitted w) \<and> \<not> cl_started (ht_calls w ! i)) \<and> (\<forall>key. idle_list (ht_client w) key = [])"
proof -
  have "calls_refs_ok w" "idle_inv (ht_client w)"
    using http_clients.reachable_inv [OF assms(1)] by (simp_all add: calls_inv_def every_call_ok_def)
  with assms(2-4) show ?thesis by (auto simp: calls_refs_ok_def idle_inv_def settling_def)
qed

theorem destroyed_client_aborts_calls_witness:
  "cl_aborted (ht_calls destroyed_client ! 2) = None \<and> (2, ErrClosed) \<in> set (ht_posted destroyed_client)"
proof -
  have facts: "hc_closed (ht_client destroyed_client)" "ht_aborting destroyed_client = []"
    "2 < length (ht_calls destroyed_client)" "\<not> cl_finished (ht_calls destroyed_client ! 2)"
    "2 \<in> set (ht_admitted destroyed_client)" "cl_aborted (ht_calls destroyed_client ! 2) = None" by code_simp+
  from destroyed_client_aborts_calls [OF destroyed_client_reachable facts(1-3)] facts(4-6) show ?thesis by simp
qed

end
