(* ===== verification/WebSocketClient.thy ===== *)
theory WebSocketClient
  imports ClientCommon SendQueue Cors "HOL-Library.Word" Complex_Main
begin

text \<open>
  The WebSocket client (\<^verbatim>\<open>WebSocketClient.h\<close>, \<^verbatim>\<open>sources/Client/WebSocketClient.cpp\<close>):
  one connection as a state machine on its strand, with reconnects, a bounded send queue that any
  thread may fill, and its own close. A step is what any thread may do on its own, or one task or
  completed operation on the strand. Beast and Asio are inputs of the steps: which pending
  operation completes, with which error, and what the stream reports. A callback may call the
  connection back in the middle of a handler; what it does is a step after the handler, when the
  state it can see is the same.
\<close>

section \<open>Delays\<close>

record reconnect =
  rc_enabled :: bool
  initial_delay :: int
  max_delay :: int
  max_attempts :: "32 word"

definition Reconnect_init :: reconnect where
  "Reconnect_init = \<lparr>rc_enabled = False, initial_delay = 500, max_delay = 30000, max_attempts = 0\<rparr>"

text \<open>
  The loop doubles while it has attempts left and is below the maximum. A double holds these
  values exactly for delays below \<open>2\<close> to the power of 53 milliseconds.
\<close>

fun double_delay :: "int \<Rightarrow> nat \<Rightarrow> int \<Rightarrow> int" where
  "double_delay limit 0 delay = delay"
| "double_delay limit (Suc n) delay = (if delay < limit then double_delay limit n (delay * 2) else delay)"

definition delay_before_jitter :: "reconnect \<Rightarrow> nat \<Rightarrow> int" where
  "delay_before_jitter r attempt = min (double_delay (max_delay r) (attempt - 1) (initial_delay r)) (max_delay r)"

text \<open>Casting a double to an integer drops its fraction; the jitter is drawn from [0.8, 1.2).\<close>

definition trunc_rat :: "rat \<Rightarrow> int" where
  "trunc_rat q = (if q < 0 then - \<lfloor>- q\<rfloor> else \<lfloor>q\<rfloor>)"

definition retryDelay :: "reconnect \<Rightarrow> nat \<Rightarrow> rat \<Rightarrow> int" where
  "retryDelay r attempt jitter = trunc_rat (of_int (delay_before_jitter r attempt) * jitter)"

definition jitter_ok :: "rat \<Rightarrow> bool" where
  "jitter_ok j \<longleftrightarrow> 8/10 \<le> j \<and> j < 12/10"

section \<open>State\<close>

datatype conn_state = Idle | Connecting | Open | Closing | WaitingRetry | Stopped

text \<open>Errors as far as the code tells them apart.\<close>

datatype ws_error = UpgradeDeclined | PeerClosed | OperationAborted | NetError nat | ClientError client_error

datatype conn_op =
    OpResolve nat
  | OpConnect nat
  | OpTls nat
  | OpUpgrade nat
  | OpRead nat
  | OpWrite nat
  | OpClose nat
  | OpTimer

type_synonym client_msg = "string \<times> bool"

datatype strand_job = JobStart | JobSend client_msg nat | JobClose nat

datatype conn_call =
    CallOpen
  | CallMessage client_msg
  | CallClose nat
  | CallError ws_error
  | CallReconnecting nat int

record ws_callbacks =
  cb_open :: bool
  cb_message :: bool
  cb_close :: bool
  cb_error :: bool
  cb_reconnecting :: bool

definition no_callbacks :: ws_callbacks where
  "no_callbacks = \<lparr>cb_open = False, cb_message = False, cb_close = False, cb_error = False, cb_reconnecting = False\<rparr>"

text \<open>
  \<open>wk_reserving\<close> are sends between the check of \<^verbatim>\<open>connected\<close> and the reservation,
  \<open>wk_posting\<close> those between the reservation and the post. \<open>wk_log\<close>, \<open>wk_accepted\<close>,
  \<open>wk_written\<close> and \<open>wk_lost\<close> record the calls and the messages that entered and left the write queue.
  \<open>wk_lookup_cancelled\<close> and \<open>wk_stream_closed\<close> say that \<^verbatim>\<open>doClose\<close> cancelled the resolver and closed
  the socket under the stream; \<open>wk_arrived\<close> are the operations whose completion was queued before.
  The generation counter is unbounded here: the code's wraps after \<open>2\<close> to the power of 32 attempts.
\<close>

record ws_conn =
  wk_state :: conn_state
  wk_stop :: bool
  wk_generation :: nat
  wk_failures :: "32 word"
  wk_ops :: "conn_op list"
  wk_arrived :: "conn_op list"
  wk_lookup_cancelled :: bool
  wk_stream_closed :: bool
  wk_queue :: "client_msg list"
  wk_pending :: nat
  wk_connected :: bool
  wk_requested :: nat
  wk_close_done :: bool
  wk_close_failed :: bool
  wk_read_done :: bool
  wk_status :: nat
  wk_protocol :: string
  wk_callbacks :: ws_callbacks
  wk_target :: "target option"
  wk_posted :: "strand_job list"
  wk_reserving :: "client_msg list"
  wk_posting :: "client_msg list"
  wk_client_closed :: bool
  wk_log :: "conn_call list"
  wk_accepted :: "client_msg list"
  wk_written :: "client_msg list"
  wk_lost :: "client_msg list"

text \<open>What a connection is made with.\<close>

record conn_env =
  ce_urls :: url_lib
  ce_url :: string
  ce_reconnect :: reconnect
  ce_limit :: nat
  ce_callbacks :: ws_callbacks

text \<open>What a handler finds when it runs: the error of its operation and what the stream tells.\<close>

record io_result =
  io_error :: "ws_error option"
  io_reason :: nat
  io_status :: nat
  io_protocol :: string
  io_sni_ok :: bool
  io_jitter :: rat
  io_message :: client_msg

definition WsConnection :: "conn_env \<Rightarrow> ws_conn" where
  "WsConnection E =
     \<lparr>wk_state = Idle, wk_stop = False, wk_generation = 0, wk_failures = 0, wk_ops = [], wk_arrived = [],
      wk_lookup_cancelled = False, wk_stream_closed = False, wk_queue = [],
      wk_pending = 0, wk_connected = False, wk_requested = 1000, wk_close_done = False, wk_close_failed = False,
      wk_read_done = False, wk_status = 0, wk_protocol = [], wk_callbacks = ce_callbacks E, wk_target = None,
      wk_posted = [JobStart], wk_reserving = [], wk_posting = [], wk_client_closed = False, wk_log = [],
      wk_accepted = [], wk_written = [], wk_lost = []\<rparr>"

section \<open>Events to the application\<close>

definition emit_if :: "(ws_callbacks \<Rightarrow> bool) \<Rightarrow> conn_call \<Rightarrow> ws_conn \<Rightarrow> ws_conn" where
  "emit_if has c s = (if has (wk_callbacks s) then s\<lparr>wk_log := wk_log s @ [c]\<rparr> else s)"

definition emitOpen :: "ws_conn \<Rightarrow> ws_conn" where
  "emitOpen s = emit_if cb_open CallOpen s"

definition emitClose_code :: "nat \<Rightarrow> ws_conn \<Rightarrow> ws_conn" where
  "emitClose_code code s = emit_if cb_close (CallClose code) s"

definition emitError_code :: "ws_error \<Rightarrow> ws_conn \<Rightarrow> ws_conn" where
  "emitError_code ec s = emit_if cb_error (CallError ec) s"

definition emitReconnecting :: "nat \<Rightarrow> int \<Rightarrow> ws_conn \<Rightarrow> ws_conn" where
  "emitReconnecting n delay s = emit_if cb_reconnecting (CallReconnecting n delay) s"

definition emit_message :: "client_msg \<Rightarrow> ws_conn \<Rightarrow> ws_conn" where
  "emit_message m s = emit_if cb_message (CallMessage m) s"

section \<open>Connecting\<close>

definition conn_stop :: "ws_conn \<Rightarrow> ws_conn" where
  "conn_stop s = s\<lparr>wk_state := Stopped, wk_connected := False, wk_callbacks := no_callbacks\<rparr>"

definition conn_stale :: "nat \<Rightarrow> ws_conn \<Rightarrow> bool" where
  "conn_stale gen s \<longleftrightarrow> gen \<noteq> wk_generation s \<or> wk_state s = Stopped"

definition start_conn_op :: "conn_op \<Rightarrow> ws_conn \<Rightarrow> ws_conn" where
  "start_conn_op op s = s\<lparr>wk_ops := wk_ops s @ [op]\<rparr>"

definition attempt :: "ws_conn \<Rightarrow> ws_conn" where
  "attempt s =
     (if wk_stop s \<or> wk_client_closed s then conn_stop s
      else let gen = wk_generation s + 1
           in start_conn_op (OpResolve gen) (s\<lparr>wk_state := Connecting, wk_generation := gen\<rparr>))"

definition conn_start :: "conn_env \<Rightarrow> ws_conn \<Rightarrow> ws_conn" where
  "conn_start E s =
     (case parseUrl (ce_urls E) (ce_url E) WebSocketUrl of
        Inl e \<Rightarrow> conn_stop (emitError_code (ClientError e) s)
      | Inr t \<Rightarrow> attempt (s\<lparr>wk_target := Some t\<rparr>))"

definition scheduleRetry :: "conn_env \<Rightarrow> rat \<Rightarrow> ws_conn \<Rightarrow> ws_conn" where
  "scheduleRetry E jitter s =
     (if \<not> rc_enabled (ce_reconnect E) \<or> wk_stop s \<or> wk_client_closed s then conn_stop s
      else let s1 = s\<lparr>wk_failures := wk_failures s + 1\<rparr>
           in if max_attempts (ce_reconnect E) > 0 \<and> wk_failures s1 > max_attempts (ce_reconnect E)
              then conn_stop (emitError_code (ClientError ErrGaveUp) s1)
              else let n = unat (wk_failures s1);
                       delay = retryDelay (ce_reconnect E) n jitter
                   in start_conn_op OpTimer (emitReconnecting n delay (s1\<lparr>wk_state := WaitingRetry\<rparr>)))"

definition attemptFailed :: "conn_env \<Rightarrow> rat \<Rightarrow> ws_error \<Rightarrow> ws_conn \<Rightarrow> ws_conn" where
  "attemptFailed E jitter ec s =
     (if wk_stop s then conn_stop s else scheduleRetry E jitter (emitError_code ec s))"

text \<open>Each attempt makes a new stream.\<close>

definition conn_onResolve :: "nat \<Rightarrow> ws_conn \<Rightarrow> ws_conn" where
  "conn_onResolve gen s = start_conn_op (OpConnect gen) (s\<lparr>wk_stream_closed := False\<rparr>)"

text \<open>The fields of the upgrade request: ours first, the application's may replace them.\<close>

definition upgrade_fields ::
  "'h fields_lib \<Rightarrow> string \<Rightarrow> (string \<times> string) list \<Rightarrow> string list \<Rightarrow> 'h \<Rightarrow> 'h" where
  "upgrade_fields F user_agent headers subprotocols h =
     (let h1 = fold (\<lambda>(name, v) h. bf_set F name v h) headers (bf_set F ''User-Agent'' user_agent h);
          protocols = join subprotocols
      in if protocols \<noteq> [] then bf_set F ''Sec-WebSocket-Protocol'' protocols h1 else h1)"

definition conn_upgrade :: "nat \<Rightarrow> ws_conn \<Rightarrow> ws_conn" where
  "conn_upgrade gen s = start_conn_op (OpUpgrade gen) s"

definition conn_onConnect :: "conn_env \<Rightarrow> io_result \<Rightarrow> nat \<Rightarrow> ws_conn \<Rightarrow> ws_conn" where
  "conn_onConnect E r gen s =
     (case wk_target s of
        Some t \<Rightarrow> if \<not> tg_tls t then conn_upgrade gen s
                  else if \<not> io_sni_ok r then attemptFailed E (io_jitter r) (NetError 0) s
                  else start_conn_op (OpTls gen) s
      | None \<Rightarrow> conn_upgrade gen s)"

section \<open>The open connection\<close>

definition conn_read :: "nat \<Rightarrow> ws_conn \<Rightarrow> ws_conn" where
  "conn_read gen s = start_conn_op (OpRead gen) s"

definition closeOpen :: "nat \<Rightarrow> ws_conn \<Rightarrow> ws_conn" where
  "closeOpen code s =
     start_conn_op (OpClose (wk_generation s)) (s\<lparr>wk_state := Closing, wk_requested := code\<rparr>)"

definition onUpgrade :: "conn_env \<Rightarrow> io_result \<Rightarrow> nat \<Rightarrow> ws_conn \<Rightarrow> ws_conn" where
  "onUpgrade E r gen s =
     (if io_error r = Some UpgradeDeclined then
        (let s1 = s\<lparr>wk_status := io_status r\<rparr>
         in conn_stop (if wk_stop s1 then s1 else emitError_code (ClientError ErrUpgradeRejected) s1))
      else case io_error r of
        Some ec \<Rightarrow> attemptFailed E (io_jitter r) ec s
      | None \<Rightarrow>
          let s1 = s\<lparr>wk_protocol := io_protocol r, wk_status := 0, wk_failures := 0, wk_state := Open,
                     wk_connected := True\<rparr>;
              s2 = conn_read gen (emitOpen s1)
          in if wk_stop s then closeOpen 1000 s2 else s2)"

text \<open>The code of the peer, \<^verbatim>\<open>no_status\<close> when its close frame had none.\<close>

definition peerCode :: "nat \<Rightarrow> nat" where
  "peerCode code = (if code = 0 then 1005 else code)"

definition closed_conn :: "conn_env \<Rightarrow> rat \<Rightarrow> nat \<Rightarrow> ws_conn \<Rightarrow> ws_conn" where
  "closed_conn E jitter code s =
     (let s1 = emitClose_code code
            (s\<lparr>wk_connected := False, wk_pending := wk_pending s - length (wk_queue s),
               wk_lost := wk_lost s @ wk_queue s, wk_queue := []\<rparr>)
      in if wk_stop s1 \<or> wk_client_closed s1 then conn_stop s1 else scheduleRetry E jitter s1)"

definition finishOwnClose :: "conn_env \<Rightarrow> io_result \<Rightarrow> ws_conn \<Rightarrow> ws_conn" where
  "finishOwnClose E r s =
     closed_conn E (io_jitter r)
       (if \<not> wk_close_failed s then (if io_reason r = 0 then wk_requested s else io_reason r) else 1006) s"

definition ended :: "conn_env \<Rightarrow> io_result \<Rightarrow> ws_error \<Rightarrow> ws_conn \<Rightarrow> ws_conn" where
  "ended E r ec s =
     (if wk_state s = Closing \<and> ec = OperationAborted then
        (let s1 = s\<lparr>wk_read_done := True\<rparr> in if wk_close_done s1 then finishOwnClose E r s1 else s1)
      else if ec = PeerClosed then closed_conn E (io_jitter r) (peerCode (io_reason r)) s
      else closed_conn E (io_jitter r) 1006
             (if \<not> wk_stop s \<and> ec \<noteq> OperationAborted then emitError_code ec s else s))"

definition conn_onRead :: "conn_env \<Rightarrow> io_result \<Rightarrow> nat \<Rightarrow> ws_conn \<Rightarrow> ws_conn" where
  "conn_onRead E r gen s =
     (case io_error r of
        Some ec \<Rightarrow> ended E r ec s
      | None \<Rightarrow> conn_read gen (emit_message (io_message r) s))"

definition conn_write :: "nat \<Rightarrow> ws_conn \<Rightarrow> ws_conn" where
  "conn_write gen s = start_conn_op (OpWrite gen) s"

definition conn_onWrite :: "io_result \<Rightarrow> nat \<Rightarrow> ws_conn \<Rightarrow> ws_conn" where
  "conn_onWrite r gen s =
     (if wk_queue s = [] \<or> io_error r \<noteq> None then s
      else let s1 = s\<lparr>wk_written := wk_written s @ [hd (wk_queue s)], wk_queue := tl (wk_queue s),
                      wk_pending := wk_pending s - 1\<rparr>
           in if wk_queue s1 \<noteq> [] then conn_write gen s1 else s1)"

definition onClose_done :: "conn_env \<Rightarrow> io_result \<Rightarrow> ws_conn \<Rightarrow> ws_conn" where
  "onClose_done E r s =
     (let s1 = s\<lparr>wk_close_done := True, wk_close_failed := (io_error r \<noteq> None)\<rparr>
      in if wk_read_done s1 then finishOwnClose E r s1 else s1)"

text \<open>
  While connecting, the lookup is cancelled and the socket closed under whatever step is pending. A
  socket closed before its stream is made is none: \<open>conn_onResolve\<close> makes the stream.
\<close>

definition doClose :: "nat \<Rightarrow> ws_conn \<Rightarrow> ws_conn" where
  "doClose code s =
     (if wk_stop s \<or> wk_state s = Stopped then s
      else let s1 = s\<lparr>wk_stop := True\<rparr>
           in case wk_state s of
                Open \<Rightarrow> closeOpen code s1
              | Connecting \<Rightarrow> s1\<lparr>wk_lookup_cancelled := True, wk_stream_closed := True\<rparr>
              | _ \<Rightarrow> conn_stop s1)"

definition job_send :: "client_msg \<Rightarrow> nat \<Rightarrow> ws_conn \<Rightarrow> ws_conn" where
  "job_send m gen s =
     (if wk_state s \<noteq> Open \<or> gen \<noteq> wk_generation s then s\<lparr>wk_pending := wk_pending s - 1\<rparr>
      else let s1 = s\<lparr>wk_queue := wk_queue s @ [m], wk_accepted := wk_accepted s @ [m]\<rparr>
           in if length (wk_queue s1) = 1 then conn_write (wk_generation s1) s1 else s1)"

section \<open>Steps\<close>

fun run_job :: "conn_env \<Rightarrow> strand_job \<Rightarrow> ws_conn \<Rightarrow> ws_conn" where
  "run_job E JobStart s = conn_start E s"
| "run_job E (JobSend m gen) s = job_send m gen s"
| "run_job E (JobClose code) s = doClose code s"

definition fresh :: "nat \<Rightarrow> ws_conn \<Rightarrow> (ws_conn \<Rightarrow> ws_conn) \<Rightarrow> ws_conn" where
  "fresh gen s f = (if conn_stale gen s then s else f s)"

text \<open>A step of connecting: an error ends the attempt.\<close>

definition on_attempt_step :: "conn_env \<Rightarrow> io_result \<Rightarrow> (ws_conn \<Rightarrow> ws_conn) \<Rightarrow> ws_conn \<Rightarrow> ws_conn" where
  "on_attempt_step E r f s =
     (case io_error r of Some ec \<Rightarrow> attemptFailed E (io_jitter r) ec s | None \<Rightarrow> f s)"

definition onTimer :: "io_result \<Rightarrow> ws_conn \<Rightarrow> ws_conn" where
  "onTimer r s = (if io_error r \<noteq> None \<or> wk_state s \<noteq> WaitingRetry then s else attempt s)"

fun complete_op :: "conn_env \<Rightarrow> io_result \<Rightarrow> conn_op \<Rightarrow> ws_conn \<Rightarrow> ws_conn" where
  "complete_op E r (OpResolve g) s = fresh g s (on_attempt_step E r (conn_onResolve g))"
| "complete_op E r (OpConnect g) s = fresh g s (on_attempt_step E r (conn_onConnect E r g))"
| "complete_op E r (OpTls g) s = fresh g s (on_attempt_step E r (conn_upgrade g))"
| "complete_op E r (OpUpgrade g) s = fresh g s (onUpgrade E r g)"
| "complete_op E r (OpRead g) s = fresh g s (conn_onRead E r g)"
| "complete_op E r (OpWrite g) s = fresh g s (conn_onWrite r g)"
| "complete_op E r (OpClose g) s = fresh g s (onClose_done E r)"
| "complete_op E r OpTimer s = onTimer r s"

text \<open>A wait fails only when the timer was cancelled, which \<^verbatim>\<open>doClose\<close> does before it stops.\<close>

definition timer_result_ok :: "ws_conn \<Rightarrow> io_result \<Rightarrow> bool" where
  "timer_result_ok s r \<longleftrightarrow> (io_error r \<noteq> None \<longrightarrow> wk_state s = Stopped)"

text \<open>
  An operation on what \<^verbatim>\<open>doClose\<close> cancelled or closed fails, unless it had completed before, with its
  handler queued. Reads are not cut: the handshake may have left frames in the stream's buffer.
\<close>

fun op_cut :: "ws_conn \<Rightarrow> conn_op \<Rightarrow> bool" where
  "op_cut s (OpResolve g) \<longleftrightarrow> wk_lookup_cancelled s \<and> OpResolve g \<notin> set (wk_arrived s)"
| "op_cut s (OpConnect g) \<longleftrightarrow> wk_stream_closed s \<and> OpConnect g \<notin> set (wk_arrived s)"
| "op_cut s (OpTls g) \<longleftrightarrow> wk_stream_closed s \<and> OpTls g \<notin> set (wk_arrived s)"
| "op_cut s (OpUpgrade g) \<longleftrightarrow> wk_stream_closed s \<and> OpUpgrade g \<notin> set (wk_arrived s)"
| "op_cut s (OpClose g) \<longleftrightarrow> wk_stream_closed s \<and> OpClose g \<notin> set (wk_arrived s)"
| "op_cut s _ \<longleftrightarrow> False"

definition cut_result_ok :: "ws_conn \<Rightarrow> conn_op \<Rightarrow> io_result \<Rightarrow> bool" where
  "cut_result_ok s op r \<longleftrightarrow> (op_cut s op \<longrightarrow> io_error r \<notin> {None, Some UpgradeDeclined})"

datatype conn_event =
    SendCalled client_msg
  | ReserveSlot client_msg
  | SendPosted client_msg
  | CloseCalled nat
  | ClientDestroyed
  | Arrives conn_op
  | JobRuns
  | Completes conn_op io_result

fun conn_next :: "conn_env \<Rightarrow> ws_conn \<Rightarrow> conn_event \<Rightarrow> ws_conn option" where
  "conn_next E s (SendCalled m) =
     Some (if wk_connected s then s\<lparr>wk_reserving := wk_reserving s @ [m]\<rparr> else s)"
| "conn_next E s (ReserveSlot m) =
     (if m \<in> set (wk_reserving s) then
        let s1 = s\<lparr>wk_reserving := remove1 m (wk_reserving s)\<rparr>
        in Some (if wk_pending s \<ge> ce_limit E then s1
                 else s1\<lparr>wk_pending := wk_pending s + 1, wk_posting := wk_posting s @ [m]\<rparr>)
      else None)"
| "conn_next E s (SendPosted m) =
     (if m \<in> set (wk_posting s) then
        Some (s\<lparr>wk_posting := remove1 m (wk_posting s),
                wk_posted := wk_posted s @ [JobSend m (wk_generation s)]\<rparr>)
      else None)"
| "conn_next E s (CloseCalled code) = Some (s\<lparr>wk_posted := wk_posted s @ [JobClose code]\<rparr>)"
| "conn_next E s ClientDestroyed = Some (s\<lparr>wk_client_closed := True\<rparr>)"
| "conn_next E s (Arrives op) =
     (if op \<in> set (wk_ops s) \<and> \<not> op_cut s op then Some (s\<lparr>wk_arrived := wk_arrived s @ [op]\<rparr>) else None)"
| "conn_next E s JobRuns =
     (case wk_posted s of [] \<Rightarrow> None | j # js \<Rightarrow> Some (run_job E j (s\<lparr>wk_posted := js\<rparr>)))"
| "conn_next E s (Completes op r) =
     (if op \<in> set (wk_ops s) \<and> jitter_ok (io_jitter r) \<and> (op = OpTimer \<longrightarrow> timer_result_ok s r) \<and> cut_result_ok s op r
      then Some (complete_op E r op (s\<lparr>wk_ops := remove1 op (wk_ops s)\<rparr>)) else None)"

definition conn_step :: "conn_env \<Rightarrow> ws_conn \<Rightarrow> conn_event \<Rightarrow> ws_conn \<Rightarrow> bool" where
  "conn_step E s e t \<longleftrightarrow> conn_next E s e = Some t"

definition conn_starts :: "conn_env \<Rightarrow> ws_conn \<Rightarrow> bool" where
  "conn_starts E s \<longleftrightarrow> s = WsConnection E"

section \<open>The invariant\<close>

fun op_generation :: "conn_op \<Rightarrow> nat option" where
  "op_generation (OpResolve g) = Some g"
| "op_generation (OpConnect g) = Some g"
| "op_generation (OpTls g) = Some g"
| "op_generation (OpUpgrade g) = Some g"
| "op_generation (OpRead g) = Some g"
| "op_generation (OpWrite g) = Some g"
| "op_generation (OpClose g) = Some g"
| "op_generation OpTimer = None"

definition pending_ops :: "ws_conn \<Rightarrow> (nat \<Rightarrow> conn_op) \<Rightarrow> nat" where
  "pending_ops s kind = count_list (wk_ops s) (kind (wk_generation s))"

definition attempt_ops :: "ws_conn \<Rightarrow> nat" where
  "attempt_ops s = pending_ops s OpResolve + pending_ops s OpConnect + pending_ops s OpTls + pending_ops s OpUpgrade"

definition timers :: "ws_conn \<Rightarrow> nat" where
  "timers s = count_list (wk_ops s) OpTimer"

text \<open>The operations of the current generation that can be pending in a state.\<close>

definition writes_ok :: "ws_conn \<Rightarrow> bool" where
  "writes_ok s \<longleftrightarrow> pending_ops s OpWrite \<le> 1 \<and> (wk_queue s = [] \<longrightarrow> pending_ops s OpWrite = 0)"

definition ops_ok :: "ws_conn \<Rightarrow> bool" where
  "ops_ok s \<longleftrightarrow>
     (case wk_state s of
        Idle \<Rightarrow> wk_ops s = []
      | Connecting \<Rightarrow> attempt_ops s = 1 \<and> pending_ops s OpRead = 0 \<and> pending_ops s OpWrite = 0
          \<and> pending_ops s OpClose = 0 \<and> timers s = 0
      | Open \<Rightarrow> attempt_ops s = 0 \<and> pending_ops s OpRead = 1 \<and> pending_ops s OpClose = 0 \<and> timers s = 0
          \<and> writes_ok s
      | Closing \<Rightarrow> attempt_ops s = 0 \<and> pending_ops s OpRead = of_bool (\<not> wk_read_done s)
          \<and> pending_ops s OpClose = of_bool (\<not> wk_close_done s) \<and> timers s = 0
          \<and> \<not> (wk_read_done s \<and> wk_close_done s) \<and> writes_ok s
      | WaitingRetry \<Rightarrow> attempt_ops s = 0 \<and> pending_ops s OpRead = 0 \<and> pending_ops s OpClose = 0 \<and> timers s = 1
      | Stopped \<Rightarrow> True)"

definition conn_flags_ok :: "conn_env \<Rightarrow> ws_conn \<Rightarrow> bool" where
  "conn_flags_ok E s \<longleftrightarrow>
     (wk_connected s \<longleftrightarrow> wk_state s \<in> {Open, Closing})
   \<and> (\<not> wk_connected s \<longrightarrow> wk_queue s = [])
   \<and> (wk_state s = Closing \<longrightarrow> wk_stop s)
   \<and> (wk_stop s \<longrightarrow> wk_state s \<notin> {Idle, Open, WaitingRetry})
   \<and> (wk_read_done s \<or> wk_close_done s \<longrightarrow> wk_state s \<in> {Closing, Stopped})
   \<and> wk_callbacks s = (if wk_state s = Stopped then no_callbacks else ce_callbacks E)"

definition start_ok :: "ws_conn \<Rightarrow> bool" where
  "start_ok s \<longleftrightarrow> (if wk_state s = Idle then \<exists>js. wk_posted s = JobStart # js \<and> JobStart \<notin> set js
                  else JobStart \<notin> set (wk_posted s))"

definition generations_ok :: "ws_conn \<Rightarrow> bool" where
  "generations_ok s \<longleftrightarrow> (\<forall>op \<in> set (wk_ops s). \<forall>g. op_generation op = Some g \<longrightarrow> g \<le> wk_generation s)"

definition conn_inv :: "conn_env \<Rightarrow> ws_conn \<Rightarrow> bool" where
  "conn_inv E s \<longleftrightarrow> generations_ok s \<and> ops_ok s \<and> conn_flags_ok E s \<and> start_ok s"

lemmas conn_handler_defs = emitOpen_def emitClose_code_def emitError_code_def emitReconnecting_def emit_message_def
  emit_if_def conn_stop_def start_conn_op_def attempt_def conn_start_def scheduleRetry_def attemptFailed_def
  conn_onResolve_def conn_upgrade_def conn_onConnect_def conn_read_def closeOpen_def onUpgrade_def closed_conn_def
  finishOwnClose_def ended_def conn_onRead_def conn_write_def conn_onWrite_def onClose_done_def doClose_def
  job_send_def on_attempt_step_def onTimer_def fresh_def conn_stale_def Let_def

lemmas conn_inv_defs = conn_inv_def generations_ok_def ops_ok_def conn_flags_ok_def start_ok_def attempt_ops_def
  pending_ops_def timers_def writes_ok_def

text \<open>The generation of a new attempt has no pending operation yet.\<close>

lemma new_generation_unused:
  assumes "generations_ok s" and "op_generation op = Some (Suc (wk_generation s))"
  shows "count_list (wk_ops s) op = 0"
proof -
  have "op \<notin> set (wk_ops s)" using assms by (fastforce simp: generations_ok_def)
  then show ?thesis by (simp add: count_list_0_iff)
qed

lemma WsConnection_inv: "conn_inv E (WsConnection E)"
  by (simp add: conn_inv_defs WsConnection_def)

lemma emit_if_fields [simp]:
  "wk_state (emit_if h c s) = wk_state s" "wk_stop (emit_if h c s) = wk_stop s"
  "wk_generation (emit_if h c s) = wk_generation s" "wk_failures (emit_if h c s) = wk_failures s"
  "wk_ops (emit_if h c s) = wk_ops s" "wk_queue (emit_if h c s) = wk_queue s"
  "wk_pending (emit_if h c s) = wk_pending s" "wk_connected (emit_if h c s) = wk_connected s"
  "wk_close_done (emit_if h c s) = wk_close_done s" "wk_close_failed (emit_if h c s) = wk_close_failed s"
  "wk_read_done (emit_if h c s) = wk_read_done s" "wk_callbacks (emit_if h c s) = wk_callbacks s"
  "wk_target (emit_if h c s) = wk_target s" "wk_posted (emit_if h c s) = wk_posted s"
  "wk_reserving (emit_if h c s) = wk_reserving s" "wk_posting (emit_if h c s) = wk_posting s"
  "wk_client_closed (emit_if h c s) = wk_client_closed s" "wk_requested (emit_if h c s) = wk_requested s"
  "wk_accepted (emit_if h c s) = wk_accepted s" "wk_written (emit_if h c s) = wk_written s"
  "wk_lost (emit_if h c s) = wk_lost s"
  by (simp_all add: emit_if_def)

lemmas emit_defs = emitOpen_def emitClose_code_def emitError_code_def emitReconnecting_def emit_message_def

text \<open>Between attempts: no operation of the connection is pending, late writes apart.\<close>

definition between :: "conn_env \<Rightarrow> ws_conn \<Rightarrow> bool" where
  "between E s \<longleftrightarrow> generations_ok s \<and> attempt_ops s = 0 \<and> pending_ops s OpRead = 0 \<and> pending_ops s OpClose = 0
     \<and> timers s = 0 \<and> wk_queue s = [] \<and> \<not> wk_connected s \<and> JobStart \<notin> set (wk_posted s)
     \<and> wk_callbacks s = ce_callbacks E \<and> (\<not> wk_stop s \<or> wk_state s = Connecting \<longrightarrow> \<not> wk_read_done s \<and> \<not> wk_close_done s)"

lemmas between_defs = between_def attempt_ops_def pending_ops_def timers_def generations_ok_def

lemma between_emit_if [simp]: "between E (emit_if h c s) = between E s"
  by (simp add: between_defs)

lemma between_stream [simp]:
  "between E (s\<lparr>wk_stream_closed := b\<rparr>) = between E s" "pending_ops (s\<lparr>wk_stream_closed := b\<rparr>) k = pending_ops s k"
  by (simp_all add: between_defs)

lemma conn_stop_inv:
  assumes "generations_ok s" and "wk_queue s = []" and "JobStart \<notin> set (wk_posted s)"
  shows "conn_inv E (conn_stop s)"
  using assms by (simp add: conn_inv_defs conn_stop_def)

lemma between_stop_inv: "between E s \<Longrightarrow> conn_inv E (conn_stop s)"
  by (rule conn_stop_inv) (simp_all add: between_def)

lemma attempt_inv:
  assumes "between E s"
  shows "conn_inv E (attempt s)"
proof (cases "wk_stop s \<or> wk_client_closed s")
  case True
  then show ?thesis using between_stop_inv [OF assms] by (simp add: attempt_def)
next
  case False
  from assms have gen: "generations_ok s" by (simp add: between_def)
  have new: "count_list (wk_ops s) (k (Suc (wk_generation s))) = 0"
    if "op_generation (k (Suc (wk_generation s))) = Some (Suc (wk_generation s))" for k
    using new_generation_unused [OF gen that] .
  from gen have old: "\<forall>op \<in> set (wk_ops s). \<forall>g. op_generation op = Some g \<longrightarrow> g \<le> Suc (wk_generation s)"
    by (fastforce simp: generations_ok_def)
  from assms False old show ?thesis
    by (simp add: attempt_def conn_inv_defs between_def start_conn_op_def Let_def new)
qed

lemma scheduleRetry_inv:
  assumes "between E s"
  shows "conn_inv E (scheduleRetry E jitter s)"
proof -
  have gave_up: "conn_inv E (conn_stop (emitError_code e (s\<lparr>wk_failures := n\<rparr>)))" for e n
    using assms by (intro conn_stop_inv) (simp_all add: between_def emit_defs generations_ok_def)
  have waits: "conn_inv E (start_conn_op OpTimer (emitReconnecting n d (s\<lparr>wk_failures := f, wk_state := WaitingRetry\<rparr>)))"
    if "\<not> wk_stop s" for n d f
    using assms that by (auto simp: conn_inv_defs between_def start_conn_op_def emit_defs)
  show ?thesis
    using gave_up waits between_stop_inv [OF assms] by (simp add: scheduleRetry_def Let_def)
qed

lemma attemptFailed_inv: "between E s \<Longrightarrow> conn_inv E (attemptFailed E jitter ec s)"
  by (simp add: attemptFailed_def emitError_code_def between_stop_inv scheduleRetry_inv)

text \<open>The same with the connection still counted as connected and messages in its queue.\<close>

definition ending :: "conn_env \<Rightarrow> ws_conn \<Rightarrow> bool" where
  "ending E s \<longleftrightarrow> between E (s\<lparr>wk_connected := False, wk_queue := []\<rparr>)"

lemma closed_conn_inv:
  assumes "ending E s"
  shows "conn_inv E (closed_conn E jitter code s)"
proof -
  have "between E (s\<lparr>wk_connected := False, wk_pending := p, wk_lost := l, wk_queue := []\<rparr>)" for p l
    using assms by (simp add: ending_def between_defs)
  then show ?thesis
    by (simp add: closed_conn_def Let_def emitClose_code_def between_stop_inv scheduleRetry_inv)
qed

text \<open>A completed operation leaves the pending ones.\<close>

abbreviation without_op :: "conn_op \<Rightarrow> ws_conn \<Rightarrow> ws_conn" where
  "without_op op s \<equiv> s\<lparr>wk_ops := remove1 op (wk_ops s)\<rparr>"

lemma generations_without [simp]: "generations_ok s \<Longrightarrow> generations_ok (without_op op s)"
  using set_remove1_subset [of op "wk_ops s"] by (fastforce simp: generations_ok_def)

lemma op_counted: "op \<in> set (wk_ops s) \<Longrightarrow> count_list (wk_ops s) op \<noteq> 0"
  by (simp add: count_list_0_iff)

lemma stale_inv:
  assumes "conn_inv E s" and "op_generation op = Some g" and "conn_stale g s" and "op \<in> set (wk_ops s)"
  shows "conn_inv E (without_op op s)"
proof (cases "wk_state s = Stopped")
  case True
  with assms(1) show ?thesis by (auto simp: conn_inv_def ops_ok_def conn_flags_ok_def start_ok_def)
next
  case False
  with assms(2,3) have "\<And>k. op_generation (k (wk_generation s)) = Some (wk_generation s) \<Longrightarrow> op \<noteq> k (wk_generation s)"
    by (auto simp: conn_stale_def)
  moreover have "op \<noteq> OpTimer" using assms(2) by auto
  moreover have "wk_state s \<noteq> Idle" using assms(1,4) by (auto simp: conn_inv_def ops_ok_def)
  ultimately show ?thesis
    using assms(1) by (auto simp: conn_inv_def ops_ok_def conn_flags_ok_def start_ok_def attempt_ops_def pending_ops_def
        timers_def writes_ok_def split: conn_state.splits)
qed

lemmas attempt_kinds = attempt_ops_def pending_ops_def timers_def

lemma attempt_op_between:
  assumes "conn_inv E s" and "op \<in> set (wk_ops s)" and "wk_state s \<noteq> Stopped"
    and "op \<in> {OpResolve (wk_generation s), OpConnect (wk_generation s), OpTls (wk_generation s), OpUpgrade (wk_generation s)}"
  shows "between E (without_op op s) \<and> wk_state s = Connecting \<and> pending_ops (without_op op s) OpWrite = 0"
proof -
  have "attempt_ops s \<noteq> 0" using op_counted [OF assms(2)] assms(4) by (auto simp: attempt_kinds)
  with assms(1,3) have st: "wk_state s = Connecting" "attempt_ops s = 1"
    by (auto simp: conn_inv_def ops_ok_def attempt_kinds split: conn_state.splits)
  from assms(4) have "attempt_ops (without_op op s) = 0"
    using op_counted [OF assms(2)] st(2) by (auto simp: attempt_kinds)
  moreover from assms(4) have "\<And>k. k \<in> {OpRead, OpWrite, OpClose} \<Longrightarrow> op \<noteq> k (wk_generation s)" by auto
  moreover have "op \<noteq> OpTimer" using assms(4) by auto
  ultimately show ?thesis
    using assms(1) st by (simp add: conn_inv_def ops_ok_def conn_flags_ok_def start_ok_def between_def pending_ops_def timers_def)
qed

lemma next_attempt_op_inv:
  assumes "between E s" and "wk_state s = Connecting" and "pending_ops s OpWrite = 0"
    and "op \<in> {OpConnect (wk_generation s), OpTls (wk_generation s), OpUpgrade (wk_generation s)}"
  shows "conn_inv E (start_conn_op op s)"
  using assms by (auto simp: conn_inv_defs between_defs start_conn_op_def)

lemma on_attempt_step_inv:
  assumes "between E s" and "io_error r = None \<Longrightarrow> conn_inv E (f s)"
  shows "conn_inv E (on_attempt_step E r f s)"
  using assms attemptFailed_inv [OF assms(1)] by (auto simp: on_attempt_step_def split: option.splits)

lemma onUpgrade_inv:
  assumes "between E s" and "wk_state s = Connecting" and "pending_ops s OpWrite = 0"
  shows "conn_inv E (onUpgrade E r (wk_generation s) s)"
proof -
  have declined: "conn_inv E (conn_stop (s\<lparr>wk_status := n\<rparr>))"
    "conn_inv E (conn_stop (emitError_code e (s\<lparr>wk_status := n\<rparr>)))" for n e
    using assms(1) by (auto intro!: conn_stop_inv simp: between_def emitError_code_def generations_ok_def)
  have opened: "conn_inv E (if wk_stop s then closeOpen 1000 s2 else s2)"
    if "s2 = conn_read (wk_generation s) (emitOpen (s\<lparr>wk_protocol := p, wk_status := 0, wk_failures := 0,
        wk_state := Open, wk_connected := True\<rparr>))" "\<not> wk_read_done s" "\<not> wk_close_done s" for s2 p
    using assms that
    by (auto simp: conn_inv_defs between_defs conn_read_def start_conn_op_def emitOpen_def closeOpen_def)
  show ?thesis
    using declined opened attemptFailed_inv [OF assms(1)] assms(1,2)
    by (auto simp: onUpgrade_def Let_def between_def split: option.splits)
qed

lemma closed_conn_stop_inv:
  assumes "wk_stop s" and "generations_ok s" and "JobStart \<notin> set (wk_posted s)"
  shows "conn_inv E (closed_conn E jitter code s)"
proof -
  have "closed_conn E jitter code s = conn_stop (emitClose_code code
      (s\<lparr>wk_connected := False, wk_pending := wk_pending s - length (wk_queue s),
         wk_lost := wk_lost s @ wk_queue s, wk_queue := []\<rparr>))"
    using assms(1) by (simp add: closed_conn_def Let_def emitClose_code_def)
  then show ?thesis
    using assms(2,3) by (simp add: conn_stop_inv emitClose_code_def generations_ok_def)
qed

lemma finishOwnClose_inv:
  "wk_stop s \<Longrightarrow> generations_ok s \<Longrightarrow> JobStart \<notin> set (wk_posted s) \<Longrightarrow> conn_inv E (finishOwnClose E r s)"
  by (simp add: finishOwnClose_def closed_conn_stop_inv)

lemma generations_without_fields [simp]:
  "generations_ok (s\<lparr>wk_read_done := b\<rparr>) = generations_ok s"
  "generations_ok (s\<lparr>wk_close_done := b, wk_close_failed := c\<rparr>) = generations_ok s"
  "generations_ok (emit_if h call s) = generations_ok s"
  "generations_ok (s\<lparr>wk_ops := ops, wk_read_done := b\<rparr>) = generations_ok (s\<lparr>wk_ops := ops\<rparr>)"
  "generations_ok (s\<lparr>wk_ops := ops, wk_close_done := b, wk_close_failed := c\<rparr>) = generations_ok (s\<lparr>wk_ops := ops\<rparr>)"
  by (simp_all add: generations_ok_def)

lemma ending_emit_if [simp]: "ending E (emit_if h c s) = ending E s"
  by (simp add: ending_def between_defs)

lemma started_with_op:
  assumes "conn_inv E s" and "op \<in> set (wk_ops s)"
  shows "wk_state s \<noteq> Idle" and "JobStart \<notin> set (wk_posted s)"
proof -
  show idle: "wk_state s \<noteq> Idle" using assms by (auto simp: conn_inv_def ops_ok_def)
  show "JobStart \<notin> set (wk_posted s)" using assms(1) idle by (simp add: conn_inv_def start_ok_def)
qed

lemma read_op_open_or_closing:
  assumes "conn_inv E s" and "OpRead (wk_generation s) \<in> set (wk_ops s)" and "wk_state s \<noteq> Stopped"
  shows "wk_state s = Open \<and> ending E (without_op (OpRead (wk_generation s)) s)
    \<or> wk_state s = Closing \<and> \<not> wk_read_done s \<and> wk_stop s"
  using assms op_counted [OF assms(2)] generations_without [of s "OpRead (wk_generation s)"]
  by (cases "wk_state s")
    (auto simp: conn_inv_def ops_ok_def conn_flags_ok_def start_ok_def attempt_kinds ending_def between_def generations_ok_def)

lemma conn_onRead_inv:
  assumes "conn_inv E s" and "OpRead (wk_generation s) \<in> set (wk_ops s)" and "wk_state s \<noteq> Stopped"
  shows "conn_inv E (conn_onRead E r (wk_generation s) (without_op (OpRead (wk_generation s)) s))"
proof (cases "io_error r")
  case None
  then have eq: "conn_onRead E r (wk_generation s) (without_op (OpRead (wk_generation s)) s)
      = conn_read (wk_generation s) (emit_message (io_message r) (without_op (OpRead (wk_generation s)) s))"
    by (simp add: conn_onRead_def)
  show ?thesis
    unfolding eq using assms op_counted [OF assms(2)] read_op_open_or_closing [OF assms]
    by (cases "wk_state s")
      (auto simp: conn_inv_defs conn_read_def start_conn_op_def emit_message_def
        dest: set_remove1_subset [THEN subsetD])
next
  case (Some ec)
  let ?s = "without_op (OpRead (wk_generation s)) s"
  have gen: "generations_ok ?s" using assms(1) by (simp add: conn_inv_def)
  note start = started_with_op [OF assms(1,2)]
  from read_op_open_or_closing [OF assms] show ?thesis
  proof (elim disjE conjE)
    assume "wk_state s = Open" "ending E ?s"
    then show ?thesis by (simp add: conn_onRead_def Some ended_def closed_conn_inv emitError_code_def)
  next
    assume closing: "wk_state s = Closing" "\<not> wk_read_done s" "wk_stop s"
    have "conn_inv E (?s\<lparr>wk_read_done := True\<rparr>)" if "\<not> wk_close_done s"
      using assms(1) that closing op_counted [OF assms(2)] gen
      by (auto simp: conn_inv_def ops_ok_def conn_flags_ok_def start_ok_def attempt_kinds writes_ok_def)
    with closing gen start show ?thesis
      by (simp add: conn_onRead_def Some ended_def Let_def finishOwnClose_inv closed_conn_stop_inv emitError_code_def)
  qed
qed

lemma conn_onWrite_inv:
  assumes "conn_inv E s" and "OpWrite (wk_generation s) \<in> set (wk_ops s)" and "wk_state s \<noteq> Stopped"
  shows "conn_inv E (conn_onWrite r (wk_generation s) (without_op (OpWrite (wk_generation s)) s))"
proof -
  let ?s = "without_op (OpWrite (wk_generation s)) s"
  note start = started_with_op [OF assms(1,2)]
  have gen: "generations_ok ?s" using assms(1) by (simp add: conn_inv_def)
  have keep: "conn_inv E ?s" "wk_state s \<in> {Open, Closing, WaitingRetry}"
    using assms start op_counted [OF assms(2)] gen
    by (auto simp: conn_inv_def ops_ok_def conn_flags_ok_def start_ok_def attempt_kinds writes_ok_def
        split: conn_state.splits)
  show ?thesis
  proof (cases "wk_queue s = [] \<or> io_error r \<noteq> None")
    case True
    with keep show ?thesis by (auto simp: conn_onWrite_def)
  next
    case False
    then obtain m ms where st: "wk_state s \<in> {Open, Closing}" "wk_connected s" "io_error r = None" "wk_queue s = m # ms"
      using assms(1) keep(2) by (cases "wk_queue s") (auto simp: conn_inv_def conn_flags_ok_def)
    let ?u = "?s\<lparr>wk_written := wk_written s @ [m], wk_queue := ms, wk_pending := wk_pending s - 1\<rparr>"
    have eq: "conn_onWrite r (wk_generation s) ?s = (if ms = [] then ?u else conn_write (wk_generation s) ?u)"
      using st by (simp add: conn_onWrite_def Let_def)
    show ?thesis
      unfolding eq using st assms(1) start op_counted [OF assms(2)] gen
      by (cases "wk_state s"; cases ms) (simp_all add: conn_write_def start_conn_op_def conn_inv_def ops_ok_def
          conn_flags_ok_def start_ok_def attempt_kinds writes_ok_def generations_ok_def)
  qed
qed

lemma onClose_done_inv:
  assumes "conn_inv E s" and "OpClose (wk_generation s) \<in> set (wk_ops s)" and "wk_state s \<noteq> Stopped"
  shows "conn_inv E (onClose_done E r (without_op (OpClose (wk_generation s)) s))"
proof -
  let ?s = "without_op (OpClose (wk_generation s)) s"
  note start = started_with_op [OF assms(1,2)]
  have gen: "generations_ok ?s" using assms(1) by (simp add: conn_inv_def)
  have closing: "wk_state s = Closing" "wk_stop s" "\<not> wk_close_done s"
    using assms op_counted [OF assms(2)]
    by (cases "wk_state s", auto simp: conn_inv_def ops_ok_def conn_flags_ok_def attempt_kinds)+
  have "conn_inv E (?s\<lparr>wk_close_done := True, wk_close_failed := b\<rparr>)" if "\<not> wk_read_done s" for b
    using assms(1) that closing op_counted [OF assms(2)] gen
    by (auto simp: conn_inv_def ops_ok_def conn_flags_ok_def start_ok_def attempt_kinds writes_ok_def)
  with closing gen start show ?thesis by (simp add: onClose_done_def Let_def finishOwnClose_inv)
qed

lemma onTimer_inv:
  assumes "conn_inv E s" and "OpTimer \<in> set (wk_ops s)" and "timer_result_ok s r"
  shows "conn_inv E (onTimer r (without_op OpTimer s))"
proof -
  note start = started_with_op [OF assms(1,2)]
  have gen: "generations_ok (without_op OpTimer s)" using assms(1) by (simp add: conn_inv_def)
  consider "wk_state s = WaitingRetry" "io_error r = None" | "wk_state s = Stopped"
    using assms op_counted [OF assms(2)]
    by (cases "wk_state s") (auto simp: conn_inv_def ops_ok_def timers_def timer_result_ok_def)
  then show ?thesis
  proof cases
    case 1
    with assms(1) start gen have "between E (without_op OpTimer s)"
      by (auto simp: conn_inv_def ops_ok_def conn_flags_ok_def attempt_kinds between_def)
    with 1 show ?thesis by (simp add: onTimer_def attempt_inv)
  next
    case 2
    with assms(1) start gen show ?thesis
      by (auto simp: onTimer_def conn_inv_def ops_ok_def conn_flags_ok_def start_ok_def)
  qed
qed

lemma complete_op_inv:
  assumes "conn_inv E s" and "op \<in> set (wk_ops s)" and "op = OpTimer \<longrightarrow> timer_result_ok s r"
  shows "conn_inv E (complete_op E r op (without_op op s))"
proof (cases "op = OpTimer")
  case True
  with assms onTimer_inv show ?thesis by simp
next
  case False
  then obtain g where g: "op_generation op = Some g" by (cases op) auto
  show ?thesis
  proof (cases "conn_stale g s")
    case True
    with stale_inv [OF assms(1) g True assms(2)] g show ?thesis
      by (cases op) (simp_all add: fresh_def conn_stale_def)
  next
    case False
    then have live: "g = wk_generation s" "wk_state s \<noteq> Stopped" by (auto simp: conn_stale_def)
    note att = attempt_op_between [OF assms(1,2) live(2)]
    show ?thesis
      using g live(1) att assms(2) conn_onRead_inv [OF assms(1) _ live(2)] conn_onWrite_inv [OF assms(1) _ live(2)]
        onClose_done_inv [OF assms(1) _ live(2)] live(2) onUpgrade_inv [of E "without_op op s" r]
      by (cases op)
        (auto simp: fresh_def conn_stale_def conn_onResolve_def conn_onConnect_def conn_upgrade_def attemptFailed_inv
          intro!: on_attempt_step_inv next_attempt_op_inv split: option.splits)
  qed
qed

text \<open>The invariant does not look at the rest of the state.\<close>

lemma conn_inv_frame:
  assumes "conn_inv E s" and "start_ok t" and "wk_state t = wk_state s" and "wk_generation t = wk_generation s"
    and "wk_ops t = wk_ops s" and "wk_queue t = wk_queue s" and "wk_stop t = wk_stop s"
    and "wk_connected t = wk_connected s" and "wk_read_done t = wk_read_done s"
    and "wk_close_done t = wk_close_done s" and "wk_callbacks t = wk_callbacks s"
  shows "conn_inv E t"
proof -
  have "pending_ops t k = pending_ops s k" for k by (simp add: pending_ops_def assms(4,5))
  then have "ops_ok t = ops_ok s" "generations_ok t = generations_ok s" "conn_flags_ok E t = conn_flags_ok E s"
    using assms(3-) by (simp_all add: ops_ok_def attempt_ops_def timers_def writes_ok_def generations_ok_def
        conn_flags_ok_def split: conn_state.split)
  with assms(1,2) show ?thesis by (simp add: conn_inv_def)
qed

lemma job_popped_inv:
  assumes "conn_inv E s" and "wk_posted s = j # js" and "j \<noteq> JobStart"
  shows "conn_inv E (s\<lparr>wk_posted := js\<rparr>)" and "wk_state s \<noteq> Idle"
proof -
  show idle: "wk_state s \<noteq> Idle" using assms by (auto simp: conn_inv_def start_ok_def)
  show "conn_inv E (s\<lparr>wk_posted := js\<rparr>)"
    by (rule conn_inv_frame [OF assms(1)]) (use assms idle in \<open>auto simp: conn_inv_def start_ok_def\<close>)
qed

lemma doClose_inv:
  assumes "conn_inv E s" and "wk_state s \<noteq> Idle"
  shows "conn_inv E (doClose code s)"
proof (cases "wk_state s")
  case WaitingRetry
  then have "conn_inv E (conn_stop (s\<lparr>wk_stop := True\<rparr>))"
    using assms by (intro conn_stop_inv) (auto simp: conn_inv_def conn_flags_ok_def start_ok_def generations_ok_def)
  with WaitingRetry assms show ?thesis by (simp add: doClose_def Let_def)
qed (use assms in \<open>auto simp: doClose_def closeOpen_def start_conn_op_def Let_def conn_inv_defs\<close>)

lemma job_send_inv:
  assumes "conn_inv E s"
  shows "conn_inv E (job_send m gen s)"
proof (cases "wk_state s \<noteq> Open \<or> gen \<noteq> wk_generation s")
  case True
  have "conn_inv E (s\<lparr>wk_pending := wk_pending s - 1\<rparr>)"
    by (rule conn_inv_frame [OF assms]) (use assms in \<open>auto simp: conn_inv_def start_ok_def\<close>)
  with True show ?thesis by (simp add: job_send_def)
next
  case False
  with assms show ?thesis
    by (auto simp: job_send_def Let_def conn_write_def start_conn_op_def conn_inv_defs)
qed

lemma conn_start_inv:
  assumes "conn_inv E s" and "wk_posted s = JobStart # js"
  shows "conn_inv E (conn_start E (s\<lparr>wk_posted := js\<rparr>))"
proof -
  have st: "wk_state s = Idle" "JobStart \<notin> set js" "wk_ops s = []"
    using assms by (auto simp: conn_inv_def start_ok_def ops_ok_def split: if_splits)
  then have "between E (s\<lparr>wk_posted := js, wk_target := t\<rparr>)" for t
    using assms(1) by (auto simp: between_defs conn_inv_def conn_flags_ok_def)
  then have go: "conn_inv E (attempt (s\<lparr>wk_posted := js, wk_target := t\<rparr>))" for t by (rule attempt_inv)
  have "conn_inv E (conn_stop (emitError_code e (s\<lparr>wk_posted := js\<rparr>)))" for e
    using assms(1) st by (intro conn_stop_inv) (auto simp: emitError_code_def generations_ok_def conn_inv_def conn_flags_ok_def)
  with go show ?thesis by (simp add: conn_start_def split: sum.splits)
qed

text \<open>What other threads do: they add to the posted jobs and the pending messages, and leave the rest.\<close>

fun off_strand :: "conn_event \<Rightarrow> bool" where
  "off_strand JobRuns = False"
| "off_strand (Completes op r) = False"
| "off_strand e = True"

lemma off_strand_frame:
  assumes "conn_next E s e = Some t" and "off_strand e"
  shows "wk_state t = wk_state s \<and> wk_generation t = wk_generation s \<and> wk_ops t = wk_ops s \<and> wk_queue t = wk_queue s
    \<and> wk_stop t = wk_stop s \<and> wk_connected t = wk_connected s \<and> wk_read_done t = wk_read_done s
    \<and> wk_close_done t = wk_close_done s \<and> wk_callbacks t = wk_callbacks s \<and> wk_log t = wk_log s
    \<and> wk_failures t = wk_failures s \<and> wk_accepted t = wk_accepted s \<and> wk_written t = wk_written s
    \<and> wk_lost t = wk_lost s \<and> (\<exists>js. wk_posted t = wk_posted s @ js \<and> JobStart \<notin> set js)"
  using assms by (cases e) (auto simp: Let_def split: if_splits)

lemma off_strand_inv:
  assumes "conn_inv E s" and "conn_next E s e = Some t" and "off_strand e"
  shows "conn_inv E t"
proof -
  note frame = off_strand_frame [OF assms(2,3)]
  then have "start_ok t" using assms(1) by (auto simp: conn_inv_def start_ok_def split: if_splits)
  with frame show ?thesis by (intro conn_inv_frame [OF assms(1)]) simp_all
qed

lemma conn_next_inv:
  assumes "conn_inv E s" and "conn_next E s e = Some t"
  shows "conn_inv E t"
proof (cases e)
  case JobRuns
  with assms(2) obtain j js where j: "wk_posted s = j # js" "t = run_job E j (s\<lparr>wk_posted := js\<rparr>)"
    by (auto split: list.splits)
  show ?thesis
  proof (cases "j = JobStart")
    case True
    with j conn_start_inv [OF assms(1)] show ?thesis by simp
  next
    case False
    note popped = job_popped_inv [OF assms(1) j(1) False]
    then show ?thesis using j(2) False by (cases j) (simp_all add: job_send_inv doClose_inv)
  qed
next
  case (Completes op r)
  with assms(2) have "op \<in> set (wk_ops s)" "op = OpTimer \<longrightarrow> timer_result_ok s r" "t = complete_op E r op (without_op op s)"
    by (auto split: if_splits)
  with complete_op_inv [OF assms(1)] show ?thesis by simp
qed (rule off_strand_inv [OF assms], simp)+

definition conn_reachable :: "conn_env \<Rightarrow> ws_conn \<Rightarrow> bool" where
  "conn_reachable E s \<longleftrightarrow> reachable (conn_starts E) (conn_step E) s"

interpretation ws_conn_system: invariant_system "conn_starts E" "conn_step E" "conn_inv E" for E :: conn_env
  by unfold_locales (auto simp: conn_starts_def conn_step_def WsConnection_inv intro: conn_next_inv)

lemma conn_reachable_inv: "conn_reachable E s \<Longrightarrow> conn_inv E s"
  unfolding conn_reachable_def by (rule ws_conn_system.reachable_inv)

section \<open>The send queue\<close>

text \<open>The part of the state the messages live in; only three handlers touch it.\<close>

definition traffic ::
  "ws_conn \<Rightarrow> client_msg list \<times> nat \<times> client_msg list \<times> client_msg list \<times> client_msg list
     \<times> strand_job list \<times> client_msg list" where
  "traffic s = (wk_queue s, wk_pending s, wk_accepted s, wk_written s, wk_lost s, wk_posted s, wk_posting s)"

lemma traffic_simple [simp]:
  "traffic (emit_if h c s) = traffic s" "traffic (conn_stop s) = traffic s" "traffic (start_conn_op op s) = traffic s"
  "traffic (attempt s) = traffic s" "traffic (doClose code s) = traffic s"
  by (simp_all add: traffic_def conn_handler_defs split: conn_state.split)

lemma traffic_updates [simp]:
  "traffic (s\<lparr>wk_stream_closed := b\<rparr>) = traffic s"
  "traffic (s\<lparr>wk_failures := f\<rparr>) = traffic s" "traffic (s\<lparr>wk_status := n\<rparr>) = traffic s"
  "traffic (s\<lparr>wk_target := tg\<rparr>) = traffic s" "traffic (s\<lparr>wk_read_done := b\<rparr>) = traffic s"
  "traffic (s\<lparr>wk_close_done := b, wk_close_failed := c\<rparr>) = traffic s" "traffic (s\<lparr>wk_ops := ops\<rparr>) = traffic s"
  "traffic (s\<lparr>wk_failures := f, wk_state := st\<rparr>) = traffic s"
  "traffic (s\<lparr>wk_state := st, wk_requested := code\<rparr>) = traffic s"
  "traffic (s\<lparr>wk_protocol := p, wk_status := n, wk_failures := f, wk_state := st, wk_connected := b\<rparr>) = traffic s"
  by (simp_all add: traffic_def)

lemma traffic_handlers [simp]:
  "traffic (scheduleRetry E j s) = traffic s" "traffic (attemptFailed E j ec s) = traffic s"
  "traffic (conn_onResolve g s) = traffic s" "traffic (conn_upgrade g s) = traffic s"
  "traffic (conn_onConnect E r g s) = traffic s" "traffic (onUpgrade E r g s) = traffic s"
  "traffic (onTimer r s) = traffic s" "traffic (conn_start E s) = traffic s"
  by (simp_all add: scheduleRetry_def attemptFailed_def conn_onResolve_def conn_upgrade_def conn_onConnect_def
      onUpgrade_def onTimer_def conn_start_def conn_read_def closeOpen_def Let_def emit_defs
      split: option.split sum.split)

text \<open>The end of a connection drops what is queued.\<close>

definition traffic_dropped ::
  "ws_conn \<Rightarrow> client_msg list \<times> nat \<times> client_msg list \<times> client_msg list \<times> client_msg list
     \<times> strand_job list \<times> client_msg list" where
  "traffic_dropped s = ([], wk_pending s - length (wk_queue s), wk_accepted s, wk_written s, wk_lost s @ wk_queue s,
     wk_posted s, wk_posting s)"

lemma traffic_closed: "traffic (closed_conn E j code s) = traffic_dropped s"
  by (simp add: closed_conn_def Let_def emit_defs) (simp add: traffic_def traffic_dropped_def)

lemma traffic_on_attempt_step:
  "(\<And>u. traffic (f u) = traffic u) \<Longrightarrow> traffic (on_attempt_step E r f s) = traffic s"
  by (simp add: on_attempt_step_def split: option.split)

lemma traffic_dropped_same:
  "traffic_dropped (emit_if h c s) = traffic_dropped s" "traffic_dropped (s\<lparr>wk_read_done := b\<rparr>) = traffic_dropped s"
  "traffic_dropped (s\<lparr>wk_close_done := b, wk_close_failed := d\<rparr>) = traffic_dropped s"
  by (simp_all add: traffic_dropped_def)

lemma complete_op_traffic:
  "traffic (complete_op E r op s) = traffic s \<or> traffic (complete_op E r op s) = traffic_dropped s
   \<or> (\<exists>m q. wk_queue s = m # q \<and> traffic (complete_op E r op s)
        = (q, wk_pending s - 1, wk_accepted s, wk_written s @ [m], wk_lost s, wk_posted s, wk_posting s))"
proof (cases op)
  case (OpWrite g)
  show ?thesis
  proof (cases "wk_queue s")
    case (Cons m q)
    then show ?thesis
      by (simp add: OpWrite fresh_def conn_onWrite_def conn_write_def Let_def) (simp add: traffic_def)
  qed (simp add: OpWrite fresh_def conn_onWrite_def)
next
  case (OpRead g)
  then show ?thesis
    by (simp add: fresh_def conn_onRead_def ended_def finishOwnClose_def conn_read_def emit_defs Let_def
        traffic_closed traffic_dropped_same split: option.split)
next
  case (OpClose g)
  then show ?thesis
    by (simp add: fresh_def onClose_done_def finishOwnClose_def Let_def traffic_closed traffic_dropped_same)
qed (simp_all add: fresh_def traffic_on_attempt_step)

fun is_send_job :: "strand_job \<Rightarrow> bool" where
  "is_send_job (JobSend m gen) = True"
| "is_send_job j = False"

text \<open>Every reserved place is a message in the queue, a posted send, or a send about to be posted.\<close>

definition pending_inv :: "conn_env \<Rightarrow> ws_conn \<Rightarrow> bool" where
  "pending_inv E s \<longleftrightarrow>
     wk_pending s = length (wk_queue s) + length (filter is_send_job (wk_posted s)) + length (wk_posting s)
   \<and> wk_pending s \<le> ce_limit E"

lemma pending_inv_traffic: "traffic t = traffic s \<Longrightarrow> pending_inv E t = pending_inv E s"
  by (simp add: traffic_def pending_inv_def)

lemma job_runs_traffic:
  assumes "conn_next E s JobRuns = Some t"
  shows "(\<exists>j js. wk_posted s = j # js \<and> \<not> is_send_job j \<and> traffic t = traffic (s\<lparr>wk_posted := js\<rparr>))
    \<or> (\<exists>m gen js. wk_posted s = JobSend m gen # js \<and> t = job_send m gen (s\<lparr>wk_posted := js\<rparr>))"
proof -
  from assms obtain j js where j: "wk_posted s = j # js" "t = run_job E j (s\<lparr>wk_posted := js\<rparr>)"
    by (auto split: list.splits)
  then show ?thesis by (cases j) simp_all
qed

lemma completes_traffic:
  assumes "conn_next E s (Completes op r) = Some t"
  shows "traffic t = traffic s \<or> traffic t = traffic_dropped s
    \<or> (\<exists>m q. wk_queue s = m # q \<and> traffic t
        = (q, wk_pending s - 1, wk_accepted s, wk_written s @ [m], wk_lost s, wk_posted s, wk_posting s))"
proof -
  have "traffic_dropped (without_op op s) = traffic_dropped s" by (simp add: traffic_dropped_def)
  with complete_op_traffic [of E r op "without_op op s"] assms show ?thesis by (auto split: if_splits)
qed

lemma pending_inv_step:
  assumes "pending_inv E s" and "conn_step E s e t"
  shows "pending_inv E t"
proof (cases e)
  case JobRuns
  with assms(2) have "conn_next E s JobRuns = Some t" by (simp add: conn_step_def)
  from job_runs_traffic [OF this] show ?thesis
  proof (elim disjE exE conjE)
    fix j js assume "wk_posted s = j # js" "\<not> is_send_job j" "traffic t = traffic (s\<lparr>wk_posted := js\<rparr>)"
    with assms(1) show ?thesis by (simp add: pending_inv_def traffic_def)
  next
    fix m gen js assume "wk_posted s = JobSend m gen # js" "t = job_send m gen (s\<lparr>wk_posted := js\<rparr>)"
    with assms(1) show ?thesis
      by (simp add: pending_inv_def job_send_def Let_def conn_write_def start_conn_op_def)
  qed
next
  case (Completes op r)
  with assms(2) have "conn_next E s (Completes op r) = Some t" by (simp add: conn_step_def)
  from completes_traffic [OF this] assms(1) show ?thesis
    by (auto simp: pending_inv_def traffic_def traffic_dropped_def)
next
  case (SendPosted m)
  with assms show ?thesis
    by (auto simp: pending_inv_def conn_step_def simp flip: Suc_length_remove1 split: if_splits)
qed (use assms in \<open>auto simp: pending_inv_def conn_step_def Let_def split: if_splits\<close>)

interpretation ws_conn_pending: invariant_system "conn_starts E" "conn_step E" "pending_inv E" for E :: conn_env
proof unfold_locales
  show "conn_starts E s \<Longrightarrow> pending_inv E s" for s
    by (simp add: conn_starts_def WsConnection_def pending_inv_def)
qed (rule pending_inv_step)

interpretation client_queue: send_queue "conn_starts E" "conn_step E" wk_queue wk_accepted wk_written wk_lost
  for E :: conn_env
proof unfold_locales
  fix s t :: ws_conn and e
  show "conn_starts E s \<Longrightarrow> wk_queue s = [] \<and> wk_accepted s = [] \<and> wk_written s = [] \<and> wk_lost s = []"
    by (simp add: conn_starts_def WsConnection_def)
  assume step: "conn_step E s e t"
  show "wk_queue t = wk_queue s \<and> wk_accepted t = wk_accepted s \<and> wk_written t = wk_written s \<and> wk_lost t = wk_lost s
    \<or> (\<exists>m. wk_queue t = wk_queue s @ [m] \<and> wk_accepted t = wk_accepted s @ [m] \<and> wk_written t = wk_written s
        \<and> wk_lost t = wk_lost s)
    \<or> (\<exists>m. wk_queue s = m # wk_queue t \<and> wk_accepted t = wk_accepted s \<and> wk_written t = wk_written s @ [m]
        \<and> wk_lost t = wk_lost s)
    \<or> wk_queue t = [] \<and> wk_accepted t = wk_accepted s \<and> wk_written t = wk_written s
        \<and> wk_lost t = wk_lost s @ wk_queue s"
  proof (cases e)
    case JobRuns
    with step have "conn_next E s JobRuns = Some t" by (simp add: conn_step_def)
    from job_runs_traffic [OF this] show ?thesis
    proof (elim disjE exE conjE)
      fix m gen js assume "t = job_send m gen (s\<lparr>wk_posted := js\<rparr>)"
      then show ?thesis
        by (cases "wk_state s \<noteq> Open \<or> gen \<noteq> wk_generation s")
          (auto simp: job_send_def Let_def conn_write_def start_conn_op_def)
    qed (simp add: traffic_def)
  next
    case (Completes op r)
    with step have "conn_next E s (Completes op r) = Some t" by (simp add: conn_step_def)
    from completes_traffic [OF this] show ?thesis
      by (elim disjE exE conjE) (simp_all add: traffic_def traffic_dropped_def)
  qed (use step off_strand_frame [of E s e t] in \<open>simp_all add: conn_step_def\<close>)
qed

section \<open>The events the application sees\<close>

text \<open>
  The order of events: messages come between an opening and its close, a retry is announced while
  nothing is open. Some b means a legal sequence that leaves the connection open (b) or not.
\<close>

fun track :: "bool option \<Rightarrow> conn_call \<Rightarrow> bool option" where
  "track b CallOpen = (if b = Some False then Some True else None)"
| "track b (CallClose code) = (if b = Some True then Some False else None)"
| "track b (CallMessage m) = (if b = Some True then Some True else None)"
| "track b (CallReconnecting n d) = (if b = Some False then Some False else None)"
| "track b (CallError ec) = b"

definition open_after :: "conn_call list \<Rightarrow> bool option" where
  "open_after calls = foldl track (Some False) calls"

lemma open_after_simps [simp]: "open_after [] = Some False" "open_after (cs @ [c]) = track (open_after cs) c"
  by (simp_all add: open_after_def)

definition log_inv :: "ws_conn \<Rightarrow> bool" where
  "log_inv s \<longleftrightarrow> open_after (wk_log s) = Some (wk_connected s)"

definition quiet :: "ws_conn \<Rightarrow> bool" where
  "quiet s \<longleftrightarrow> open_after (wk_log s) = Some False \<and> \<not> wk_connected s"

lemma quiet_log_inv: "quiet s \<Longrightarrow> log_inv s"
  by (simp add: quiet_def log_inv_def)

lemma log_inv_quiet: "log_inv s \<Longrightarrow> \<not> wk_connected s \<Longrightarrow> quiet s"
  by (simp add: quiet_def log_inv_def)

lemma quiet_simps [simp]:
  "quiet (start_conn_op op s) = quiet s" "quiet (s\<lparr>wk_failures := f\<rparr>) = quiet s"
  "quiet (s\<lparr>wk_failures := f, wk_state := st\<rparr>) = quiet s" "quiet (s\<lparr>wk_state := st, wk_generation := g\<rparr>) = quiet s"
  "quiet (s\<lparr>wk_status := n\<rparr>) = quiet s" "quiet (s\<lparr>wk_target := tg\<rparr>) = quiet s" "quiet (s\<lparr>wk_posted := js\<rparr>) = quiet s"
  "quiet (s\<lparr>wk_ops := ops\<rparr>) = quiet s" "quiet (s\<lparr>wk_stop := b\<rparr>) = quiet s" "quiet (s\<lparr>wk_pending := n\<rparr>) = quiet s"
  "quiet (emitError_code ec s) = quiet s"
  "quiet (s\<lparr>wk_stream_closed := c\<rparr>) = quiet s" "quiet (s\<lparr>wk_stop := b, wk_lookup_cancelled := l\<rparr>) = quiet s"
  by (auto simp: quiet_def start_conn_op_def emit_defs emit_if_def)

lemma quiet_emitReconnecting [simp]: "quiet s \<Longrightarrow> quiet (emitReconnecting n d s)"
  by (simp add: quiet_def emit_defs emit_if_def)

lemma quiet_stop [simp]: "quiet s \<Longrightarrow> quiet (conn_stop s)"
  by (simp add: quiet_def conn_stop_def)

lemma quiet_handlers [simp]:
  "quiet s \<Longrightarrow> quiet (attempt s)" "quiet s \<Longrightarrow> quiet (scheduleRetry E j s)" "quiet s \<Longrightarrow> quiet (attemptFailed E j ec s)"
  "quiet s \<Longrightarrow> quiet (conn_onResolve g s)" "quiet s \<Longrightarrow> quiet (conn_upgrade g s)"
  "quiet s \<Longrightarrow> quiet (conn_onConnect E r g s)" "quiet s \<Longrightarrow> quiet (conn_start E s)" "quiet s \<Longrightarrow> quiet (onTimer r s)"
  by (auto simp: attempt_def scheduleRetry_def attemptFailed_def conn_onResolve_def conn_upgrade_def conn_onConnect_def
      conn_start_def onTimer_def Let_def split: option.split sum.split)

lemma quiet_attempt_step:
  "quiet s \<Longrightarrow> (\<And>u. quiet u \<Longrightarrow> quiet (f u)) \<Longrightarrow> quiet (on_attempt_step E r f s)"
  by (simp add: on_attempt_step_def split: option.split)

lemma closed_conn_quiet:
  assumes "open_after (wk_log s) = Some True" and "cb_close (wk_callbacks s)"
  shows "quiet (closed_conn E j code s)"
proof -
  have "quiet (emitClose_code code (s\<lparr>wk_connected := False, wk_pending := p, wk_lost := l, wk_queue := []\<rparr>))" for p l
    using assms by (simp add: quiet_def emit_defs emit_if_def)
  then show ?thesis by (simp add: closed_conn_def Let_def)
qed

lemma onUpgrade_log:
  assumes "quiet s" and "cb_open (wk_callbacks s)"
  shows "log_inv (onUpgrade E r g s)"
proof (cases "io_error r")
  case None
  with assms show ?thesis
    by (simp add: onUpgrade_def Let_def conn_read_def closeOpen_def start_conn_op_def emit_defs emit_if_def
        log_inv_def quiet_def)
next
  case (Some ec)
  have "quiet (conn_stop (s\<lparr>wk_status := n\<rparr>))" "quiet (conn_stop (emitError_code e (s\<lparr>wk_status := n\<rparr>)))" for n e
    using assms(1) by simp_all
  with Some assms(1) show ?thesis by (simp add: onUpgrade_def Let_def quiet_log_inv)
qed

lemma conn_onRead_log:
  assumes "log_inv s" and "wk_connected s" and "cb_close (wk_callbacks s)"
  shows "log_inv (conn_onRead E r g s)"
proof -
  have up: "open_after (wk_log s) = Some True" using assms(1,2) by (simp add: log_inv_def)
  then have read: "log_inv (conn_read g (emit_message m s))" for m
    using assms(2) by (simp add: log_inv_def conn_read_def start_conn_op_def emit_defs emit_if_def)
  have "quiet (closed_conn E j code s)" "quiet (closed_conn E j code (emitError_code ec s))"
    "quiet (closed_conn E j code (s\<lparr>wk_read_done := b\<rparr>))" for j code ec b
    using up assms(3) by (auto intro!: closed_conn_quiet simp: emit_defs emit_if_def)
  then have closed: "log_inv (closed_conn E j code s)" "log_inv (closed_conn E j code (emitError_code ec s))"
    "log_inv (closed_conn E j code (s\<lparr>wk_read_done := b\<rparr>))" for j code ec b
    by (auto intro: quiet_log_inv)
  have "log_inv (s\<lparr>wk_read_done := b\<rparr>)" for b using assms(1) by (simp add: log_inv_def)
  with read closed show ?thesis
    by (simp add: conn_onRead_def ended_def finishOwnClose_def Let_def split: option.split)
qed

lemma onClose_done_log:
  assumes "log_inv s" and "wk_connected s" and "cb_close (wk_callbacks s)"
  shows "log_inv (onClose_done E r s)"
proof -
  have "open_after (wk_log s) = Some True" using assms(1,2) by (simp add: log_inv_def)
  then have "log_inv (closed_conn E j code (s\<lparr>wk_close_done := b, wk_close_failed := c\<rparr>))" for j code b c
    using assms(3) by (intro quiet_log_inv closed_conn_quiet) auto
  then show ?thesis
    using assms(1) by (simp add: onClose_done_def finishOwnClose_def Let_def) (simp add: log_inv_def)
qed

lemma conn_inv_facts:
  assumes "conn_inv E s"
  shows "wk_connected s \<longleftrightarrow> wk_state s \<in> {Open, Closing}" and "wk_state s = Closing \<Longrightarrow> wk_stop s"
    and "wk_stop s \<Longrightarrow> wk_state s \<notin> {Idle, Open, WaitingRetry}"
    and "wk_state s \<noteq> Stopped \<Longrightarrow> wk_callbacks s = ce_callbacks E"
    and "\<not> wk_connected s \<Longrightarrow> wk_queue s = []"
  using assms by (auto simp: conn_inv_def conn_flags_ok_def)

text \<open>In which state a live operation completes.\<close>

lemma live_op_connected:
  assumes "conn_inv E s" and "op \<in> set (wk_ops s)" and "wk_state s \<noteq> Stopped"
  shows "op \<in> {OpRead (wk_generation s), OpClose (wk_generation s)} \<Longrightarrow> wk_connected s"
    and "op \<in> {OpResolve (wk_generation s), OpConnect (wk_generation s), OpTls (wk_generation s),
           OpUpgrade (wk_generation s), OpTimer} \<Longrightarrow> \<not> wk_connected s"
  using assms op_counted [OF assms(2)] conn_inv_facts(1) [OF assms(1)]
  by (auto simp: conn_inv_def ops_ok_def attempt_kinds split: conn_state.splits)

lemma log_inv_frame:
  "log_inv s \<Longrightarrow> wk_log t = wk_log s \<Longrightarrow> wk_connected t = wk_connected s \<Longrightarrow> log_inv t"
  by (simp add: log_inv_def)

lemma conn_onWrite_frame [simp]:
  "wk_log (conn_onWrite r g s) = wk_log s" "wk_connected (conn_onWrite r g s) = wk_connected s"
  "wk_failures (conn_onWrite r g s) = wk_failures s" "wk_state (conn_onWrite r g s) = wk_state s"
  "wk_generation (conn_onWrite r g s) = wk_generation s" "wk_stop (conn_onWrite r g s) = wk_stop s"
  by (simp_all add: conn_onWrite_def conn_write_def start_conn_op_def Let_def)

lemma job_send_frame [simp]:
  "wk_log (job_send m g s) = wk_log s" "wk_connected (job_send m g s) = wk_connected s"
  "wk_failures (job_send m g s) = wk_failures s" "wk_state (job_send m g s) = wk_state s"
  "wk_generation (job_send m g s) = wk_generation s" "wk_stop (job_send m g s) = wk_stop s"
  by (simp_all add: job_send_def conn_write_def start_conn_op_def Let_def)

lemma complete_op_log:
  assumes "conn_inv E s" and "log_inv s" and "cb_open (ce_callbacks E)" and "cb_close (ce_callbacks E)"
    and "op \<in> set (wk_ops s)"
  shows "log_inv (complete_op E r op (without_op op s))"
proof (cases "wk_state s = Stopped")
  case True
  have "log_inv (without_op op s)" by (rule log_inv_frame [OF assms(2)]) simp_all
  with True show ?thesis by (cases op) (simp_all add: fresh_def conn_stale_def onTimer_def)
next
  case False
  let ?s = "without_op op s"
  note live = live_op_connected [OF assms(1,5) False]
  have cbs: "wk_callbacks ?s = ce_callbacks E" using conn_inv_facts(4) [OF assms(1)] False by simp
  have same: "log_inv ?s" by (rule log_inv_frame [OF assms(2)]) simp_all
  have quiet: "quiet ?s" if "\<not> wk_connected s" using same that by (intro log_inv_quiet) simp_all
  show ?thesis
  proof (cases "\<exists>g. op_generation op = Some g \<and> conn_stale g s")
    case True
    with same show ?thesis by (cases op) (auto simp: fresh_def conn_stale_def)
  next
    case fresh: False
    show ?thesis
    proof (cases op)
      case (OpWrite g)
      have "log_inv (conn_onWrite r g ?s)" by (rule log_inv_frame [OF assms(2)]) simp_all
      with same OpWrite show ?thesis by (simp add: fresh_def)
    next
      case (OpRead g)
      with fresh live have "wk_connected s" by (simp add: conn_stale_def False)
      with same OpRead cbs assms(4) show ?thesis by (auto simp: fresh_def intro!: conn_onRead_log)
    next
      case (OpClose g)
      with fresh live have "wk_connected s" by (simp add: conn_stale_def False)
      with same OpClose cbs assms(4) show ?thesis by (auto simp: fresh_def intro!: onClose_done_log)
    next
      case (OpUpgrade g)
      with fresh live have "\<not> wk_connected s" by (simp add: conn_stale_def False)
      with same OpUpgrade quiet cbs assms(3) show ?thesis by (auto simp: fresh_def intro!: onUpgrade_log)
    next
      case OpTimer
      with live quiet show ?thesis by (auto intro: quiet_log_inv)
    next
      case (OpResolve g)
      with fresh live have "\<not> wk_connected s" by (simp add: conn_stale_def False)
      with same OpResolve quiet show ?thesis by (auto simp: fresh_def intro!: quiet_log_inv quiet_attempt_step)
    next
      case (OpConnect g)
      with fresh live have "\<not> wk_connected s" by (simp add: conn_stale_def False)
      with same OpConnect quiet show ?thesis by (auto simp: fresh_def intro!: quiet_log_inv quiet_attempt_step)
    next
      case (OpTls g)
      with fresh live have "\<not> wk_connected s" by (simp add: conn_stale_def False)
      with same OpTls quiet show ?thesis by (auto simp: fresh_def intro!: quiet_log_inv quiet_attempt_step)
    qed
  qed
qed

lemma doClose_log:
  assumes "conn_inv E s" and "log_inv s"
  shows "log_inv (doClose code s)"
proof (cases "wk_connected s")
  case True
  with conn_inv_facts [OF assms(1)] have "wk_state s \<in> {Open, Closing}" "wk_state s = Closing \<Longrightarrow> wk_stop s" by auto
  with assms(2) show ?thesis
    by (auto simp: doClose_def closeOpen_def start_conn_op_def Let_def log_inv_def)
next
  case False
  then have "quiet s" by (rule log_inv_quiet [OF assms(2)])
  moreover have "wk_state s \<noteq> Open" using conn_inv_facts(1) [OF assms(1)] False by auto
  ultimately have "quiet (doClose code s)" by (simp add: doClose_def Let_def split: conn_state.split)
  then show ?thesis by (rule quiet_log_inv)
qed

lemma conn_next_log:
  assumes "conn_inv E s" and "log_inv s" and "cb_open (ce_callbacks E)" and "cb_close (ce_callbacks E)"
    and "conn_next E s e = Some t"
  shows "log_inv t"
proof (cases e)
  case JobRuns
  with assms(5) obtain j js where j: "wk_posted s = j # js" "t = run_job E j (s\<lparr>wk_posted := js\<rparr>)"
    by (auto split: list.splits)
  have same: "log_inv (s\<lparr>wk_posted := js\<rparr>)" by (rule log_inv_frame [OF assms(2)]) simp_all
  show ?thesis
  proof (cases j)
    case JobStart
    with j(1) assms(1) have "wk_state s = Idle" by (auto simp: conn_inv_def start_ok_def split: if_splits)
    with conn_inv_facts(1) [OF assms(1)] have "quiet (s\<lparr>wk_posted := js\<rparr>)"
      using same by (intro log_inv_quiet) simp_all
    with j(2) JobStart show ?thesis by (simp add: quiet_log_inv)
  next
    case (JobSend m gen)
    have "log_inv (job_send m gen (s\<lparr>wk_posted := js\<rparr>))" by (rule log_inv_frame [OF assms(2)]) simp_all
    with j(2) JobSend show ?thesis by simp
  next
    case (JobClose code)
    then have "conn_inv E (s\<lparr>wk_posted := js\<rparr>)" using job_popped_inv [OF assms(1) j(1)] by simp
    from doClose_log [OF this same] j(2) JobClose show ?thesis by simp
  qed
next
  case (Completes op r)
  with assms(5) have "op \<in> set (wk_ops s)" "t = complete_op E r op (without_op op s)" by (auto split: if_splits)
  with complete_op_log [OF assms(1-4)] show ?thesis by simp
qed (rule log_inv_frame [OF assms(2)], use off_strand_frame [OF assms(5)] in simp_all)+

interpretation ws_conn_log: invariant_system "conn_starts E" "conn_step E"
    "\<lambda>s. conn_inv E s \<and> (cb_open (ce_callbacks E) \<and> cb_close (ce_callbacks E) \<longrightarrow> log_inv s)" for E :: conn_env
proof unfold_locales
  fix s t :: ws_conn and e
  show "conn_starts E s \<Longrightarrow> conn_inv E s \<and> (cb_open (ce_callbacks E) \<and> cb_close (ce_callbacks E) \<longrightarrow> log_inv s)"
    using WsConnection_inv [of E] by (simp add: conn_starts_def log_inv_def) (simp add: WsConnection_def)
  assume inv: "conn_inv E s \<and> (cb_open (ce_callbacks E) \<and> cb_close (ce_callbacks E) \<longrightarrow> log_inv s)"
    and "conn_step E s e t"
  then have step: "conn_next E s e = Some t" by (simp add: conn_step_def)
  show "conn_inv E t \<and> (cb_open (ce_callbacks E) \<and> cb_close (ce_callbacks E) \<longrightarrow> log_inv t)"
    using inv conn_next_inv [OF _ step] conn_next_log [OF _ _ _ _ step] by blast
qed

section \<open>After close\<close>

fun is_reconnecting :: "conn_call \<Rightarrow> bool" where
  "is_reconnecting (CallReconnecting n d) = True"
| "is_reconnecting c = False"

text \<open>The connection goes on without another attempt.\<close>

definition winds_down :: "ws_conn \<Rightarrow> ws_conn \<Rightarrow> bool" where
  "winds_down s t \<longleftrightarrow> wk_stop t \<and> wk_generation t = wk_generation s \<and> wk_state t \<noteq> WaitingRetry
     \<and> (\<exists>cs. wk_log t = wk_log s @ cs \<and> (\<forall>c \<in> set cs. \<not> is_reconnecting c))"

lemma winds_down_same:
  "wk_stop t \<Longrightarrow> wk_generation t = wk_generation s \<Longrightarrow> wk_state t \<noteq> WaitingRetry \<Longrightarrow> wk_log t = wk_log s
     \<Longrightarrow> winds_down s t"
  by (simp add: winds_down_def)

lemma winds_down_stop:
  "wk_stop s \<Longrightarrow> winds_down u s \<Longrightarrow> winds_down u (conn_stop s)"
  by (simp add: winds_down_def conn_stop_def)

lemma winds_down_emit:
  "winds_down u s \<Longrightarrow> \<not> is_reconnecting c \<Longrightarrow> winds_down u (emit_if h c s)"
  by (auto simp: winds_down_def emit_if_def)

lemma winds_down_closed:
  assumes "winds_down u s"
  shows "winds_down u (closed_conn E j code s)"
proof -
  have stop: "wk_stop s" using assms by (simp add: winds_down_def)
  have "winds_down u (s\<lparr>wk_connected := False, wk_pending := p, wk_lost := l, wk_queue := []\<rparr>)" for p l
    using assms by (simp add: winds_down_def)
  then show ?thesis
    using stop by (simp add: closed_conn_def Let_def emit_defs winds_down_stop winds_down_emit)
qed

lemma winds_down_complete:
  assumes "wk_stop s" and "wk_state s \<notin> {Idle, Open, WaitingRetry}"
  shows "winds_down s (complete_op E r op (without_op op s))"
proof -
  let ?s = "without_op op s"
  have same: "winds_down s ?s" using assms by (simp add: winds_down_def)
  have stop: "wk_stop ?s" using assms by simp
  have failed: "winds_down s (attemptFailed E j ec ?s)" for j ec
    using winds_down_stop [OF stop same] stop by (simp add: attemptFailed_def)
  have start: "winds_down s (start_conn_op op' ?s)" "winds_down s (start_conn_op op' (?s\<lparr>wk_stream_closed := b\<rparr>))" for op' b
    using same by (simp_all add: winds_down_def start_conn_op_def)
  have done_flags: "winds_down s (?s\<lparr>wk_read_done := True\<rparr>)" "winds_down s (?s\<lparr>wk_close_done := True, wk_close_failed := b\<rparr>)" for b
    using same by (simp_all add: winds_down_def)
  show ?thesis
  proof (cases op)
    case (OpRead g)
    have "winds_down s (conn_read g (emit_message m ?s))" for m
      using winds_down_emit [OF same, of "CallMessage m" cb_message]
      by (simp add: winds_down_def conn_read_def start_conn_op_def emit_defs)
    with OpRead same stop done_flags show ?thesis
      by (simp add: fresh_def conn_onRead_def ended_def finishOwnClose_def Let_def winds_down_closed split: option.split)
  next
    case (OpUpgrade g)
    have opened: "winds_down s (closeOpen 1000 (conn_read g (emitOpen
        (?s\<lparr>wk_protocol := p, wk_status := n, wk_failures := f, wk_state := Open, wk_connected := True\<rparr>))))" for p n f
      using assms by (auto simp: winds_down_def closeOpen_def conn_read_def start_conn_op_def emit_defs emit_if_def)
    have "winds_down s (conn_stop (?s\<lparr>wk_status := n\<rparr>))" for n
      using assms by (simp add: winds_down_def conn_stop_def)
    with OpUpgrade same stop opened failed show ?thesis
      by (simp add: fresh_def onUpgrade_def Let_def split: option.split)
  next
    case (OpWrite g)
    then show ?thesis using assms by (auto simp: fresh_def intro!: winds_down_same)
  next
    case (OpClose g)
    with same done_flags show ?thesis
      by (simp add: fresh_def onClose_done_def finishOwnClose_def Let_def winds_down_closed)
  next
    case OpTimer
    then show ?thesis using same assms by (simp add: onTimer_def)
  qed (use same failed start in \<open>simp_all add: fresh_def on_attempt_step_def conn_onResolve_def conn_onConnect_def
      conn_upgrade_def split: option.split\<close>)
qed

lemma winds_down_step:
  assumes "conn_inv E s" and "wk_stop s" and "conn_next E s e = Some t"
  shows "winds_down s t"
proof (cases "off_strand e")
  case True
  note frame = off_strand_frame [OF assms(3) True] and st = conn_inv_facts(3) [OF assms(1,2)]
  show ?thesis by (rule winds_down_same) (use frame st assms(2) in simp_all)
next
  case False
  have st: "wk_state s \<notin> {Idle, Open, WaitingRetry}" by (rule conn_inv_facts(3) [OF assms(1,2)])
  show ?thesis
  proof (cases e)
    case JobRuns
    with assms(3) obtain j js where j: "wk_posted s = j # js" "t = run_job E j (s\<lparr>wk_posted := js\<rparr>)"
      by (auto split: list.splits)
    from st have "j \<noteq> JobStart" using assms(1) j(1) by (auto simp: conn_inv_def start_ok_def)
    with j st assms(2) show ?thesis
      by (cases j) (auto intro!: winds_down_same simp: doClose_def)
  next
    case (Completes op r)
    with assms(3) have "t = complete_op E r op (without_op op s)" by (auto split: if_splits)
    with winds_down_complete [OF assms(2) st] show ?thesis by simp
  qed (use False in simp_all)
qed

section \<open>The code asked for\<close>

text \<open>Only \<open>closeOpen\<close> sets the code, and once a close was asked for, only with 1000.\<close>

lemma requested_handlers [simp]:
  "wk_requested (conn_stop s) = wk_requested s" "wk_requested (attempt s) = wk_requested s"
  "wk_requested (scheduleRetry E j s) = wk_requested s" "wk_requested (attemptFailed E j ec s) = wk_requested s"
  "wk_requested (start_conn_op op s) = wk_requested s" "wk_requested (closed_conn E j code s) = wk_requested s"
  "wk_requested (conn_onWrite r g s) = wk_requested s" "wk_requested (job_send m g s) = wk_requested s"
  "wk_requested (conn_start E s) = wk_requested s"
  by (simp_all add: conn_handler_defs split: option.split sum.split)

lemma complete_op_requested:
  "wk_requested s = 1000 \<Longrightarrow> wk_requested (complete_op E r op s) = 1000"
  by (cases op)
    (simp_all add: fresh_def on_attempt_step_def conn_onResolve_def conn_onConnect_def conn_upgrade_def onUpgrade_def
      closeOpen_def conn_onRead_def conn_read_def ended_def finishOwnClose_def onClose_done_def onTimer_def emit_defs
      Let_def split: option.split)

lemma stop_handlers [simp]:
  "wk_stop (conn_stop s) = wk_stop s" "wk_stop (attempt s) = wk_stop s"
  "wk_stop (scheduleRetry E j s) = wk_stop s" "wk_stop (attemptFailed E j ec s) = wk_stop s"
  "wk_stop (start_conn_op op s) = wk_stop s" "wk_stop (closed_conn E j code s) = wk_stop s"
  "wk_stop (conn_start E s) = wk_stop s"
  by (simp_all add: conn_handler_defs split: option.split sum.split)

lemma complete_op_stop [simp]: "wk_stop (complete_op E r op s) = wk_stop s"
  by (cases op)
    (simp_all add: fresh_def on_attempt_step_def conn_onResolve_def conn_onConnect_def conn_upgrade_def onUpgrade_def
      closeOpen_def conn_onRead_def conn_read_def ended_def finishOwnClose_def onClose_done_def onTimer_def emit_defs
      Let_def split: option.split)

definition requested_inv :: "ws_conn \<Rightarrow> bool" where
  "requested_inv s \<longleftrightarrow> (\<not> wk_stop s \<longrightarrow> wk_requested s = 1000)"

lemma stop_next:
  assumes "wk_stop s" and "conn_next E s e = Some t"
  shows "wk_stop t"
proof (cases e)
  case JobRuns
  with assms(2) obtain j js where "t = run_job E j (s\<lparr>wk_posted := js\<rparr>)" by (auto split: list.splits)
  with assms(1) show ?thesis by (cases j) (auto simp: doClose_def)
next
  case (Completes op r)
  with assms(2) have "t = complete_op E r op (without_op op s)" by (auto split: if_splits)
  with assms(1) show ?thesis by simp
qed (use assms in \<open>auto simp: Let_def split: if_splits\<close>)

lemma requested_next:
  assumes "wk_requested s = 1000" and "conn_next E s e = Some t"
  shows "wk_requested t = 1000 \<or> \<not> wk_stop s \<and> wk_stop t"
proof (cases e)
  case JobRuns
  with assms(2) obtain j js where "t = run_job E j (s\<lparr>wk_posted := js\<rparr>)" by (auto split: list.splits)
  with assms(1) show ?thesis
    by (cases j) (auto simp: doClose_def closeOpen_def Let_def split: conn_state.split)
next
  case (Completes op r)
  with assms(2) have "t = complete_op E r op (without_op op s)" by (auto split: if_splits)
  with assms(1) show ?thesis by (simp add: complete_op_requested)
qed (use assms in \<open>auto simp: Let_def split: if_splits\<close>)

lemma exec_keeps_requested:
  "exec (conn_next E) s es = Some u \<Longrightarrow> wk_stop s \<and> wk_requested s = 1000 \<Longrightarrow> wk_stop u \<and> wk_requested u = 1000"
  by (induction es arbitrary: s)
    (auto simp del: conn_next.simps split: option.splits dest: requested_next stop_next)

interpretation ws_conn_requested: invariant_system "conn_starts E" "conn_step E" requested_inv for E :: conn_env
proof unfold_locales
  fix s t :: ws_conn and e
  show "conn_starts E s \<Longrightarrow> requested_inv s" by (simp add: conn_starts_def requested_inv_def WsConnection_def)
  assume "requested_inv s" and "conn_step E s e t"
  then show "requested_inv t"
    using requested_next [of s E e t] stop_next [of s E e t]
    by (auto simp: requested_inv_def conn_step_def simp del: conn_next.simps)
qed

lemma requested_normal: "conn_reachable E s \<Longrightarrow> \<not> wk_stop s \<Longrightarrow> wk_requested s = 1000"
  using ws_conn_requested.reachable_inv [of E s] by (simp add: conn_reachable_def requested_inv_def)

section \<open>Retries in a row\<close>

fun count_retry :: "nat \<Rightarrow> conn_call \<Rightarrow> nat" where
  "count_retry n CallOpen = 0"
| "count_retry n (CallReconnecting k d) = Suc n"
| "count_retry n c = n"

definition retries :: "conn_call list \<Rightarrow> nat" where
  "retries calls = foldl count_retry 0 calls"

lemma retries_simps [simp]: "retries [] = 0" "retries (cs @ [c]) = count_retry (retries cs) c"
  by (simp_all add: retries_def)

definition retry_view :: "ws_conn \<Rightarrow> 32 word \<times> nat" where
  "retry_view s = (wk_failures s, retries (wk_log s))"

definition limited :: "conn_env \<Rightarrow> bool" where
  "limited E \<longleftrightarrow> 0 < max_attempts (ce_reconnect E) \<and> max_attempts (ce_reconnect E) < - 1
     \<and> cb_open (ce_callbacks E) \<and> cb_reconnecting (ce_callbacks E)"

definition retry_inv :: "conn_env \<Rightarrow> ws_conn \<Rightarrow> bool" where
  "retry_inv E s \<longleftrightarrow> retries (wk_log s) \<le> unat (max_attempts (ce_reconnect E))
     \<and> (wk_state s \<noteq> Stopped \<longrightarrow> unat (wk_failures s) = retries (wk_log s))"

text \<open>The same without looking at the state.\<close>

definition retry_live :: "conn_env \<Rightarrow> ws_conn \<Rightarrow> bool" where
  "retry_live E s \<longleftrightarrow> retries (wk_log s) \<le> unat (max_attempts (ce_reconnect E))
     \<and> unat (wk_failures s) = retries (wk_log s)"

lemma retry_live_inv: "retry_live E s \<Longrightarrow> retry_inv E s"
  by (simp add: retry_live_def retry_inv_def)

lemma retry_live_view: "retry_view t = retry_view s \<Longrightarrow> retry_live E t = retry_live E s"
  by (simp add: retry_view_def retry_live_def)

lemma retry_view_same [simp]:
  "retry_view (start_conn_op op s) = retry_view s" "retry_view (emitError_code ec s) = retry_view s"
  "retry_view (emitClose_code code s) = retry_view s" "retry_view (emit_message m s) = retry_view s"
  "retry_view (conn_onWrite r g s) = retry_view s" "retry_view (job_send m g s) = retry_view s"
  "retry_view (conn_stop s) = retry_view s" "retry_view (attempt s) = retry_view s"
  "retry_view (s\<lparr>wk_ops := ops\<rparr>) = retry_view s" "retry_view (s\<lparr>wk_posted := js\<rparr>) = retry_view s"
  "retry_view (s\<lparr>wk_status := n\<rparr>) = retry_view s" "retry_view (s\<lparr>wk_target := tg\<rparr>) = retry_view s"
  "retry_view (s\<lparr>wk_read_done := b\<rparr>) = retry_view s" "retry_view (s\<lparr>wk_stream_closed := b\<rparr>) = retry_view s"
  "retry_view (s\<lparr>wk_close_done := b, wk_close_failed := d\<rparr>) = retry_view s"
  "retry_view (s\<lparr>wk_connected := b, wk_pending := n, wk_lost := l, wk_queue := q\<rparr>) = retry_view s"
  "retry_view (doClose code s) = retry_view s" "retry_view (conn_start E s) = retry_view s"
  by (simp_all add: retry_view_def conn_handler_defs split: conn_state.split sum.split)

lemma scheduleRetry_retries:
  assumes "limited E" and "retry_live E s" and "wk_callbacks s = ce_callbacks E"
  shows "retry_inv E (scheduleRetry E j s)"
proof -
  let ?m = "max_attempts (ce_reconnect E)"
  have "unat (wk_failures s) < unat (- 1 :: 32 word)"
    using assms(1,2) by (simp add: limited_def retry_live_def word_less_nat_alt)
  then have "1 + wk_failures s \<noteq> 0" by (metis add.commute eq_neg_iff_add_eq_0 less_irrefl)
  from unatSuc [OF this] have next_failure: "unat (wk_failures s + 1) = Suc (retries (wk_log s))"
    using assms(2) by (simp add: retry_live_def add.commute)
  have stopped: "retry_inv E (conn_stop u)" if "retry_view u = (f, retries (wk_log s))" for u f
    using that assms(2) by (simp add: retry_inv_def retry_live_def conn_stop_def retry_view_def)
  have "retry_view (s\<lparr>wk_failures := f\<rparr>) = (f, retries (wk_log s))" for f by (simp add: retry_view_def)
  then have give_up: "retry_inv E (conn_stop (emitError_code e (s\<lparr>wk_failures := f\<rparr>)))" for e f
    by (intro stopped) simp
  have "retry_live E (start_conn_op OpTimer (emitReconnecting n d (s\<lparr>wk_failures := wk_failures s + 1, wk_state := WaitingRetry\<rparr>)))"
    if "\<not> wk_failures s + 1 > ?m" for n d
    using that next_failure assms(1,3)
    by (simp add: retry_live_def start_conn_op_def emit_defs emit_if_def limited_def word_less_nat_alt)
  then show ?thesis
    using give_up stopped [of s] assms(1)
    by (auto simp: scheduleRetry_def Let_def limited_def retry_view_def intro: retry_live_inv)
qed

lemma retry_inv_handlers:
  assumes "limited E" and "retry_live E s" and "wk_callbacks s = ce_callbacks E"
  shows "retry_inv E (attemptFailed E j ec s)" and "retry_inv E (closed_conn E j code s)"
    and "retry_inv E (onUpgrade E r g s)"
proof -
  have stops: "retry_inv E (conn_stop u)" if "retry_view u = retry_view s" for u
    using that assms(2) retry_live_view [of "conn_stop u" s E] by (simp add: retry_live_inv)
  have retry: "retry_inv E (scheduleRetry E j u)" if "retry_view u = retry_view s" "wk_callbacks u = wk_callbacks s" for u j
    using that assms retry_live_view [of u s E] by (intro scheduleRetry_retries) simp_all
  show failed: "retry_inv E (attemptFailed E j ec s)" for j ec
    by (simp add: attemptFailed_def stops retry) (simp add: emit_defs retry emit_if_def retry_view_def)
  show "retry_inv E (closed_conn E j code s)"
    using stops [of "emitClose_code code (s\<lparr>wk_connected := False, wk_pending := wk_pending s - length (wk_queue s),
        wk_lost := wk_lost s @ wk_queue s, wk_queue := []\<rparr>)"]
      retry [of "emitClose_code code (s\<lparr>wk_connected := False, wk_pending := wk_pending s - length (wk_queue s),
        wk_lost := wk_lost s @ wk_queue s, wk_queue := []\<rparr>)"]
    by (simp add: closed_conn_def Let_def) (simp add: emit_defs)
  have opened: "retry_inv E (if wk_stop s then closeOpen 1000 v else v)"
    if "v = conn_read g (emitOpen (s\<lparr>wk_protocol := p, wk_status := 0, wk_failures := 0, wk_state := Open, wk_connected := True\<rparr>))"
    for p v
    using that assms(1,3)
    by (intro retry_live_inv) (simp add: retry_live_def closeOpen_def conn_read_def start_conn_op_def emit_defs emit_if_def limited_def)
  show "retry_inv E (onUpgrade E r g s)"
    using opened failed stops [of "s\<lparr>wk_status := n\<rparr>" for n] stops [of "emitError_code e (s\<lparr>wk_status := n\<rparr>)" for e n]
    by (simp add: onUpgrade_def Let_def split: option.split)
qed

lemma retry_inv_complete:
  assumes "limited E" and "conn_inv E s" and "retry_inv E s"
  shows "retry_inv E (complete_op E r op (without_op op s))"
proof (cases "wk_state s = Stopped")
  case True
  with assms(3) show ?thesis
    by (cases op) (simp_all add: fresh_def conn_stale_def onTimer_def retry_inv_def)
next
  case False
  let ?s = "without_op op s"
  have live: "retry_live E ?s" using assms(3) False by (simp add: retry_inv_def retry_live_def)
  have cbs: "wk_callbacks ?s = ce_callbacks E" using conn_inv_facts(4) [OF assms(2)] False by simp
  have keep: "retry_inv E u" if "retry_view u = retry_view ?s" for u
    using that live retry_live_view [of u ?s E] by (simp add: retry_live_inv)
  have ops: "retry_view (u\<lparr>wk_ops := ops\<rparr>) = retry_view u" for u ops by simp
  note handlers = retry_inv_handlers [OF assms(1) live cbs]
  have ended: "retry_inv E (closed_conn E j code (emitError_code ec ?s))"
    "retry_inv E (closed_conn E j code (?s\<lparr>wk_read_done := b\<rparr>))"
    "retry_inv E (closed_conn E j code (?s\<lparr>wk_close_done := b, wk_close_failed := c\<rparr>))" for j code ec b c
    using live cbs by (auto intro!: retry_inv_handlers(2) [OF assms(1)] simp: retry_live_def emit_defs emit_if_def)
  show ?thesis
    using handlers ended keep [of "?s"] keep [of "start_conn_op op' ?s" for op']
      keep [of "start_conn_op op' (?s\<lparr>wk_stream_closed := b\<rparr>)" for op' b] keep [of "?s\<lparr>wk_read_done := b\<rparr>" for b]
      keep [of "?s\<lparr>wk_close_done := b, wk_close_failed := c\<rparr>" for b c] keep [of "attempt ?s"]
      keep [of "conn_onWrite r g ?s" for g] keep [of "start_conn_op op' (emit_message m ?s)" for op' m]
    by (cases op)
      (auto simp: fresh_def on_attempt_step_def conn_onResolve_def conn_upgrade_def conn_onConnect_def onTimer_def
        conn_onRead_def ended_def onClose_done_def finishOwnClose_def conn_read_def Let_def split: option.split)
qed

lemma retry_inv_frame:
  "retry_inv E s \<Longrightarrow> retry_view t = retry_view s \<Longrightarrow> wk_state t = wk_state s \<Longrightarrow> retry_inv E t"
  by (simp add: retry_inv_def retry_view_def)

lemma retry_inv_view_live:
  "retry_inv E s \<Longrightarrow> retry_view t = retry_view s \<Longrightarrow> wk_state s \<noteq> Stopped \<Longrightarrow> retry_inv E t"
  by (simp add: retry_inv_def retry_view_def)

lemma retry_inv_next:
  assumes "limited E" and "conn_inv E s" and "retry_inv E s" and "conn_next E s e = Some t"
  shows "retry_inv E t"
proof (cases e)
  case JobRuns
  with assms(4) obtain j js where j: "wk_posted s = j # js" "t = run_job E j (s\<lparr>wk_posted := js\<rparr>)"
    by (auto split: list.splits)
  then have "retry_view t = retry_view s" by (cases j) simp_all
  moreover have "wk_state t = wk_state s" if stopped: "wk_state s = Stopped"
  proof -
    have "j \<noteq> JobStart" using assms(2) j(1) stopped by (auto simp: conn_inv_def start_ok_def)
    with j(2) stopped show ?thesis by (cases j) (simp_all add: doClose_def)
  qed
  ultimately show ?thesis using retry_inv_frame [OF assms(3)] retry_inv_view_live [OF assms(3)] by blast
next
  case (Completes op r)
  with assms(4) have "t = complete_op E r op (without_op op s)" by (auto split: if_splits)
  with retry_inv_complete [OF assms(1-3)] show ?thesis by simp
qed (rule retry_inv_frame [OF assms(3)], use off_strand_frame [OF assms(4)] in \<open>simp_all add: retry_view_def\<close>)+

interpretation ws_conn_retries: invariant_system "conn_starts E" "conn_step E"
    "\<lambda>s. conn_inv E s \<and> (limited E \<longrightarrow> retry_inv E s)" for E :: conn_env
proof unfold_locales
  fix s t :: ws_conn and e
  show "conn_starts E s \<Longrightarrow> conn_inv E s \<and> (limited E \<longrightarrow> retry_inv E s)"
    using WsConnection_inv [of E] by (simp add: conn_starts_def retry_inv_def) (simp add: WsConnection_def)
  assume inv: "conn_inv E s \<and> (limited E \<longrightarrow> retry_inv E s)" and "conn_step E s e t"
  then have step: "conn_next E s e = Some t" by (simp add: conn_step_def)
  show "conn_inv E t \<and> (limited E \<longrightarrow> retry_inv E t)"
    using inv conn_next_inv [OF _ step] retry_inv_next [OF _ _ _ step] by blast
qed

section \<open>Delays are bounded\<close>

lemma double_delay_closed:
  assumes "0 \<le> delay"
  shows "min (double_delay limit n delay) limit = min (delay * 2 ^ n) limit"
  using assms
proof (induction n arbitrary: delay)
  case (Suc n)
  have "delay * 1 \<le> delay * 2 ^ Suc n" using Suc.prems by (intro mult_left_mono one_le_power) auto
  with Suc.IH [of "delay * 2"] Suc.prems show ?case by (simp add: mult.assoc)
qed simp

lemma delay_before_jitter_closed:
  "0 \<le> initial_delay r \<Longrightarrow>
     delay_before_jitter r n = min (initial_delay r * 2 ^ (n - 1)) (max_delay r)"
  by (simp add: delay_before_jitter_def double_delay_closed)

lemma trunc_rat_bounds: "0 \<le> q \<Longrightarrow> q - 1 < of_int (trunc_rat q) \<and> of_int (trunc_rat q) \<le> q"
  unfolding trunc_rat_def by (simp, linarith)

section \<open>Connections for closed examples\<close>

lemma conn_exec_reachable:
  assumes "exec (conn_next E) (WsConnection E) es = Some t"
  shows "conn_reachable E t"
  unfolding conn_reachable_def
  by (rule exec_reachable [OF assms]) (auto simp: conn_step_def conn_starts_def intro: reachable_init)

definition ws_urls :: url_lib where
  "ws_urls url = (if url = ''ws://h/'' then Some ((example_url ''h'' None ''/'' None)
     \<lparr>up_scheme := ''ws'', up_scheme_id := SchemeWs\<rparr>) else None)"

definition example_conn_env :: conn_env where
  "example_conn_env =
     \<lparr>ce_urls = ws_urls, ce_url = ''ws://h/'',
      ce_reconnect = Reconnect_init\<lparr>rc_enabled := True, max_attempts := 2\<rparr>, ce_limit = 2,
      ce_callbacks = \<lparr>cb_open = True, cb_message = True, cb_close = True, cb_error = True, cb_reconnecting = True\<rparr>\<rparr>"

definition ok_result :: io_result where
  "ok_result = \<lparr>io_error = None, io_reason = 1000, io_status = 101, io_protocol = [], io_sni_ok = True,
     io_jitter = 1, io_message = (''hi'', True)\<rparr>"

definition failed_result :: "ws_error \<Rightarrow> io_result" where
  "failed_result ec = ok_result\<lparr>io_error := Some ec\<rparr>"

text \<open>A first attempt that fails, a retry that opens, two messages queued and one of them written.\<close>

definition opening_events :: "conn_event list" where
  "opening_events =
     [JobRuns, Completes (OpResolve 1) ok_result, Completes (OpConnect 1) (failed_result (NetError 111)),
      Completes OpTimer ok_result, Completes (OpResolve 2) ok_result, Completes (OpConnect 2) ok_result,
      Completes (OpUpgrade 2) ok_result]"

definition sending_events :: "conn_event list" where
  "sending_events =
     [SendCalled (''a'', True), SendCalled (''b'', True), SendCalled (''c'', True), ReserveSlot (''a'', True),
      ReserveSlot (''b'', True), ReserveSlot (''c'', True), SendPosted (''a'', True), SendPosted (''b'', True),
      JobRuns, JobRuns, Completes (OpRead 2) ok_result, Completes (OpWrite 2) ok_result]"

definition open_conn :: ws_conn where
  "open_conn =
     (WsConnection example_conn_env)
       \<lparr>wk_state := Open, wk_generation := 2, wk_ops := [OpRead 2, OpWrite 2], wk_queue := [(''b'', True)],
        wk_pending := 1, wk_connected := True, wk_posted := [],
        wk_target := Some \<lparr>tg_tls = False, tg_host = ''h'', tg_port = ''80'', tg_host_header = ''h'',
          tg_target = ''/'', tg_key = ''ws://h:80''\<rparr>,
        wk_log := [CallError (NetError 111), CallReconnecting 1 500, CallOpen, CallMessage (''hi'', True)],
        wk_accepted := [(''a'', True), (''b'', True)], wk_written := [(''a'', True)]\<rparr>"

lemma open_conn_exec:
  "exec (conn_next example_conn_env) (WsConnection example_conn_env) (opening_events @ sending_events) = Some open_conn"
  by code_simp

lemma open_conn_reachable: "conn_reachable example_conn_env open_conn"
  by (rule conn_exec_reachable [OF open_conn_exec])

section \<open>Properties\<close>

text \<open>C6: An application with both callbacks set sees a legal history, whatever completes in whatever order:
  onOpen and onClose alternate, messages come only while the connection is open, retries are announced only while it
  is not, and \<^verbatim>\<open>isConnected\<close> says whether the last opening was closed.\<close>

theorem client_events_alternate:
  assumes "conn_reachable E s" and "cb_open (ce_callbacks E)" and "cb_close (ce_callbacks E)"
  shows "open_after (wk_log s) = Some (wk_connected s)"
  using ws_conn_log.reachable_inv [of E s] assms by (simp add: conn_reachable_def log_inv_def)

theorem client_events_alternate_witness:
  "open_after (wk_log open_conn) = Some (wk_connected open_conn)"
  by (rule client_events_alternate [OF open_conn_reachable]) (simp_all add: example_conn_env_def)

text \<open>C26: The send queue is bounded and its counter exact, with any number of sending threads: every
  reserved place belongs to a message in the queue, on its way to the strand, or about to be posted,
  and there are never more than the limit.\<close>

theorem client_pending_exact:
  assumes "conn_reachable E s"
  shows "wk_pending s = length (wk_queue s) + length (filter is_send_job (wk_posted s)) + length (wk_posting s)
    \<and> wk_pending s \<le> ce_limit E"
  using ws_conn_pending.reachable_inv [of E s] assms by (simp add: conn_reachable_def pending_inv_def)

theorem client_pending_exact_witness:
  "wk_pending open_conn = length (wk_queue open_conn) + length (filter is_send_job (wk_posted open_conn))
     + length (wk_posting open_conn) \<and> wk_pending open_conn \<le> 2"
  using client_pending_exact [OF open_conn_reachable] by (simp add: example_conn_env_def)

text \<open>Across reconnects, messages are written in the order the strand accepted them, none twice; the
  ones not written are still queued or were dropped when their connection ended.\<close>

theorem client_messages_in_order:
  assumes "conn_reachable E s"
  shows "subseq (wk_written s @ wk_queue s) (wk_accepted s)
    \<and> mset (wk_accepted s) = mset (wk_written s) + mset (wk_queue s) + mset (wk_lost s)
    \<and> (wk_lost s = [] \<longrightarrow> wk_accepted s = wk_written s @ wk_queue s)
    \<and> (\<not> wk_connected s \<longrightarrow> wk_queue s = [])"
  using assms client_queue.in_order client_queue.conserved client_queue.nothing_lost
    conn_inv_facts(5) [OF conn_reachable_inv [OF assms]]
  unfolding conn_reachable_def by blast

theorem client_messages_in_order_witness:
  "subseq (wk_written open_conn @ wk_queue open_conn) (wk_accepted open_conn)
     \<and> wk_accepted open_conn = wk_written open_conn @ wk_queue open_conn"
proof -
  have "wk_lost open_conn = []" by (simp add: open_conn_def WsConnection_def)
  with client_messages_in_order [OF open_conn_reachable] show ?thesis by blast
qed

text \<open>C20: Close is final: once it ran, no step starts another attempt, announces or waits for a retry,
  and the request stays.\<close>

theorem client_close_is_final:
  assumes "conn_reachable E s" and "wk_stop s" and "conn_step E s e t"
  shows "wk_stop t \<and> wk_generation t = wk_generation s \<and> wk_state t \<noteq> WaitingRetry
    \<and> (\<exists>cs. wk_log t = wk_log s @ cs \<and> (\<forall>c \<in> set cs. \<not> is_reconnecting c))"
  using winds_down_step [OF conn_reachable_inv [OF assms(1)] assms(2)] assms(3)
  by (simp add: conn_step_def winds_down_def)

definition closing_conn :: ws_conn where
  "closing_conn = open_conn\<lparr>wk_stop := True, wk_state := Closing, wk_requested := 1001,
     wk_ops := [OpRead 2, OpWrite 2, OpClose 2]\<rparr>"

lemma closing_conn_reachable: "conn_reachable example_conn_env closing_conn"
proof (rule conn_exec_reachable)
  show "exec (conn_next example_conn_env) (WsConnection example_conn_env)
      (opening_events @ sending_events @ [CloseCalled 1001, JobRuns]) = Some closing_conn"
    by code_simp
qed

theorem client_close_is_final_witness:
  "\<exists>t. conn_next example_conn_env closing_conn (Completes (OpRead 2) (failed_result (NetError 104))) = Some t
     \<and> wk_generation t = 2 \<and> wk_state t \<noteq> WaitingRetry"
proof -
  have stop: "wk_stop closing_conn" "wk_generation closing_conn = 2" by (simp_all add: closing_conn_def open_conn_def)
  have ready: "OpRead 2 \<in> set (wk_ops closing_conn)" "jitter_ok (io_jitter (failed_result (NetError 104)))"
    "cut_result_ok closing_conn (OpRead 2) (failed_result (NetError 104))"
    by (simp_all add: closing_conn_def failed_result_def ok_result_def jitter_ok_def cut_result_ok_def)
  then obtain t where step: "conn_step example_conn_env closing_conn
      (Completes (OpRead 2) (failed_result (NetError 104))) t"
    by (simp add: conn_step_def)
  with client_close_is_final [OF closing_conn_reachable stop(1) step] stop(2) show ?thesis
    by (auto simp: conn_step_def)
qed

text \<open>C35: A connection is never stuck: until it stopped, its first job is still posted, or an operation
  other than a write is pending that its handler will not discard, the retry timer included.\<close>

theorem client_never_stuck:
  assumes "conn_reachable E s" and "wk_state s \<noteq> Stopped"
  shows "wk_state s = Idle \<and> JobStart \<in> set (wk_posted s)
    \<or> wk_state s = WaitingRetry \<and> OpTimer \<in> set (wk_ops s)
    \<or> (\<exists>k \<in> {OpResolve, OpConnect, OpTls, OpUpgrade, OpRead, OpClose}. k (wk_generation s) \<in> set (wk_ops s))"
proof -
  have inv: "ops_ok s" "start_ok s" using conn_reachable_inv [OF assms(1)] by (simp_all add: conn_inv_def)
  have member: "op \<in> set (wk_ops s) \<longleftrightarrow> count_list (wk_ops s) op \<noteq> 0" for op by (simp add: count_list_0_iff)
  show ?thesis
    using inv assms(2) unfolding member
    by (cases "wk_state s") (auto simp: ops_ok_def start_ok_def attempt_kinds)
qed

theorem client_never_stuck_witness:
  "\<exists>k \<in> {OpResolve, OpConnect, OpTls, OpUpgrade, OpRead, OpClose}. k (wk_generation open_conn) \<in> set (wk_ops open_conn)"
proof -
  have "wk_state open_conn = Open" by (simp add: open_conn_def)
  with client_never_stuck [OF open_conn_reachable] show ?thesis by simp
qed

text \<open>With a limit below the largest unsigned, retries without an opening in between never exceed it,
  and the counter of failures is their number.\<close>

theorem client_retries_bounded:
  assumes "conn_reachable E s" and "0 < max_attempts (ce_reconnect E)" and "max_attempts (ce_reconnect E) < - 1"
    and "cb_open (ce_callbacks E)" and "cb_reconnecting (ce_callbacks E)"
  shows "retries (wk_log s) \<le> unat (max_attempts (ce_reconnect E))
    \<and> (wk_state s \<noteq> Stopped \<longrightarrow> unat (wk_failures s) = retries (wk_log s))"
  using ws_conn_retries.reachable_inv [of E s] assms by (simp add: conn_reachable_def limited_def retry_inv_def)

theorem client_retries_bounded_witness:
  "retries (wk_log open_conn) \<le> unat (2 :: 32 word)"
proof -
  have "(0 :: 32 word) < 2" "(2 :: 32 word) < - 1" by code_simp+
  with client_retries_bounded [OF open_conn_reachable] show ?thesis
    by (simp add: example_conn_env_def Reconnect_init_def)
qed

text \<open>The delay before retry \<^verbatim>\<open>n\<close> is the initial delay doubled \<open>n - 1\<close> times and capped,
  give or take a fifth (and the fraction of a millisecond the cast drops).\<close>

theorem retry_delay_bounds:
  assumes "jitter_ok jitter" and "0 \<le> initial_delay r" and "0 \<le> max_delay r"
  shows "8/10 * of_int (min (initial_delay r * 2 ^ (n - 1)) (max_delay r)) - 1 < (of_int (retryDelay r n jitter) :: rat)
    \<and> of_int (retryDelay r n jitter) \<le> (12/10 * of_int (min (initial_delay r * 2 ^ (n - 1)) (max_delay r)) :: rat)"
proof -
  let ?b = "min (initial_delay r * 2 ^ (n - 1)) (max_delay r)" and ?q = "of_int (delay_before_jitter r n) * jitter"
  have b: "delay_before_jitter r n = ?b" by (rule delay_before_jitter_closed [OF assms(2)])
  have pos: "0 \<le> (of_int ?b :: rat)" using assms(2,3) by simp
  have j: "8/10 \<le> jitter" "jitter \<le> 12/10" using assms(1) by (auto simp: jitter_ok_def)
  have q: "8/10 * of_int ?b \<le> ?q" "?q \<le> 12/10 * of_int ?b"
    using mult_right_mono [OF j(1) pos] mult_right_mono [OF j(2) pos] by (simp_all add: b mult.commute)
  moreover have "0 \<le> ?q" using q(1) pos by linarith
  ultimately show ?thesis using trunc_rat_bounds [of ?q] unfolding retryDelay_def by linarith
qed

theorem retry_delay_bounds_witness:
  "8/10 * of_int (min (500 * 2 ^ (3 - 1)) 30000) - 1 < (of_int (retryDelay Reconnect_init 3 1) :: rat)"
  using retry_delay_bounds [of 1 Reconnect_init 3] by (simp add: jitter_ok_def Reconnect_init_def)


text \<open>The handler of the handshake is queued when the client's destructor closes with 1001.\<close>

definition handshake_conn :: ws_conn where
  "handshake_conn =
     (WsConnection example_conn_env)
       \<lparr>wk_state := Connecting, wk_generation := 1, wk_ops := [OpUpgrade 1], wk_arrived := [OpUpgrade 1],
        wk_posted := [JobClose 1001], wk_target := wk_target open_conn\<rparr>"

lemma handshake_conn_reachable: "conn_reachable example_conn_env handshake_conn"
proof (rule conn_exec_reachable)
  show "exec (conn_next example_conn_env) (WsConnection example_conn_env)
      [JobRuns, Completes (OpResolve 1) ok_result, Completes (OpConnect 1) ok_result, Arrives (OpUpgrade 1), CloseCalled 1001]
    = Some handshake_conn"
    by code_simp
qed


end
