(* ===== verification/ClientConnections.thy ===== *)
theory ClientConnections
  imports WebSocketClient
begin

text \<open>
  The WebSocket client (\<^verbatim>\<open>WsClientImpl\<close> and \<^verbatim>\<open>WebSocketClient\<close> of
  sources/Client/WebSocketClient.cpp): the list of weak references to its connections, the handles
  the application holds, and the destructor. The connections are those of \<^theory_text>\<open>WebSocketClient\<close>;
  their steps interleave with the ones of the client.
\<close>

section \<open>State\<close>

text \<open>
  Connection \<open>i\<close> is the \<open>i\<close>-th ever made, with the \<open>i\<close>-th environment. \<open>wc_list\<close> holds the weak
  references, \<open>wc_handles\<close> the connections whose handle the application still has, \<open>wc_closing\<close> those
  the destructor has still to close.
\<close>

record ws_client =
  wc_closed :: bool
  wc_envs :: "conn_env list"
  wc_conns :: "ws_conn list"
  wc_list :: "nat list"
  wc_handles :: "nat list"
  wc_closing :: "nat list"

definition WsClientImpl :: ws_client where
  "WsClientImpl = \<lparr>wc_closed = False, wc_envs = [], wc_conns = [], wc_list = [], wc_handles = [], wc_closing = []\<rparr>"

text \<open>
  Every pending operation, posted job and call in progress owns its connection, and so do handles;
  \<open>kept\<close> are the connections whose events the application's executor has still to run.
\<close>

definition conn_expired :: "nat list \<Rightarrow> ws_client \<Rightarrow> nat \<Rightarrow> bool" where
  "conn_expired kept w i \<longleftrightarrow>
     (let s = wc_conns w ! i
      in i \<notin> set kept \<and> i \<notin> set (wc_handles w) \<and> i \<notin> set (wc_closing w)
         \<and> wk_ops s = [] \<and> wk_posted s = [] \<and> wk_reserving s = [] \<and> wk_posting s = [])"

section \<open>Operations\<close>

definition client_connect :: "nat list \<Rightarrow> conn_env \<Rightarrow> ws_client \<Rightarrow> ws_client" where
  "client_connect kept E w =
     (let i = length (wc_conns w)
      in w\<lparr>wc_envs := wc_envs w @ [E], wc_conns := wc_conns w @ [WsConnection E],
           wc_list := filter (\<lambda>j. \<not> conn_expired kept w j) (wc_list w) @ [i], wc_handles := wc_handles w @ [i]\<rparr>)"

definition client_conn_event :: "nat \<Rightarrow> conn_event \<Rightarrow> ws_client \<Rightarrow> ws_client option" where
  "client_conn_event i e w =
     (if i < length (wc_conns w) then
        case conn_next (wc_envs w ! i) (wc_conns w ! i) e of
          Some t \<Rightarrow> Some (w\<lparr>wc_conns := (wc_conns w)[i := t]\<rparr>)
        | None \<Rightarrow> None
      else None)"

text \<open>The deleter of the handle.\<close>

definition drop_handle :: "nat \<Rightarrow> ws_client \<Rightarrow> ws_client option" where
  "drop_handle i w =
     (if i \<in> set (wc_handles w) then client_conn_event i (CloseCalled 1000) (w\<lparr>wc_handles := remove1 i (wc_handles w)\<rparr>)
      else None)"

text \<open>The destructor: the flag and the list under the mutex, then the closes one by one.\<close>

definition client_destroy :: "nat list \<Rightarrow> ws_client \<Rightarrow> ws_client" where
  "client_destroy kept w =
     w\<lparr>wc_closed := True, wc_closing := filter (\<lambda>j. \<not> conn_expired kept w j) (wc_list w), wc_list := [],
       wc_conns := map (\<lambda>s. s\<lparr>wk_client_closed := True\<rparr>) (wc_conns w)\<rparr>"

definition destroy_close :: "ws_client \<Rightarrow> ws_client option" where
  "destroy_close w =
     (case wc_closing w of
        [] \<Rightarrow> None
      | i # is \<Rightarrow> client_conn_event i (CloseCalled 1001) (w\<lparr>wc_closing := is\<rparr>))"

section \<open>Steps\<close>

datatype ws_client_event =
    Connects "nat list" conn_env
  | ConnEvent nat conn_event
  | HandleDropped nat
  | DestructorRuns "nat list"
  | DestructorCloses

fun client_next :: "ws_client \<Rightarrow> ws_client_event \<Rightarrow> ws_client option" where
  "client_next w (Connects kept E) = (if wc_closed w then None else Some (client_connect kept E w))"
| "client_next w (ConnEvent i e) = (if e = ClientDestroyed then None else client_conn_event i e w)"
| "client_next w (HandleDropped i) = drop_handle i w"
| "client_next w (DestructorRuns kept) = (if wc_closed w then None else Some (client_destroy kept w))"
| "client_next w DestructorCloses = destroy_close w"

definition client_step :: "ws_client \<Rightarrow> ws_client_event \<Rightarrow> ws_client \<Rightarrow> bool" where
  "client_step w e v \<longleftrightarrow> client_next w e = Some v"

definition client_starts :: "ws_client \<Rightarrow> bool" where
  "client_starts w \<longleftrightarrow> w = WsClientImpl"

section \<open>A connection of a client that is being destroyed\<close>

lemma client_closed_handlers [simp]:
  "wk_client_closed (emit_if h c s) = wk_client_closed s" "wk_client_closed (conn_stop s) = wk_client_closed s"
  "wk_client_closed (start_conn_op op s) = wk_client_closed s" "wk_client_closed (attempt s) = wk_client_closed s"
  "wk_client_closed (scheduleRetry E j s) = wk_client_closed s"
  by (simp_all add: emit_if_def conn_stop_def start_conn_op_def attempt_def scheduleRetry_def Let_def emit_defs)

lemma closed_attempt [simp]: "wk_client_closed s \<Longrightarrow> attempt s = conn_stop s"
  by (simp add: attempt_def)

lemma closed_scheduleRetry [simp]: "wk_client_closed s \<Longrightarrow> scheduleRetry E j s = conn_stop s"
  by (simp add: scheduleRetry_def)

text \<open>The generation and the client's flag, as long as there is no new attempt.\<close>

definition attempts_view :: "ws_conn \<Rightarrow> nat \<times> bool" where
  "attempts_view s = (wk_generation s, wk_client_closed s)"

lemma attempts_view_simps [simp]:
  "attempts_view (emit_if h c s) = attempts_view s" "attempts_view (conn_stop s) = attempts_view s"
  "attempts_view (start_conn_op op s) = attempts_view s" "attempts_view (doClose code s) = attempts_view s"
  "attempts_view (job_send m g s) = attempts_view s" "attempts_view (conn_onWrite r g s) = attempts_view s"
  "attempts_view (without_op op s) = attempts_view s" "attempts_view (closeOpen code s) = attempts_view s"
  "attempts_view (s\<lparr>wk_stream_closed := b\<rparr>) = attempts_view s"
  by (simp_all add: attempts_view_def emit_if_def conn_stop_def start_conn_op_def doClose_def closeOpen_def job_send_def
      conn_write_def conn_onWrite_def Let_def split: conn_state.split)

lemma closed_conn_attempts:
  assumes "wk_client_closed s"
  shows "attempts_view (closed_conn E j code s) = attempts_view s"
proof -
  have "attempts_view (s\<lparr>wk_connected := c, wk_pending := p, wk_lost := l, wk_queue := q\<rparr>) = attempts_view s" for c p l q
    by (simp add: attempts_view_def)
  with assms show ?thesis by (simp add: closed_conn_def Let_def emit_defs)
qed

lemma attempts_view_updates [simp]:
  "attempts_view (s\<lparr>wk_status := n\<rparr>) = attempts_view s" "attempts_view (s\<lparr>wk_read_done := b\<rparr>) = attempts_view s"
  "attempts_view (s\<lparr>wk_target := tg\<rparr>) = attempts_view s"
  "attempts_view (s\<lparr>wk_close_done := b, wk_close_failed := c\<rparr>) = attempts_view s"
  "attempts_view (s\<lparr>wk_protocol := p, wk_status := n, wk_failures := f, wk_state := st, wk_connected := b\<rparr>) = attempts_view s"
  by (simp_all add: attempts_view_def)

lemma complete_op_attempts:
  assumes "wk_client_closed s"
  shows "attempts_view (complete_op E r op s) = attempts_view s"
proof -
  have failed: "attempts_view (attemptFailed E j ec s) = attempts_view s" for j ec
    using assms by (simp add: attemptFailed_def emit_defs)
  have ending: "attempts_view (closed_conn E j code (emit_if h c s)) = attempts_view s"
    "attempts_view (closed_conn E j code (s\<lparr>wk_read_done := b\<rparr>)) = attempts_view s"
    "attempts_view (closed_conn E j code (s\<lparr>wk_close_done := b, wk_close_failed := d\<rparr>)) = attempts_view s"
    "attempts_view (closed_conn E j code s) = attempts_view s" for j code h c b d
    using assms by (simp_all add: closed_conn_attempts)
  show ?thesis
    using assms
    by (cases op) (simp_all add: fresh_def on_attempt_step_def conn_onResolve_def conn_onConnect_def conn_upgrade_def
        onUpgrade_def conn_onRead_def conn_read_def ended_def finishOwnClose_def onClose_done_def onTimer_def emit_defs
        failed ending Let_def split: option.split)
qed

lemma conn_start_attempts: "wk_client_closed s \<Longrightarrow> attempts_view (conn_start E s) = attempts_view s"
  by (simp add: conn_start_def emit_defs split: sum.split)

text \<open>No connection of a client that is being destroyed starts another attempt.\<close>

lemma closed_client_no_attempt:
  assumes "wk_client_closed s" and "conn_next E s e = Some t"
  shows "wk_generation t = wk_generation s" and "wk_client_closed t"
proof -
  have "attempts_view t = attempts_view s"
  proof (cases e)
    case JobRuns
    with assms(2) obtain j js where j: "wk_posted s = j # js" "t = run_job E j (s\<lparr>wk_posted := js\<rparr>)"
      by (auto split: list.splits)
    have "attempts_view (s\<lparr>wk_posted := js\<rparr>) = attempts_view s" by (simp add: attempts_view_def)
    with j assms(1) show ?thesis by (cases j) (simp_all add: conn_start_attempts)
  next
    case (Completes op r)
    with assms(2) have "t = complete_op E r op (without_op op s)" by (auto split: if_splits)
    with assms(1) show ?thesis by (simp add: complete_op_attempts)
  qed (use assms in \<open>auto simp: attempts_view_def Let_def split: if_splits\<close>)
  with assms(1) show "wk_generation t = wk_generation s" and "wk_client_closed t" by (simp_all add: attempts_view_def)
qed

section \<open>Connections that will close\<close>

text \<open>The connection stopped, was asked to close, or will be by a posted job.\<close>

definition close_due :: "ws_conn \<Rightarrow> bool" where
  "close_due s \<longleftrightarrow> wk_state s = Stopped \<or> wk_stop s \<or> (\<exists>code. JobClose code \<in> set (wk_posted s))"

lemma stopped_stays:
  assumes "conn_inv E s" and "wk_state s = Stopped" and "conn_next E s e = Some t"
  shows "wk_state t = Stopped"
proof (cases e)
  case JobRuns
  with assms(3) obtain j js where j: "wk_posted s = j # js" "t = run_job E j (s\<lparr>wk_posted := js\<rparr>)"
    by (auto split: list.splits)
  then have "j \<noteq> JobStart" using assms(1,2) by (auto simp: conn_inv_def start_ok_def)
  with j assms(2) show ?thesis by (cases j) (simp_all add: doClose_def)
next
  case (Completes op r)
  with assms(3) have "t = complete_op E r op (without_op op s)" by (auto split: if_splits)
  with assms(2) show ?thesis by (cases op) (simp_all add: fresh_def conn_stale_def onTimer_def)
qed (use assms(2) off_strand_frame [OF assms(3)] in simp_all)

text \<open>A posted job stays until it runs.\<close>

lemma posted_job_kept:
  assumes "conn_next E s e = Some t" and "job \<in> set (wk_posted s)"
  shows "job \<in> set (wk_posted t) \<or> (\<exists>js. wk_posted s = job # js \<and> t = run_job E job (s\<lparr>wk_posted := js\<rparr>))"
proof (cases e)
  case JobRuns
  with assms(1) obtain j js where j: "wk_posted s = j # js" "t = run_job E j (s\<lparr>wk_posted := js\<rparr>)"
    by (auto split: list.splits)
  have "wk_posted t = js"
  proof (cases j)
    case (JobSend m gen)
    with j(2) show ?thesis by (simp add: job_send_def conn_write_def start_conn_op_def Let_def)
  next
    case JobStart
    have "traffic (conn_start E (s\<lparr>wk_posted := js\<rparr>)) = traffic (s\<lparr>wk_posted := js\<rparr>)" by simp
    with j(2) JobStart show ?thesis by (simp add: traffic_def)
  next
    case (JobClose code)
    have "traffic (doClose code (s\<lparr>wk_posted := js\<rparr>)) = traffic (s\<lparr>wk_posted := js\<rparr>)" by simp
    with j(2) JobClose show ?thesis by (simp add: traffic_def)
  qed
  with assms(2) j show ?thesis by auto
next
  case (Completes op r)
  from completes_traffic [OF assms(1) [unfolded Completes]] have "wk_posted t = wk_posted s"
    by (auto simp: traffic_def traffic_dropped_def)
  with assms(2) show ?thesis by simp
qed (use assms(2) off_strand_frame [OF assms(1)] in auto)

lemma close_due_step:
  assumes "conn_inv E s" and "close_due s" and "conn_next E s e = Some t"
  shows "close_due t"
proof -
  consider "wk_state s = Stopped" | "wk_stop s" | code where "JobClose code \<in> set (wk_posted s)"
    using assms(2) by (auto simp: close_due_def)
  then show ?thesis
  proof cases
    case 1
    with stopped_stays [OF assms(1) _ assms(3)] show ?thesis by (simp add: close_due_def)
  next
    case 2
    with winds_down_step [OF assms(1) _ assms(3)] show ?thesis by (simp add: close_due_def winds_down_def)
  next
    case 3
    from posted_job_kept [OF assms(3) this] show ?thesis
      by (auto simp: close_due_def doClose_def closeOpen_def conn_stop_def start_conn_op_def Let_def split: conn_state.split)
  qed
qed

text \<open>A connection nothing refers to has stopped.\<close>

lemma unowned_stopped:
  assumes "conn_inv E s" and "wk_ops s = []" and "wk_posted s = []"
  shows "wk_state s = Stopped"
  using assms by (cases "wk_state s") (auto simp: conn_inv_def ops_ok_def start_ok_def attempt_kinds)

section \<open>The invariant of the client\<close>

text \<open>
  Every connection is one the connection's own steps reach. Before the destructor the list has every
  connection that has not stopped; after it, every connection is to be closed or was told to.
\<close>

definition conns_ok :: "ws_client \<Rightarrow> bool" where
  "conns_ok w \<longleftrightarrow> length (wc_envs w) = length (wc_conns w)
     \<and> (\<forall>i < length (wc_conns w). conn_reachable (wc_envs w ! i) (wc_conns w ! i)
          \<and> wk_client_closed (wc_conns w ! i) = wc_closed w)"

definition refs_ok :: "ws_client \<Rightarrow> bool" where
  "refs_ok w \<longleftrightarrow> set (wc_handles w) \<union> set (wc_closing w) \<subseteq> {..<length (wc_conns w)}
     \<and> (if wc_closed w then \<forall>i < length (wc_conns w). i \<in> set (wc_closing w) \<or> close_due (wc_conns w ! i)
        else wc_closing w = [] \<and> set (wc_list w) \<subseteq> {..<length (wc_conns w)}
             \<and> (\<forall>i < length (wc_conns w). i \<in> set (wc_list w) \<or> wk_state (wc_conns w ! i) = Stopped))"

definition client_inv :: "ws_client \<Rightarrow> bool" where
  "client_inv w \<longleftrightarrow> conns_ok w \<and> refs_ok w"

lemma conn_reachable_step: "conn_reachable E s \<Longrightarrow> conn_next E s e = Some t \<Longrightarrow> conn_reachable E t"
  unfolding conn_reachable_def conn_step_def [symmetric] by (rule reachable_step)

lemma client_closed_step:
  assumes "conn_next E s e = Some t" and "e \<noteq> ClientDestroyed"
  shows "wk_client_closed t = wk_client_closed s"
proof (cases e)
  case JobRuns
  with assms(1) obtain j js where j: "wk_posted s = j # js" "t = run_job E j (s\<lparr>wk_posted := js\<rparr>)"
    by (auto split: list.splits)
  then show ?thesis
    by (cases j) (simp_all add: conn_start_def job_send_def doClose_def closeOpen_def conn_write_def emit_defs Let_def
        split: sum.split conn_state.split)
next
  case (Completes op r)
  with assms(1) have "t = complete_op E r op (without_op op s)" by (auto split: if_splits)
  moreover have "wk_client_closed (closed_conn E j code u) = wk_client_closed u" for j code u
    by (simp add: closed_conn_def Let_def emit_defs)
  ultimately show ?thesis
    by (cases op) (simp_all add: fresh_def on_attempt_step_def conn_onResolve_def conn_onConnect_def conn_upgrade_def
        onUpgrade_def closeOpen_def conn_onRead_def conn_read_def ended_def finishOwnClose_def onClose_done_def onTimer_def
        conn_onWrite_def conn_write_def attemptFailed_def emit_defs Let_def split: option.split)
qed (use assms in \<open>auto simp: Let_def split: if_splits\<close>)

lemma conn_event_cases:
  assumes "client_conn_event i e w = Some v"
  obtains t where "i < length (wc_conns w)" and "conn_next (wc_envs w ! i) (wc_conns w ! i) e = Some t"
    and "v = w\<lparr>wc_conns := (wc_conns w)[i := t]\<rparr>"
  using assms by (auto simp: client_conn_event_def split: if_splits option.splits)

lemma conn_event_conns_ok:
  assumes "conns_ok w" and "client_conn_event i e w = Some v" and "e \<noteq> ClientDestroyed"
  shows "conns_ok v"
proof -
  from assms(2) obtain t where t: "i < length (wc_conns w)" "conn_next (wc_envs w ! i) (wc_conns w ! i) e = Some t"
    "v = w\<lparr>wc_conns := (wc_conns w)[i := t]\<rparr>" by (rule conn_event_cases)
  have "conn_reachable (wc_envs w ! i) t" "wk_client_closed t = wc_closed w"
    using assms(1) t(1) conn_reachable_step [OF _ t(2)] client_closed_step [OF t(2) assms(3)] by (auto simp: conns_ok_def)
  with assms(1) t(1,3) show ?thesis by (auto simp: conns_ok_def nth_list_update)
qed

text \<open>A step of a connection keeps what is due; a close makes it due.\<close>

lemma conn_event_refs_ok:
  assumes "conns_ok w" and "refs_ok w" and "client_conn_event i e w = Some v"
  shows "refs_ok v"
proof -
  from assms(3) obtain t where t: "i < length (wc_conns w)" "conn_next (wc_envs w ! i) (wc_conns w ! i) e = Some t"
    "v = w\<lparr>wc_conns := (wc_conns w)[i := t]\<rparr>" by (rule conn_event_cases)
  have inv: "conn_inv (wc_envs w ! i) (wc_conns w ! i)"
    using assms(1) t(1) by (simp add: conns_ok_def conn_reachable_inv)
  show ?thesis
    using assms(2) t close_due_step [OF inv _ t(2)] stopped_stays [OF inv _ t(2)]
    by (auto simp: refs_ok_def nth_list_update split: if_splits)
qed

lemma connect_inv:
  assumes "client_inv w" and "\<not> wc_closed w"
  shows "client_inv (client_connect kept E w)"
proof -
  have w: "conns_ok w" "refs_ok w" using assms(1) by (simp_all add: client_inv_def)
  have "conn_reachable E (WsConnection E)"
    unfolding conn_reachable_def by (rule reachable_init) (simp add: conn_starts_def)
  moreover have "wk_client_closed (WsConnection E) = False" by (simp add: WsConnection_def)
  ultimately have "conns_ok (client_connect kept E w)"
    using w(1) assms(2) by (auto simp: conns_ok_def client_connect_def Let_def nth_append less_Suc_eq)
  moreover have "wk_state (wc_conns w ! i) = Stopped" if "i < length (wc_conns w)" "conn_expired kept w i" for i
  proof (rule unowned_stopped)
    show "conn_inv (wc_envs w ! i) (wc_conns w ! i)" using w(1) that(1) by (simp add: conns_ok_def conn_reachable_inv)
  qed (use that(2) in \<open>simp_all add: conn_expired_def Let_def\<close>)
  then have "refs_ok (client_connect kept E w)"
    using w(2) assms(2) by (fastforce simp: refs_ok_def client_connect_def Let_def nth_append less_Suc_eq)
  ultimately show ?thesis by (simp add: client_inv_def)
qed

lemma destroy_inv:
  assumes "client_inv w" and "\<not> wc_closed w"
  shows "client_inv (client_destroy kept w)"
proof -
  have w: "conns_ok w" "refs_ok w" using assms(1) by (simp_all add: client_inv_def)
  have "conn_reachable E (s\<lparr>wk_client_closed := True\<rparr>)" if "conn_reachable E s" for E s
    using conn_reachable_step [OF that, of ClientDestroyed] by simp
  with w(1) have "conns_ok (client_destroy kept w)" by (simp add: conns_ok_def client_destroy_def)
  moreover have "wk_state (wc_conns w ! i) = Stopped" if "i < length (wc_conns w)" "conn_expired kept w i" for i
  proof (rule unowned_stopped)
    show "conn_inv (wc_envs w ! i) (wc_conns w ! i)" using w(1) that(1) by (simp add: conns_ok_def conn_reachable_inv)
  qed (use that(2) in \<open>simp_all add: conn_expired_def Let_def\<close>)
  then have "refs_ok (client_destroy kept w)"
    using w(2) assms(2) by (auto simp: refs_ok_def client_destroy_def close_due_def)
  ultimately show ?thesis by (simp add: client_inv_def)
qed

lemma handle_dropped_inv:
  assumes "client_inv w" and "drop_handle i w = Some v"
  shows "client_inv v"
proof -
  let ?w = "w\<lparr>wc_handles := remove1 i (wc_handles w)\<rparr>"
  have "conns_ok ?w" "refs_ok ?w"
    using assms(1) by (auto simp: client_inv_def conns_ok_def refs_ok_def dest: notin_set_remove1 split: if_splits)
  moreover from assms(2) have "client_conn_event i (CloseCalled 1000) ?w = Some v" by (simp add: drop_handle_def split: if_splits)
  ultimately show ?thesis
    using conn_event_conns_ok [of ?w i "CloseCalled 1000" v] conn_event_refs_ok [of ?w i "CloseCalled 1000" v]
    by (simp add: client_inv_def)
qed

lemma destroy_close_inv:
  assumes "client_inv w" and "destroy_close w = Some v"
  shows "client_inv v"
proof -
  have w: "conns_ok w" "refs_ok w" using assms(1) by (simp_all add: client_inv_def)
  from assms(2) obtain i rest where i: "wc_closing w = i # rest" "client_conn_event i (CloseCalled 1001) (w\<lparr>wc_closing := rest\<rparr>) = Some v"
    by (auto simp: destroy_close_def split: list.splits)
  from i(2) obtain t where t: "i < length (wc_conns w)" "v = w\<lparr>wc_closing := rest, wc_conns := (wc_conns w)[i := t]\<rparr>"
    "t = (wc_conns w ! i)\<lparr>wk_posted := wk_posted (wc_conns w ! i) @ [JobClose 1001]\<rparr>"
    by (auto elim!: conn_event_cases)
  have "conns_ok (w\<lparr>wc_closing := rest\<rparr>)" using w(1) by (simp add: conns_ok_def)
  from conn_event_conns_ok [OF this i(2)] have "conns_ok v" by simp
  moreover have "wc_closed w" using w(2) i(1) by (auto simp: refs_ok_def split: if_splits)
  with w(2) i(1) t have "refs_ok v" by (auto simp: refs_ok_def nth_list_update close_due_def)
  ultimately show ?thesis by (simp add: client_inv_def)
qed

lemma client_next_inv:
  assumes "client_inv w" and "client_next w e = Some v"
  shows "client_inv v"
proof (cases e)
  case (ConnEvent i f)
  with assms conn_event_conns_ok [of w i f v] conn_event_refs_ok [of w i f v] show ?thesis
    by (simp add: client_inv_def split: if_splits)
next
  case (Connects kept E)
  with assms connect_inv [OF assms(1)] show ?thesis by (auto split: if_splits)
next
  case (DestructorRuns kept)
  with assms destroy_inv [OF assms(1)] show ?thesis by (auto split: if_splits)
next
  case (HandleDropped i)
  with assms(2) show ?thesis by (simp add: handle_dropped_inv [OF assms(1)])
next
  case DestructorCloses
  with assms(2) show ?thesis by (simp add: destroy_close_inv [OF assms(1)])
qed

interpretation ws_clients: invariant_system client_starts client_step client_inv
proof
  show "client_starts w \<Longrightarrow> client_inv w" for w
    by (simp add: client_starts_def client_inv_def conns_ok_def refs_ok_def WsClientImpl_def)
qed (auto simp: client_step_def intro: client_next_inv)

section \<open>Properties\<close>

text \<open>The destructor reaches everybody: once it made its closes, every connection the client ever made
  has stopped, was asked to close, or has a posted job that closes it.\<close>

theorem destroyed_client_closes_all:
  assumes "reachable client_starts client_step w" and "wc_closed w" and "wc_closing w = []" and "s \<in> set (wc_conns w)"
  shows "wk_state s = Stopped \<or> wk_stop s \<or> (\<exists>code. JobClose code \<in> set (wk_posted s))"
proof -
  from assms(4) obtain i where "i < length (wc_conns w)" "s = wc_conns w ! i" by (auto simp: in_set_conv_nth)
  with ws_clients.reachable_inv [OF assms(1)] assms(2,3) show ?thesis
    by (auto simp: client_inv_def refs_ok_def close_due_def)
qed

text \<open>Two connections, the first of them open; the handle of the second is dropped; then the destructor.\<close>

definition destroying_events :: "ws_client_event list" where
  "destroying_events = Connects [] example_conn_env # Connects [] example_conn_env
     # map (ConnEvent 0) opening_events @ [HandleDropped 1, DestructorRuns []]"

definition closing_client :: ws_client where
  "closing_client = the (exec client_next WsClientImpl (destroying_events @ [DestructorCloses, DestructorCloses]))"

lemma closing_client_exec:
  "exec client_next WsClientImpl (destroying_events @ [DestructorCloses, DestructorCloses]) = Some closing_client"
proof -
  have "exec client_next WsClientImpl (destroying_events @ [DestructorCloses, DestructorCloses]) \<noteq> None" by code_simp
  then show ?thesis by (simp add: closing_client_def)
qed

lemma closing_client_facts:
  "wc_closed closing_client" "wc_closing closing_client = []" "length (wc_conns closing_client) = 2"
  "wk_state (wc_conns closing_client ! 0) = Open"
  "wk_generation (wc_conns closing_client ! 0) = 2"
  by code_simp+

lemma closing_client_reachable: "reachable client_starts client_step closing_client"
  by (rule exec_reachable [OF closing_client_exec]) (auto simp: client_starts_def client_step_def intro: reachable_init)

theorem destroyed_client_closes_all_witness:
  "wk_state (wc_conns closing_client ! 0) = Open \<and> (\<exists>s \<in> set (wc_conns closing_client). wk_state s = Open
     \<and> (wk_state s = Stopped \<or> wk_stop s \<or> (\<exists>code. JobClose code \<in> set (wk_posted s))))"
proof -
  have member: "wc_conns closing_client ! 0 \<in> set (wc_conns closing_client)"
    using closing_client_facts(3) by (intro nth_mem) simp
  from destroyed_client_closes_all [OF closing_client_reachable closing_client_facts(1,2) this] member
    closing_client_facts(4)
  show ?thesis by blast
qed

text \<open>From the moment the destructor set its flag, no connection starts another attempt, whatever
  completes; and the flag stays.\<close>

theorem destroyed_client_starts_no_attempt:
  assumes "reachable client_starts client_step w" and "wc_closed w" and "client_step w e v"
  shows "map wk_generation (wc_conns v) = map wk_generation (wc_conns w) \<and> wc_closed v"
proof -
  have flags: "wk_client_closed (wc_conns w ! i)" if "i < length (wc_conns w)" for i
    using ws_clients.reachable_inv [OF assms(1)] assms(2) that by (simp add: client_inv_def conns_ok_def)
  have kept: "map wk_generation (wc_conns u') = map wk_generation (wc_conns u) \<and> wc_closed u'"
    if event: "client_conn_event i f u = Some u'" and u: "wc_conns u = wc_conns w" "wc_closed u" for i f u u'
  proof -
    from event obtain t where t: "i < length (wc_conns u)" "conn_next (wc_envs u ! i) (wc_conns u ! i) f = Some t"
      "u' = u\<lparr>wc_conns := (wc_conns u)[i := t]\<rparr>" by (rule conn_event_cases)
    have "wk_generation t = wk_generation (wc_conns u ! i)"
      using closed_client_no_attempt(1) [OF _ t(2)] flags t(1) u(1) by simp
    then have "(map wk_generation (wc_conns u))[i := wk_generation t] = map wk_generation (wc_conns u)"
      using t(1) by (simp add: list_update_same_conv)
    with t u show ?thesis by (simp add: map_update)
  qed
  show ?thesis
    using assms(2,3) kept
    by (cases e) (fastforce simp: client_step_def drop_handle_def destroy_close_def split: if_splits list.splits)+
qed

theorem destroyed_client_starts_no_attempt_witness:
  "\<exists>v. client_next closing_client (ConnEvent 0 (Completes (OpRead 2) (failed_result (NetError 104)))) = Some v
     \<and> wk_generation (wc_conns v ! 0) = 2"
proof -
  have "client_next closing_client (ConnEvent 0 (Completes (OpRead 2) (failed_result (NetError 104)))) \<noteq> None" by code_simp
  then obtain v where v: "client_step closing_client (ConnEvent 0 (Completes (OpRead 2) (failed_result (NetError 104)))) v"
    by (auto simp: client_step_def)
  from destroyed_client_starts_no_attempt [OF closing_client_reachable closing_client_facts(1) v]
  have "map wk_generation (wc_conns v) ! 0 = map wk_generation (wc_conns closing_client) ! 0"
    "length (wc_conns v) = length (wc_conns closing_client)" by (metis, metis length_map)
  with closing_client_facts(3,5) v show ?thesis by (auto simp: client_step_def)
qed

end
