(* ===== verification/ClientOptions.thy ===== *)
theory ClientOptions
  imports ClientCalls ClientConnections
begin

text \<open>
  How the clients are created and configured: the \<^verbatim>\<open>Options\<close> of Client/HttpClient.h and
  Client/WebSocketClient.h with their defaults, the constructors, what a request and the options
  give the models of \<^theory_text>\<open>HttpClient\<close> and \<^theory_text>\<open>WebSocketClient\<close>, and the response a call
  hands out. Times are in milliseconds.
\<close>

section \<open>The HTTP client\<close>

record http_options =
  ho_tls :: tls_options
  ho_threads :: nat
  ho_connect_timeout :: int
  ho_request_timeout :: int
  ho_max_response_size :: nat
  ho_max_idle_per_host :: nat
  ho_idle_timeout :: int
  ho_user_agent :: string

definition HttpOptions :: http_options where
  "HttpOptions =
     \<lparr>ho_tls = ClientTlsOptions, ho_threads = 1, ho_connect_timeout = 10000, ho_request_timeout = 30000,
      ho_max_response_size = 64 * 1024 * 1024, ho_max_idle_per_host = 8, ho_idle_timeout = 30000,
      ho_user_agent = ''cppgate''\<rparr>"

record client_request =
  cq_method :: verb
  cq_url :: string
  cq_headers :: "(string \<times> string) list"
  cq_body :: string
  cq_timeout :: "int option"

text \<open>The number of threads the client starts; it is never zero.\<close>

definition client_threads :: "nat \<Rightarrow> nat" where
  "client_threads threads = max 1 threads"

text \<open>The constructor: the TLS context first, whose error is thrown, then the threads.\<close>

definition HttpClient_create :: "tls_env \<Rightarrow> http_options \<Rightarrow> tls_error + (tls_call list \<times> nat \<times> http_calls)" where
  "HttpClient_create env options =
     (case configureClientTls env (ho_tls options) of
        Inl e \<Rightarrow> Inl e
      | Inr calls \<Rightarrow>
          Inr (calls, client_threads (ho_threads options),
               HttpClient_init (ho_max_idle_per_host options) (ho_idle_timeout options)))"

text \<open>A request as a call sees it, with the parser and Beast's refusals, and its deadline.\<close>

definition request_env ::
  "url_lib \<Rightarrow> (verb \<Rightarrow> (string \<times> string) list \<Rightarrow> string \<Rightarrow> bool) \<Rightarrow> http_options \<Rightarrow> client_request \<Rightarrow> bool
     \<Rightarrow> bool \<Rightarrow> call_env" where
  "request_env urls refuses options request on_progress on_complete =
     \<lparr>he_urls = urls, he_method = cq_method request, he_url = cq_url request, he_headers = cq_headers request,
      he_body = cq_body request, he_user_agent = ho_user_agent options, he_on_progress = on_progress,
      he_on_complete = on_complete, he_refuses = refuses\<rparr>"

definition request_deadline :: "http_options \<Rightarrow> client_request \<Rightarrow> int" where
  "request_deadline options request =
     (case cq_timeout request of Some t \<Rightarrow> t | None \<Rightarrow> ho_request_timeout options)"

section \<open>The response of a call\<close>

definition response_status :: "'h http_response \<Rightarrow> nat" where
  "response_status r = res_status r"

definition response_header :: "'h fields_lib \<Rightarrow> 'h http_response \<Rightarrow> string \<Rightarrow> string" where
  "response_header F r name = (case bf_find F (res_fields r) name of None \<Rightarrow> [] | Some v \<Rightarrow> v)"

definition response_body :: "'h http_response \<Rightarrow> string" where
  "response_body r = res_body r"

section \<open>The WebSocket client\<close>

record ws_options =
  wo_tls :: tls_options
  wo_threads :: nat
  wo_connect_timeout :: int
  wo_max_message_size :: nat
  wo_idle_timeout :: int
  wo_keep_alive_pings :: bool
  wo_close_timeout :: int
  wo_send_queue_limit :: nat
  wo_compression :: bool
  wo_user_agent :: string

definition WsOptions :: ws_options where
  "WsOptions =
     \<lparr>wo_tls = ClientTlsOptions, wo_threads = 1, wo_connect_timeout = 10000,
      wo_max_message_size = 16 * 1024 * 1024, wo_idle_timeout = 30000, wo_keep_alive_pings = True,
      wo_close_timeout = 5000, wo_send_queue_limit = 32, wo_compression = False, wo_user_agent = ''cppgate''\<rparr>"

definition WebSocketClient_create :: "tls_env \<Rightarrow> ws_options \<Rightarrow> tls_error + (tls_call list \<times> nat \<times> ws_client)" where
  "WebSocketClient_create env options =
     (case configureClientTls env (wo_tls options) of
        Inl e \<Rightarrow> Inl e
      | Inr calls \<Rightarrow> Inr (calls, client_threads (wo_threads options), WsClientImpl))"

record ws_request =
  wq_url :: string
  wq_headers :: "(string \<times> string) list"
  wq_subprotocols :: "string list"
  wq_reconnect :: reconnect

definition connection_env :: "url_lib \<Rightarrow> ws_options \<Rightarrow> ws_request \<Rightarrow> ws_callbacks \<Rightarrow> conn_env" where
  "connection_env urls options request callbacks =
     \<lparr>ce_urls = urls, ce_url = wq_url request, ce_reconnect = wq_reconnect request,
      ce_limit = wo_send_queue_limit options, ce_callbacks = callbacks\<rparr>"

text \<open>What the stream is told before the upgrade; an idle timeout that is not positive is none.\<close>

record upgrade_options =
  uo_handshake_timeout :: int
  uo_idle_timeout :: "int option"
  uo_keep_alive_pings :: bool
  uo_read_message_max :: nat
  uo_deflate :: bool

definition upgrade_settings :: "ws_options \<Rightarrow> upgrade_options" where
  "upgrade_settings options =
     \<lparr>uo_handshake_timeout = wo_connect_timeout options,
      uo_idle_timeout = (if wo_idle_timeout options > 0 then Some (wo_idle_timeout options) else None),
      uo_keep_alive_pings = wo_keep_alive_pings options,
      uo_read_message_max = wo_max_message_size options, uo_deflate = wo_compression options\<rparr>"

section \<open>Properties\<close>

text \<open>C31: A client that could be created has a thread to run its calls and connections on, and if it is to
  verify its peers its TLS context was told so before anything else, requires TLS 1.2 and got at
  least one source of certificates.\<close>

theorem created_clients_verify:
  assumes "0 < te_bundle_parts env"
    and "HttpClient_create env options = Inr (calls, threads, hc) \<and> opts = ho_tls options
      \<or> WebSocketClient_create env woptions = Inr (calls, threads, wc) \<and> opts = wo_tls woptions"
  shows "1 \<le> threads
    \<and> take 2 calls = [SetOptions [DefaultWorkarounds, NoSslv2, NoSslv3, NoTlsv1, NoTlsv1_1],
                      SetVerifyMode (verify_peer opts)]
    \<and> (verify_peer opts \<longrightarrow> (\<exists>c \<in> set calls. ca_source env c))"
proof -
  have "configureClientTls env opts = Inr calls" and "1 \<le> threads"
    using assms(2)
    by (auto simp: HttpClient_create_def WebSocketClient_create_def client_threads_def split: sum.splits)
  with verified_client_has_ca [OF _ assms(1)] show ?thesis by blast
qed

theorem created_clients_verify_witness:
  "\<exists>calls threads hc. HttpClient_create example_tls_env (HttpOptions\<lparr>ho_threads := 0\<rparr>) = Inr (calls, threads, hc)
     \<and> threads = 1 \<and> (\<exists>c \<in> set calls. ca_source example_tls_env c)"
proof -
  let ?options = "HttpOptions\<lparr>ho_threads := 0\<rparr>"
  have calls: "configureClientTls example_tls_env (ho_tls ?options)
      = Inr [SetOptions [DefaultWorkarounds, NoSslv2, NoSslv3, NoTlsv1, NoTlsv1_1], SetVerifyMode True,
             AddBundledPart 0, AddBundledPart 1]" by code_simp
  then have create: "HttpClient_create example_tls_env ?options
      = Inr ([SetOptions [DefaultWorkarounds, NoSslv2, NoSslv3, NoTlsv1, NoTlsv1_1], SetVerifyMode True,
              AddBundledPart 0, AddBundledPart 1], 1, HttpClient_init 8 30000)"
    by (simp add: HttpClient_create_def client_threads_def HttpOptions_def)
  have "verify_peer (ho_tls ?options)" "0 < te_bundle_parts example_tls_env"
    by (simp_all add: HttpOptions_def ClientTlsOptions_def example_tls_env_def)
  with created_clients_verify [OF this(2) disjI1, OF conjI, OF create refl] create show ?thesis by blast
qed

end
