(* ===== verification/RingBuffer.thy ===== *)
theory RingBuffer
  imports Prelude "HOL-Library.Multiset"
begin

unbundle bit_operations_syntax

text \<open>
  The lock-free ring buffer (\<^verbatim>\<open>RingBuffer.h\<close>): slots with sequence numbers, a head that
  producers claim positions from and a tail that consumers advance. Every atomic access and every
  access to the data of a slot is one step, and the steps of any number of threads interleave
  freely. Positions are natural numbers: the 64-bit counters of the code wrap after \<open>2\<close> to the
  power of 64 pushes. The memory orders of the code are taken to make the steps sequentially
  consistent.
\<close>

section \<open>The buffer\<close>

function bit_ceil_from :: "nat \<Rightarrow> nat \<Rightarrow> nat" where
  "bit_ceil_from p n = (if p = 0 \<or> n \<le> p then p else bit_ceil_from (2 * p) n)"
  by auto
termination by (relation "measure (\<lambda>(p, n). n - p)") auto

declare bit_ceil_from.simps [simp del]

definition bit_ceil :: "nat \<Rightarrow> nat" where
  "bit_ceil n = bit_ceil_from 1 n"

text \<open>
  A thread between two of its steps. \<open>Claimed\<close> spins for its turn, \<open>Writing\<close> got it and writes
  the data, \<open>Publishing\<close> is about to store the sequence. \<open>PopReady\<close> saw its item published,
  \<open>PopTaken\<close> moved the tail past it, \<open>PopRead\<close> copied it and is about to free the slot.
\<close>

datatype 'a thread =
    Resting
  | Pushing 'a
  | Claimed nat 'a
  | Writing nat 'a
  | Publishing nat
  | Popping
  | PopLoaded nat
  | PopReady nat
  | PopTaken nat
  | PopRead nat 'a

text \<open>\<open>rb_items\<close> records the item of every claimed position, \<open>rb_popped\<close> the position and item of every pop.\<close>

record 'a ring =
  rb_size :: nat
  rb_data :: "'a option list"
  rb_seq :: "nat list"
  rb_head :: nat
  rb_tail :: nat
  rb_threads :: "'a thread list"
  rb_items :: "'a list"
  rb_popped :: "(nat \<times> 'a) list"

definition RingBuffer :: "nat \<Rightarrow> 'a ring" where
  "RingBuffer req_size =
     (let n = bit_ceil req_size
      in \<lparr>rb_size = n, rb_data = replicate n None, rb_seq = [0..<n], rb_head = 0, rb_tail = 0, rb_threads = [],
          rb_items = [], rb_popped = []\<rparr>)"

text \<open>\<^verbatim>\<open>create\<close> makes new slots; head and tail stay where they are.\<close>

definition ring_create :: "nat \<Rightarrow> 'a ring \<Rightarrow> 'a ring" where
  "ring_create req_size s =
     (let n = bit_ceil req_size
      in s\<lparr>rb_size := n, rb_data := replicate n None, rb_seq := [0..<n]\<rparr>)"

definition slot_of :: "'a ring \<Rightarrow> nat \<Rightarrow> nat" where
  "slot_of s pos = pos AND (rb_size s - 1)"

definition ring_empty :: "'a ring \<Rightarrow> bool" where
  "ring_empty s \<longleftrightarrow> rb_head s = rb_tail s"

definition set_thread :: "nat \<Rightarrow> 'a thread \<Rightarrow> 'a ring \<Rightarrow> 'a ring" where
  "set_thread i th s = s\<lparr>rb_threads := (rb_threads s)[i := th]\<rparr>"

section \<open>Steps of push\<close>

definition push_claim :: "nat \<Rightarrow> 'a \<Rightarrow> 'a ring \<Rightarrow> 'a ring" where
  "push_claim i item s =
     set_thread i (Claimed (rb_head s) item)
       (s\<lparr>rb_head := rb_head s + 1, rb_items := rb_items s @ [item]\<rparr>)"

definition push_wait :: "nat \<Rightarrow> nat \<Rightarrow> 'a \<Rightarrow> 'a ring \<Rightarrow> 'a ring" where
  "push_wait i pos item s = (if rb_seq s ! slot_of s pos \<noteq> pos then s else set_thread i (Writing pos item) s)"

definition push_write :: "nat \<Rightarrow> nat \<Rightarrow> 'a \<Rightarrow> 'a ring \<Rightarrow> 'a ring" where
  "push_write i pos item s =
     set_thread i (Publishing pos) (s\<lparr>rb_data := (rb_data s)[slot_of s pos := Some item]\<rparr>)"

definition push_publish :: "nat \<Rightarrow> nat \<Rightarrow> 'a ring \<Rightarrow> 'a ring" where
  "push_publish i pos s = set_thread i Resting (s\<lparr>rb_seq := (rb_seq s)[slot_of s pos := pos + 1]\<rparr>)"

section \<open>Steps of pop\<close>

definition pop_load :: "nat \<Rightarrow> 'a ring \<Rightarrow> 'a ring" where
  "pop_load i s = set_thread i (PopLoaded (rb_tail s)) s"

definition pop_check :: "nat \<Rightarrow> nat \<Rightarrow> 'a ring \<Rightarrow> 'a ring" where
  "pop_check i pos s =
     (let diff = int (rb_seq s ! slot_of s pos) - int (pos + 1)
      in if diff = 0 then set_thread i (PopReady pos) s
         else if diff < 0 then set_thread i Resting s
         else set_thread i Popping s)"

text \<open>A weak exchange may fail for no reason; the tail it saw is the next position to try.\<close>

definition pop_exchange :: "nat \<Rightarrow> nat \<Rightarrow> bool \<Rightarrow> 'a ring \<Rightarrow> 'a ring" where
  "pop_exchange i pos spurious s =
     (if rb_tail s = pos \<and> \<not> spurious then set_thread i (PopTaken pos) (s\<lparr>rb_tail := pos + 1\<rparr>)
      else set_thread i (PopLoaded (rb_tail s)) s)"

definition pop_read :: "nat \<Rightarrow> nat \<Rightarrow> 'a ring \<Rightarrow> 'a ring option" where
  "pop_read i pos s =
     (case rb_data s ! slot_of s pos of
        Some item \<Rightarrow> Some (set_thread i (PopRead pos item) s)
      | None \<Rightarrow> None)"

definition pop_release :: "nat \<Rightarrow> nat \<Rightarrow> 'a \<Rightarrow> 'a ring \<Rightarrow> 'a ring" where
  "pop_release i pos item s =
     set_thread i Resting
       (s\<lparr>rb_seq := (rb_seq s)[slot_of s pos := pos + rb_size s], rb_popped := rb_popped s @ [(pos, item)]\<rparr>)"

section \<open>Interleaving\<close>

datatype 'a ring_event = NewThread | CallPush nat 'a | CallPop nat | Proceeds nat bool

definition thread_step :: "nat \<Rightarrow> bool \<Rightarrow> 'a thread \<Rightarrow> 'a ring \<Rightarrow> 'a ring option" where
  "thread_step i spurious th s =
     (case th of
        Resting \<Rightarrow> None
      | Pushing item \<Rightarrow> Some (push_claim i item s)
      | Claimed pos item \<Rightarrow> Some (push_wait i pos item s)
      | Writing pos item \<Rightarrow> Some (push_write i pos item s)
      | Publishing pos \<Rightarrow> Some (push_publish i pos s)
      | Popping \<Rightarrow> Some (pop_load i s)
      | PopLoaded pos \<Rightarrow> Some (pop_check i pos s)
      | PopReady pos \<Rightarrow> Some (pop_exchange i pos spurious s)
      | PopTaken pos \<Rightarrow> pop_read i pos s
      | PopRead pos item \<Rightarrow> Some (pop_release i pos item s))"

fun ring_next :: "'a ring \<Rightarrow> 'a ring_event \<Rightarrow> 'a ring option" where
  "ring_next s NewThread = Some (s\<lparr>rb_threads := rb_threads s @ [Resting]\<rparr>)"
| "ring_next s (CallPush i item) =
     (if i < length (rb_threads s) then
        case rb_threads s ! i of Resting \<Rightarrow> Some (set_thread i (Pushing item) s) | _ \<Rightarrow> None
      else None)"
| "ring_next s (CallPop i) =
     (if i < length (rb_threads s) then
        case rb_threads s ! i of Resting \<Rightarrow> Some (set_thread i Popping s) | _ \<Rightarrow> None
      else None)"
| "ring_next s (Proceeds i spurious) =
     (if i < length (rb_threads s) then thread_step i spurious (rb_threads s ! i) s else None)"

definition ring_step :: "'a ring \<Rightarrow> 'a ring_event \<Rightarrow> 'a ring \<Rightarrow> bool" where
  "ring_step s e t \<longleftrightarrow> ring_next s e = Some t"

text \<open>Buffers with room for two items or more.\<close>

definition ring_starts :: "'a ring \<Rightarrow> bool" where
  "ring_starts s \<longleftrightarrow> (\<exists>n. 2 \<le> n \<and> s = RingBuffer n)"

section \<open>Sizes and indexes\<close>

lemma bit_ceil_from_power: "\<exists>k. p = 2 ^ k \<Longrightarrow> (\<exists>k. bit_ceil_from p n = 2 ^ k) \<and> n \<le> bit_ceil_from p n \<and> p \<le> bit_ceil_from p n"
proof (induction p n rule: bit_ceil_from.induct)
  case (1 p n)
  show ?case
  proof (cases "p = 0 \<or> n \<le> p")
    case True
    with "1.prems" show ?thesis by (auto simp: bit_ceil_from.simps [of p n])
  next
    case False
    from "1.prems" have "\<exists>k. 2 * p = 2 ^ k" by (metis power_Suc)
    from "1.IH" [OF False this] False show ?thesis by (simp add: bit_ceil_from.simps [of p n])
  qed
qed

lemma bit_ceil_power: "\<exists>k. bit_ceil n = 2 ^ k" and bit_ceil_ge: "n \<le> bit_ceil n"
  using bit_ceil_from_power [of 1 n] unfolding bit_ceil_def by (metis power_0)+

definition size_ok :: "'a ring \<Rightarrow> bool" where
  "size_ok s \<longleftrightarrow> 2 \<le> rb_size s \<and> (\<exists>k. rb_size s = 2 ^ k) \<and> length (rb_data s) = rb_size s \<and> length (rb_seq s) = rb_size s"

lemma slot_of_mod: "size_ok s \<Longrightarrow> slot_of s pos = pos mod rb_size s"
  unfolding slot_of_def size_ok_def by (metis mask_eq_exp_minus_1 take_bit_eq_mask take_bit_eq_mod)

lemma slot_of_less: "size_ok s \<Longrightarrow> slot_of s pos < length (rb_seq s)" "size_ok s \<Longrightarrow> slot_of s pos < length (rb_data s)"
  by (simp_all add: slot_of_mod) (simp_all add: size_ok_def)

section \<open>The invariant\<close>

fun producer_pos :: "'a thread \<Rightarrow> nat option" where
  "producer_pos (Claimed p x) = Some p"
| "producer_pos (Writing p x) = Some p"
| "producer_pos (Publishing p) = Some p"
| "producer_pos th = None"

fun consumer_pos :: "'a thread \<Rightarrow> nat option" where
  "consumer_pos (PopTaken p) = Some p"
| "consumer_pos (PopRead p x) = Some p"
| "consumer_pos th = None"

abbreviation seq_at :: "'a ring \<Rightarrow> nat \<Rightarrow> nat" where
  "seq_at s p \<equiv> rb_seq s ! (p mod rb_size s)"

abbreviation data_at :: "'a ring \<Rightarrow> nat \<Rightarrow> 'a option" where
  "data_at s p \<equiv> rb_data s ! (p mod rb_size s)"

fun thread_inv :: "'a ring \<Rightarrow> 'a thread \<Rightarrow> bool" where
  "thread_inv s (Claimed p x) \<longleftrightarrow> p < rb_head s \<and> rb_items s ! p = x \<and> seq_at s p \<le> p"
| "thread_inv s (Writing p x) \<longleftrightarrow> p < rb_head s \<and> rb_items s ! p = x \<and> seq_at s p = p"
| "thread_inv s (Publishing p) \<longleftrightarrow> p < rb_head s \<and> seq_at s p = p \<and> data_at s p = Some (rb_items s ! p)"
| "thread_inv s (PopLoaded p) \<longleftrightarrow> p \<le> rb_tail s"
| "thread_inv s (PopReady p) \<longleftrightarrow> p \<le> rb_tail s \<and> (p < rb_tail s \<or> seq_at s p = Suc p)"
| "thread_inv s (PopTaken p) \<longleftrightarrow> p < rb_tail s \<and> seq_at s p = Suc p"
| "thread_inv s (PopRead p x) \<longleftrightarrow> p < rb_tail s \<and> seq_at s p = Suc p \<and> rb_items s ! p = x"
| "thread_inv s th \<longleftrightarrow> True"

text \<open>Nobody else works on a position.\<close>

definition exclusive :: "('a thread \<Rightarrow> nat option) \<Rightarrow> 'a thread list \<Rightarrow> bool" where
  "exclusive pos ths \<longleftrightarrow>
     (\<forall>i < length ths. \<forall>j < length ths. \<forall>p. pos (ths ! i) = Some p \<longrightarrow> pos (ths ! j) = Some p \<longrightarrow> i = j)"

definition held :: "('a thread \<Rightarrow> nat option) \<Rightarrow> 'a thread list \<Rightarrow> nat \<Rightarrow> bool" where
  "held pos ths p \<longleftrightarrow> (\<exists>j < length ths. pos (ths ! j) = Some p)"

text \<open>A slot is free for the position its sequence names, or full with the item of the one before.\<close>

definition slot_free :: "'a ring \<Rightarrow> nat \<Rightarrow> bool" where
  "slot_free s i \<longleftrightarrow> rb_seq s ! i mod rb_size s = i \<and> rb_tail s \<le> rb_seq s ! i \<and> rb_seq s ! i < rb_head s + rb_size s"

definition slot_full :: "'a ring \<Rightarrow> nat \<Rightarrow> nat \<Rightarrow> bool" where
  "slot_full s i p \<longleftrightarrow> rb_seq s ! i = Suc p \<and> p mod rb_size s = i \<and> p < rb_head s \<and> rb_tail s \<le> p + rb_size s
     \<and> rb_data s ! i = Some (rb_items s ! p) \<and> (rb_tail s \<le> p \<or> held consumer_pos (rb_threads s) p)"

definition ring_inv :: "'a ring \<Rightarrow> bool" where
  "ring_inv s \<longleftrightarrow> size_ok s \<and> rb_head s = length (rb_items s) \<and> rb_tail s \<le> rb_head s
   \<and> exclusive producer_pos (rb_threads s) \<and> exclusive consumer_pos (rb_threads s)
   \<and> (\<forall>i < rb_size s. slot_free s i \<or> (\<exists>p. slot_full s i p))
   \<and> (\<forall>p < rb_head s. seq_at s p \<le> p \<longrightarrow> held producer_pos (rb_threads s) p)
   \<and> (\<forall>th \<in> set (rb_threads s). thread_inv s th)
   \<and> distinct (map fst (rb_popped s))
   \<and> (\<forall>(p, x) \<in> set (rb_popped s). p < rb_tail s \<and> rb_items s ! p = x \<and> Suc p < seq_at s p)"

lemma ring_invD:
  assumes "ring_inv s"
  shows "size_ok s" and "rb_head s = length (rb_items s)" and "rb_tail s \<le> rb_head s"
    and "exclusive producer_pos (rb_threads s)" and "exclusive consumer_pos (rb_threads s)"
    and "i < rb_size s \<Longrightarrow> slot_free s i \<or> (\<exists>p. slot_full s i p)"
    and "p < rb_head s \<Longrightarrow> seq_at s p \<le> p \<Longrightarrow> held producer_pos (rb_threads s) p"
    and "i < length (rb_threads s) \<Longrightarrow> thread_inv s (rb_threads s ! i)"
    and "distinct (map fst (rb_popped s))"
    and "(p, x) \<in> set (rb_popped s) \<Longrightarrow> p < rb_tail s \<and> rb_items s ! p = x \<and> Suc p < seq_at s p"
  using assms unfolding ring_inv_def by (auto dest: nth_mem)

lemma exclusive_update:
  assumes "exclusive pos ths" and "\<And>p. pos th = Some p \<Longrightarrow> pos (ths ! i) = Some p \<or> \<not> held pos ths p"
  shows "exclusive pos (ths[i := th])"
proof -
  have other: "j = i" if "pos th = Some p" "j < length ths" "pos (ths ! j) = Some p" "i < length ths" for j p
  proof -
    have "held pos ths p" using that(2,3) by (auto simp: held_def)
    with assms(2) [OF that(1)] have "pos (ths ! i) = Some p" by simp
    with assms(1) that(2,3,4) show ?thesis unfolding exclusive_def by blast
  qed
  show ?thesis
    unfolding exclusive_def
  proof (intro allI impI)
    fix a b p
    assume ab: "a < length (ths[i := th])" "b < length (ths[i := th])"
      "pos (ths[i := th] ! a) = Some p" "pos (ths[i := th] ! b) = Some p"
    show "a = b"
    proof (cases "a = i")
      case True
      with ab(1,3) have th: "pos th = Some p" "i < length ths" by simp_all
      show ?thesis
      proof (rule ccontr)
        assume "a \<noteq> b"
        with True ab(2,4) have "b < length ths" "pos (ths ! b) = Some p" by simp_all
        from other [OF th(1) this th(2)] True \<open>a \<noteq> b\<close> show False by simp
      qed
    next
      case False
      with ab(1,3) have a: "a < length ths" "pos (ths ! a) = Some p" by simp_all
      show ?thesis
      proof (cases "b = i")
        case True
        with ab(2,4) have "pos th = Some p" "i < length ths" by simp_all
        from other [OF this(1) a this(2)] False show ?thesis by simp
      next
        case b: False
        with ab(2,4) have "b < length ths" "pos (ths ! b) = Some p" by simp_all
        with a assms(1) show ?thesis unfolding exclusive_def by blast
      qed
    qed
  qed
qed

lemma held_update:
  assumes "i < length ths"
  shows "held pos (ths[i := th]) p \<longleftrightarrow> pos th = Some p \<or> (\<exists>j < length ths. j \<noteq> i \<and> pos (ths ! j) = Some p)"
  using assms by (auto simp: held_def nth_list_update)

lemma held_gain:
  assumes "i < length ths" and "pos (ths ! i) = None" and "pos th = Some q"
  shows "held pos (ths[i := th]) p \<longleftrightarrow> p = q \<or> held pos ths p"
proof -
  have "(\<exists>j < length ths. j \<noteq> i \<and> pos (ths ! j) = Some p) \<longleftrightarrow> held pos ths p"
    using assms(2) by (auto simp: held_def)
  with assms(3) show ?thesis by (auto simp: held_update [OF assms(1)])
qed

lemma held_loss:
  assumes "i < length ths" and "exclusive pos ths" and "pos (ths ! i) = Some q" and "pos th = None"
  shows "held pos (ths[i := th]) p \<longleftrightarrow> p \<noteq> q \<and> held pos ths p"
proof -
  have "(\<exists>j < length ths. j \<noteq> i \<and> pos (ths ! j) = Some p) \<longleftrightarrow> p \<noteq> q \<and> held pos ths p"
    using assms(1-3) unfolding held_def exclusive_def by (metis option.inject)
  with assms(4) show ?thesis by (simp add: held_update [OF assms(1)])
qed

lemma held_same_pos: "pos th = pos (ths ! i) \<Longrightarrow> held pos (ths[i := th]) p = held pos ths p"
  by (cases "i < length ths") (auto simp: held_def nth_list_update)

lemma set_thread_fields [simp]:
  "rb_size (set_thread i th s) = rb_size s" "rb_data (set_thread i th s) = rb_data s"
  "rb_seq (set_thread i th s) = rb_seq s" "rb_head (set_thread i th s) = rb_head s"
  "rb_tail (set_thread i th s) = rb_tail s" "rb_threads (set_thread i th s) = (rb_threads s)[i := th]"
  "rb_items (set_thread i th s) = rb_items s" "rb_popped (set_thread i th s) = rb_popped s"
  by (simp_all add: set_thread_def)

lemma thread_inv_set_thread [simp]: "thread_inv (set_thread i th' s) th = thread_inv s th"
  by (cases th) simp_all

text \<open>A step of a thread that takes, keeps or gives up no position.\<close>

lemma thread_only_inv:
  assumes "ring_inv s" and "i < length (rb_threads s)" and "thread_inv s th"
    and "producer_pos th = producer_pos (rb_threads s ! i)" and "consumer_pos th = consumer_pos (rb_threads s ! i)"
  shows "ring_inv (set_thread i th s)"
proof -
  note inv = ring_invD [OF assms(1)]
  have "exclusive producer_pos ((rb_threads s)[i := th])" "exclusive consumer_pos ((rb_threads s)[i := th])"
    using inv(4,5) assms(4,5) by (auto intro!: exclusive_update)
  moreover have "slot_free (set_thread i th s) k = slot_free s k" "slot_full (set_thread i th s) k p = slot_full s k p" for k p
    by (simp_all add: slot_free_def slot_full_def held_same_pos [OF assms(5)])
  moreover have "size_ok (set_thread i th s)" using inv(1) by (simp add: size_ok_def)
  moreover have "\<forall>th' \<in> set ((rb_threads s)[i := th]). thread_inv s th'"
    using assms(1,3) by (auto simp: ring_inv_def dest!: set_update_subset_insert [THEN subsetD])
  ultimately show ?thesis
    using assms(1) by (auto simp: ring_inv_def held_same_pos [OF assms(4)])
qed

section \<open>Positions of one slot\<close>

lemma same_slot_distance:
  fixes p q n :: nat
  assumes "p < q" and "p mod n = q mod n"
  shows "p + n \<le> q"
proof -
  have "n dvd q - p" using assms by (metis less_imp_le mod_eq_dvd_iff_nat)
  with assms(1) have "n \<le> q - p" by (intro dvd_imp_le) auto
  with assms(1) show ?thesis by simp
qed

lemma next_slot_differs:
  fixes n :: nat
  assumes "2 \<le> n"
  shows "Suc p mod n \<noteq> p mod n"
  using same_slot_distance [of p "Suc p" n] assms by fastforce

lemma slot_state_unique:
  assumes "size_ok s" and "slot_full s i q"
  shows "\<not> slot_free s i"
  using assms next_slot_differs [of "rb_size s" q] by (auto simp: slot_full_def slot_free_def size_ok_def)

lemma slot_of_position:
  assumes "ring_inv s"
  shows "seq_at s p = p \<Longrightarrow> slot_free s (p mod rb_size s)"
    and "seq_at s p = Suc p \<Longrightarrow> slot_full s (p mod rb_size s) p"
proof -
  have size: "2 \<le> rb_size s" using ring_invD(1) [OF assms] by (simp add: size_ok_def)
  have "p mod rb_size s < rb_size s" using size by simp
  from ring_invD(6) [OF assms this]
  have cases: "slot_free s (p mod rb_size s) \<or> (\<exists>q. slot_full s (p mod rb_size s) q)" .
  show "slot_free s (p mod rb_size s)" if "seq_at s p = p"
  proof -
    have "\<not> slot_full s (p mod rb_size s) q" for q
      using that next_slot_differs [OF size, of q] by (auto simp: slot_full_def)
    with cases show ?thesis by blast
  qed
  show "slot_full s (p mod rb_size s) p" if "seq_at s p = Suc p"
  proof -
    have "\<not> slot_free s (p mod rb_size s)" using that next_slot_differs [OF size, of p] by (auto simp: slot_free_def)
    with cases that show ?thesis by (auto simp: slot_full_def)
  qed
qed

lemma held_producer_bound:
  assumes "ring_inv s" and "held producer_pos (rb_threads s) p"
  shows "p < rb_head s"
proof -
  from assms(2) obtain j where j: "j < length (rb_threads s)" "producer_pos (rb_threads s ! j) = Some p"
    by (auto simp: held_def)
  from ring_invD(8) [OF assms(1) j(1)] j(2) show ?thesis by (cases "rb_threads s ! j") auto
qed

lemma held_consumer_bound:
  assumes "ring_inv s" and "held consumer_pos (rb_threads s) p"
  shows "p < rb_tail s"
proof -
  from assms(2) obtain j where j: "j < length (rb_threads s)" "consumer_pos (rb_threads s ! j) = Some p"
    by (auto simp: held_def)
  from ring_invD(8) [OF assms(1) j(1)] j(2) show ?thesis by (cases "rb_threads s ! j") auto
qed

text \<open>The invariant of a state reached by changing one thread, from the parts that matter.\<close>

lemma ring_invI:
  assumes "size_ok s" and "rb_head s = length (rb_items s)" and "rb_tail s \<le> rb_head s"
    and "exclusive producer_pos (rb_threads s)" and "exclusive consumer_pos (rb_threads s)"
    and "\<And>i. i < rb_size s \<Longrightarrow> slot_free s i \<or> (\<exists>p. slot_full s i p)"
    and "\<And>p. p < rb_head s \<Longrightarrow> seq_at s p \<le> p \<Longrightarrow> held producer_pos (rb_threads s) p"
    and "\<And>j. j < length (rb_threads s) \<Longrightarrow> thread_inv s (rb_threads s ! j)"
    and "distinct (map fst (rb_popped s))"
    and "\<And>p x. (p, x) \<in> set (rb_popped s) \<Longrightarrow> p < rb_tail s \<and> rb_items s ! p = x \<and> Suc p < seq_at s p"
  shows "ring_inv s"
  using assms unfolding ring_inv_def by (auto simp: in_set_conv_nth)

lemma push_claim_inv:
  assumes "ring_inv s" and "i < length (rb_threads s)" and "rb_threads s ! i = Pushing x"
  shows "ring_inv (push_claim i x s)" (is "ring_inv ?t")
proof -
  note inv = ring_invD [OF assms(1)]
  let ?h = "rb_head s" and ?n = "rb_size s" and ?ths = "(rb_threads s)[i := Claimed (rb_head s) x]"
  have t: "rb_size ?t = ?n" "rb_data ?t = rb_data s" "rb_seq ?t = rb_seq s" "rb_head ?t = Suc ?h" "rb_tail ?t = rb_tail s"
    "rb_threads ?t = ?ths" "rb_items ?t = rb_items s @ [x]" "rb_popped ?t = rb_popped s"
    by (simp_all add: push_claim_def)
  have items: "(rb_items s @ [x]) ! p = rb_items s ! p" if "p < ?h" for p
    using that inv(2) by (simp add: nth_append)
  have newitem: "(rb_items s @ [x]) ! ?h = x" using inv(2) by simp
  have pos: "0 < ?n" using inv(1) by (simp add: size_ok_def)
  have below: "seq_at s ?h \<le> ?h"
  proof -
    have "?h mod ?n < ?n" using pos by simp
    from inv(6) [OF this] show ?thesis
    proof
      assume free: "slot_free s (?h mod ?n)"
      show ?thesis
      proof (rule ccontr)
        assume "\<not> ?thesis"
        with free same_slot_distance [of ?h "seq_at s ?h" ?n] show False by (auto simp: slot_free_def)
      qed
    next
      assume "\<exists>p. slot_full s (?h mod ?n) p"
      then show ?thesis by (auto simp: slot_full_def)
    qed
  qed
  have held_p: "held producer_pos ?ths p \<longleftrightarrow> p = ?h \<or> held producer_pos (rb_threads s) p" for p
    using assms(2,3) by (intro held_gain) simp_all
  have held_c: "held consumer_pos ?ths p = held consumer_pos (rb_threads s) p" for p
    by (rule held_same_pos) (simp add: assms(3))
  show ?thesis
  proof (rule ring_invI, unfold t)
    show "exclusive producer_pos ?ths"
      using inv(4) held_producer_bound [OF assms(1)] by (intro exclusive_update) auto
    show "exclusive consumer_pos ?ths" using inv(5) by (intro exclusive_update) auto
    show "slot_free ?t k \<or> (\<exists>p. slot_full ?t k p)" if "k < ?n" for k
      using inv(6) [OF that] items by (auto simp: slot_free_def slot_full_def t held_c)
    show "held producer_pos ?ths p" if "p < Suc ?h" "rb_seq s ! (p mod ?n) \<le> p" for p
      using that inv(7) [of p] by (cases "p = ?h") (auto simp: held_p)
    show "thread_inv ?t (?ths ! j)" if "j < length ?ths" for j
    proof (cases "j = i")
      case True
      with that below newitem show ?thesis by (simp add: t)
    next
      case False
      with that inv(8) [of j] items inv(3) show ?thesis
        by (cases "rb_threads s ! j") (auto simp: t)
    qed
    show "p < rb_tail s \<and> (rb_items s @ [x]) ! p = y \<and> Suc p < rb_seq s ! (p mod ?n)"
      if "(p, y) \<in> set (rb_popped s)" for p y
      using inv(10) [OF that] inv(3) items by auto
  qed (use inv in \<open>auto simp: size_ok_def t\<close>)
qed

lemma push_write_inv:
  assumes "ring_inv s" and "i < length (rb_threads s)" and "rb_threads s ! i = Writing p x"
  shows "ring_inv (push_write i p x s)" (is "ring_inv ?t")
proof -
  note inv = ring_invD [OF assms(1)]
  let ?n = "rb_size s" and ?ths = "(rb_threads s)[i := Publishing p]" and ?d = "(rb_data s)[p mod rb_size s := Some x]"
  have t: "rb_size ?t = ?n" "rb_data ?t = ?d" "rb_seq ?t = rb_seq s" "rb_head ?t = rb_head s" "rb_tail ?t = rb_tail s"
    "rb_threads ?t = ?ths" "rb_items ?t = rb_items s" "rb_popped ?t = rb_popped s"
    by (simp_all add: push_write_def slot_of_mod [OF inv(1)])
  have p: "p < rb_head s" "rb_items s ! p = x" "seq_at s p = p" using inv(8) [OF assms(2)] assms(3) by simp_all
  have len: "length (rb_data s) = ?n" "0 < ?n" using inv(1) by (auto simp: size_ok_def)
  have free: "slot_free s (p mod ?n)" by (rule slot_of_position(1) [OF assms(1) p(3)])
  have held: "held producer_pos ?ths q = held producer_pos (rb_threads s) q"
    "held consumer_pos ?ths q = held consumer_pos (rb_threads s) q" for q
    by (rule held_same_pos, simp add: assms(3))+
  have data: "?d ! k = (if k = p mod ?n then Some x else rb_data s ! k)" if "k < ?n" for k
    using that len by (simp add: nth_list_update)
  have data_mod: "?d ! (q mod ?n) = (if q mod ?n = p mod ?n then Some x else data_at s q)" for q
    using data len by simp
  show ?thesis
  proof (rule ring_invI, unfold t)
    show "exclusive producer_pos ?ths" "exclusive consumer_pos ?ths"
      using inv(4,5) assms(3) by (auto intro!: exclusive_update)
    show "slot_free ?t k \<or> (\<exists>q. slot_full ?t k q)" if "k < ?n" for k
    proof (cases "k = p mod ?n")
      case True
      with free show ?thesis by (simp add: slot_free_def t)
    next
      case False
      with inv(6) [OF that] data [OF that] show ?thesis by (auto simp: slot_free_def slot_full_def t held)
    qed
    show "held producer_pos ?ths q" if "q < rb_head s" "rb_seq s ! (q mod ?n) \<le> q" for q
      using inv(7) [OF that] by (simp add: held)
    show "thread_inv ?t (?ths ! j)" if "j < length ?ths" for j
    proof (cases "j = i")
      case True
      with that p show ?thesis by (simp add: t data_mod)
    next
      case False
      have j: "thread_inv s (rb_threads s ! j)" using that inv(8) by simp
      show ?thesis
      proof (cases "rb_threads s ! j")
        case (Publishing q)
        with j have q: "q < rb_head s" "seq_at s q = q" "data_at s q = Some (rb_items s ! q)" by simp_all
        have "q = p" if "q mod ?n = p mod ?n" using that q(2) p(3) by metis
        with q p(2) show ?thesis using False Publishing by (cases "q mod ?n = p mod ?n") (simp_all add: t data_mod)
      qed (use False j in \<open>simp_all add: t\<close>)
    qed
  qed (use inv in \<open>auto simp: size_ok_def t\<close>)
qed

lemma push_publish_inv:
  assumes "ring_inv s" and "i < length (rb_threads s)" and "rb_threads s ! i = Publishing p"
  shows "ring_inv (push_publish i p s)" (is "ring_inv ?t")
proof -
  note inv = ring_invD [OF assms(1)]
  let ?n = "rb_size s" and ?ths = "(rb_threads s)[i := Resting]" and ?q = "(rb_seq s)[p mod rb_size s := Suc p]"
  have t: "rb_size ?t = ?n" "rb_data ?t = rb_data s" "rb_seq ?t = ?q" "rb_head ?t = rb_head s" "rb_tail ?t = rb_tail s"
    "rb_threads ?t = ?ths" "rb_items ?t = rb_items s" "rb_popped ?t = rb_popped s"
    by (simp_all add: push_publish_def slot_of_mod [OF inv(1)])
  have p: "p < rb_head s" "seq_at s p = p" "data_at s p = Some (rb_items s ! p)"
    using inv(8) [OF assms(2)] assms(3) by simp_all
  have size: "length (rb_seq s) = ?n" "2 \<le> ?n" "0 < ?n" using inv(1) by (auto simp: size_ok_def)
  have free: "slot_free s (p mod ?n)" by (rule slot_of_position(1) [OF assms(1) p(2)])
  have heldp: "held producer_pos ?ths q \<longleftrightarrow> q \<noteq> p \<and> held producer_pos (rb_threads s) q" for q
    using assms(2,3) inv(4) by (intro held_loss) simp_all
  have heldc: "held consumer_pos ?ths q = held consumer_pos (rb_threads s) q" for q
    by (rule held_same_pos) (simp add: assms(3))
  have seq: "?q ! k = (if k = p mod ?n then Suc p else rb_seq s ! k)" if "k < ?n" for k
    using that size by (simp add: nth_list_update)
  have seq_mod: "?q ! (q mod ?n) = (if q mod ?n = p mod ?n then Suc p else seq_at s q)" for q
    using seq size by simp
  have other: "q \<noteq> p" if "j < length (rb_threads s)" "j \<noteq> i" "producer_pos (rb_threads s ! j) = Some q" for j q
    using inv(4) assms(2,3) that unfolding exclusive_def by (metis producer_pos.simps(3))
  show ?thesis
  proof (rule ring_invI, unfold t)
    show "exclusive producer_pos ?ths" "exclusive consumer_pos ?ths"
      using inv(4,5) assms(3) by (auto intro!: exclusive_update)
    show "slot_free ?t k \<or> (\<exists>q. slot_full ?t k q)" if "k < ?n" for k
    proof (cases "k = p mod ?n")
      case True
      with free p seq [OF that] have "slot_full ?t k p" by (auto simp: slot_free_def slot_full_def t)
      then show ?thesis by blast
    next
      case False
      with inv(6) [OF that] seq [OF that] show ?thesis by (auto simp: slot_free_def slot_full_def t heldc)
    qed
    show "held producer_pos ?ths q" if "q < rb_head s" "?q ! (q mod ?n) \<le> q" for q
    proof -
      have "q \<noteq> p" "seq_at s q \<le> q" using that seq [of "q mod ?n"] size p(2) by (auto split: if_splits)
      with inv(7) [OF that(1)] show ?thesis by (simp add: heldp)
    qed
    show "thread_inv ?t (?ths ! j)" if "j < length ?ths" for j
    proof (cases "j = i")
      case True
      with that show ?thesis by simp
    next
      case False
      have j: "j < length (rb_threads s)" "thread_inv s (rb_threads s ! j)" using that inv(8) by simp_all
      have clash: "p \<noteq> Suc q" if "q mod ?n = p mod ?n" for q using next_slot_differs [OF size(2), of q] that by metis
      show ?thesis
      proof (cases "rb_threads s ! j")
        case (Claimed q x)
        with other [OF j(1) False] j(2) p(2) show ?thesis using False by (auto simp: t seq_mod)
      next
        case (Writing q x)
        with other [OF j(1) False] j(2) p(2) show ?thesis using False by (auto simp: t seq_mod)
      next
        case (Publishing q)
        with other [OF j(1) False] j(2) p(2) show ?thesis using False by (auto simp: t seq_mod)
      next
        case (PopReady q)
        with clash [of q] j(2) p(2) show ?thesis using False by (auto simp: t seq_mod)
      next
        case (PopTaken q)
        with clash [of q] j(2) p(2) show ?thesis using False by (auto simp: t seq_mod)
      next
        case (PopRead q x)
        with clash [of q] j(2) p(2) show ?thesis using False by (auto simp: t seq_mod)
      qed (use False j in \<open>simp_all add: t\<close>)
    qed
    show "q < rb_tail s \<and> rb_items s ! q = y \<and> Suc q < ?q ! (q mod ?n)" if "(q, y) \<in> set (rb_popped s)" for q y
      using inv(10) [OF that] seq [of "q mod ?n"] size p(2) by auto
  qed (use inv in \<open>auto simp: size_ok_def t\<close>)
qed

text \<open>The step that advances the tail makes the thread the only consumer of its position.\<close>

lemma pop_taken_inv:
  assumes "ring_inv s" and "i < length (rb_threads s)" and "rb_threads s ! i = PopReady p" and "rb_tail s = p"
  shows "ring_inv (set_thread i (PopTaken p) (s\<lparr>rb_tail := p + 1\<rparr>))" (is "ring_inv ?t")
proof -
  note inv = ring_invD [OF assms(1)]
  let ?n = "rb_size s" and ?ths = "(rb_threads s)[i := PopTaken p]"
  have t: "rb_size ?t = ?n" "rb_data ?t = rb_data s" "rb_seq ?t = rb_seq s" "rb_head ?t = rb_head s" "rb_tail ?t = Suc p"
    "rb_threads ?t = ?ths" "rb_items ?t = rb_items s" "rb_popped ?t = rb_popped s"
    by simp_all
  have seq: "seq_at s p = Suc p" using inv(8) [OF assms(2)] assms(3,4) by simp
  have full: "slot_full s (p mod ?n) p" by (rule slot_of_position(2) [OF assms(1) seq])
  then have head: "p < rb_head s" by (simp add: slot_full_def)
  have heldp: "held producer_pos ?ths q = held producer_pos (rb_threads s) q" for q
    by (rule held_same_pos) (simp add: assms(3))
  have heldc: "held consumer_pos ?ths q \<longleftrightarrow> q = p \<or> held consumer_pos (rb_threads s) q" for q
    using assms(2,3) by (intro held_gain) simp_all
  have notheld: "\<not> held consumer_pos (rb_threads s) p" using held_consumer_bound [OF assms(1), of p] assms(4) by auto
  show ?thesis
  proof (rule ring_invI, unfold t)
    show "exclusive producer_pos ?ths" using inv(4) assms(3) by (auto intro!: exclusive_update)
    show "exclusive consumer_pos ?ths" using inv(5) notheld by (auto intro!: exclusive_update)
    show "slot_free ?t k \<or> (\<exists>q. slot_full ?t k q)" if "k < ?n" for k
      using inv(6) [OF that]
    proof
      assume free: "slot_free s k"
      then have "rb_seq s ! k \<noteq> p" using seq by (auto simp: slot_free_def)
      with free assms(4) have "slot_free ?t k" by (auto simp: slot_free_def)
      then show ?thesis ..
    next
      assume "\<exists>q. slot_full s k q"
      then obtain q where q: "slot_full s k q" ..
      have "q + ?n \<noteq> p"
      proof
        assume eq: "q + ?n = p"
        with q have "k = p mod ?n" "rb_seq s ! k = Suc q" by (auto simp: slot_full_def)
        with seq eq that show False by simp
      qed
      with q assms(4) have "slot_full ?t k q" by (auto simp: slot_full_def heldc)
      then show ?thesis by blast
    qed
    show "held producer_pos ?ths q" if "q < rb_head s" "seq_at s q \<le> q" for q
      using inv(7) [OF that] by (simp add: heldp)
    show "thread_inv ?t (?ths ! j)" if "j < length ?ths" for j
    proof (cases "j = i")
      case True
      with that seq show ?thesis by simp
    next
      case False
      have "thread_inv s (rb_threads s ! j)" using that inv(8) by simp
      with False assms(4) show ?thesis by (cases "rb_threads s ! j") auto
    qed
    show "q < Suc p \<and> rb_items s ! q = y \<and> Suc q < seq_at s q" if "(q, y) \<in> set (rb_popped s)" for q y
      using inv(10) [OF that] assms(4) by auto
  qed (use inv head in \<open>auto simp: size_ok_def\<close>)
qed

lemma pop_release_inv:
  assumes "ring_inv s" and "i < length (rb_threads s)" and "rb_threads s ! i = PopRead p x"
  shows "ring_inv (pop_release i p x s)" (is "ring_inv ?t")
proof -
  note inv = ring_invD [OF assms(1)]
  let ?n = "rb_size s" and ?ths = "(rb_threads s)[i := Resting]" and ?q = "(rb_seq s)[p mod rb_size s := p + rb_size s]"
  have t: "rb_size ?t = ?n" "rb_data ?t = rb_data s" "rb_seq ?t = ?q" "rb_head ?t = rb_head s" "rb_tail ?t = rb_tail s"
    "rb_threads ?t = ?ths" "rb_items ?t = rb_items s" "rb_popped ?t = rb_popped s @ [(p, x)]"
    by (simp_all add: pop_release_def slot_of_mod [OF inv(1)])
  have p: "p < rb_tail s" "seq_at s p = Suc p" "rb_items s ! p = x" using inv(8) [OF assms(2)] assms(3) by simp_all
  have size: "length (rb_seq s) = ?n" "2 \<le> ?n" "0 < ?n" using inv(1) by (auto simp: size_ok_def)
  have full: "slot_full s (p mod ?n) p" by (rule slot_of_position(2) [OF assms(1) p(2)])
  have heldp: "held producer_pos ?ths q = held producer_pos (rb_threads s) q" for q
    by (rule held_same_pos) (simp add: assms(3))
  have heldc: "held consumer_pos ?ths q \<longleftrightarrow> q \<noteq> p \<and> held consumer_pos (rb_threads s) q" for q
    using assms(2,3) inv(5) by (intro held_loss) simp_all
  have seq: "?q ! k = (if k = p mod ?n then p + ?n else rb_seq s ! k)" if "k < ?n" for k
    using that size by (simp add: nth_list_update)
  have seq_mod: "?q ! (q mod ?n) = (if q mod ?n = p mod ?n then p + ?n else seq_at s q)" for q
    using seq size by simp
  have other: "q \<noteq> p" if "j < length (rb_threads s)" "j \<noteq> i" "consumer_pos (rb_threads s ! j) = Some q" for j q
    using inv(5) assms(2,3) that unfolding exclusive_def by (metis consumer_pos.simps(2))
  have later: "p + ?n \<le> q" if "q mod ?n = p mod ?n" "seq_at s q \<le> q" for q
    using that p(2) same_slot_distance [of p q ?n] by simp
  have clash: "Suc p \<noteq> q" if "q mod ?n = p mod ?n" for q using next_slot_differs [OF size(2), of p] that by metis
  show ?thesis
  proof (rule ring_invI, unfold t)
    show "exclusive producer_pos ?ths" "exclusive consumer_pos ?ths"
      using inv(4,5) assms(3) by (auto intro!: exclusive_update)
    show "slot_free ?t k \<or> (\<exists>q. slot_full ?t k q)" if "k < ?n" for k
    proof (cases "k = p mod ?n")
      case True
      with full seq [OF that] have "slot_free ?t k" by (auto simp: slot_free_def slot_full_def t)
      then show ?thesis ..
    next
      case False
      from inv(6) [OF that] show ?thesis
      proof
        assume "slot_free s k"
        with False seq [OF that] have "slot_free ?t k" by (simp add: slot_free_def t)
        then show ?thesis ..
      next
        assume "\<exists>q. slot_full s k q"
        then obtain q where q: "slot_full s k q" ..
        with False size have "q \<noteq> p" by (auto simp: slot_full_def)
        with q False seq [OF that] have "slot_full ?t k q" by (auto simp: slot_full_def t heldc)
        then show ?thesis by blast
      qed
    qed
    show "held producer_pos ?ths q" if "q < rb_head s" "?q ! (q mod ?n) \<le> q" for q
    proof -
      have "seq_at s q \<le> q" using that p(2) size(3) seq_mod [of q] by (auto split: if_splits)
      with inv(7) [OF that(1)] show ?thesis by (simp add: heldp)
    qed
    show "thread_inv ?t (?ths ! j)" if "j < length ?ths" for j
    proof (cases "j = i")
      case True
      with that show ?thesis by simp
    next
      case False
      have j: "j < length (rb_threads s)" "thread_inv s (rb_threads s ! j)" using that inv(8) by simp_all
      show ?thesis
      proof (cases "rb_threads s ! j")
        case (Claimed q y)
        with j(2) later [of q] show ?thesis using False by (auto simp: t seq_mod)
      next
        case (Writing q y)
        with j(2) have q: "seq_at s q = q" by simp
        with clash [of q] p(2) have "q mod ?n \<noteq> p mod ?n" by metis
        with j(2) show ?thesis using False Writing by (simp add: t seq_mod)
      next
        case (Publishing q)
        with j(2) have q: "seq_at s q = q" by simp
        with clash [of q] p(2) have "q mod ?n \<noteq> p mod ?n" by metis
        with j(2) show ?thesis using False Publishing by (simp add: t seq_mod)
      next
        case (PopReady q)
        with j(2) have q: "q \<le> rb_tail s" "q < rb_tail s \<or> seq_at s q = Suc q" by simp_all
        have "q < rb_tail s" if "q mod ?n = p mod ?n" using that q(2) p(1,2) by (metis Suc_inject)
        with q show ?thesis using False PopReady by (cases "q mod ?n = p mod ?n") (simp_all add: t seq_mod)
      next
        case (PopTaken q)
        with other [OF j(1) False] j(2) have q: "q \<noteq> p" "seq_at s q = Suc q" by simp_all
        then have "q mod ?n \<noteq> p mod ?n" using p(2) by (metis Suc_inject)
        with j(2) show ?thesis using False PopTaken by (simp add: t seq_mod)
      next
        case (PopRead q y)
        with other [OF j(1) False] j(2) have q: "q \<noteq> p" "seq_at s q = Suc q" by simp_all
        then have "q mod ?n \<noteq> p mod ?n" using p(2) by (metis Suc_inject)
        with j(2) show ?thesis using False PopRead by (simp add: t seq_mod)
      qed (use False j in \<open>simp_all add: t\<close>)
    qed
    show "distinct (map fst (rb_popped s @ [(p, x)]))" using inv(9,10) p(2) by fastforce
    show "q < rb_tail s \<and> rb_items s ! q = y \<and> Suc q < ?q ! (q mod ?n)" if "(q, y) \<in> set (rb_popped s @ [(p, x)])" for q y
    proof (cases "(q, y) \<in> set (rb_popped s)")
      case True
      with inv(10) [OF True] p(2) size(2) show ?thesis by (auto simp: seq_mod)
    next
      case False
      with that p size(2) show ?thesis by (simp add: seq_mod)
    qed
  qed (use inv in \<open>auto simp: size_ok_def t\<close>)
qed

section \<open>Every step keeps the invariant\<close>

lemma pop_exchange_inv:
  assumes "ring_inv s" and "i < length (rb_threads s)" and "rb_threads s ! i = PopReady p"
  shows "ring_inv (pop_exchange i p spurious s)"
proof (cases "rb_tail s = p \<and> \<not> spurious")
  case True
  with pop_taken_inv [OF assms] show ?thesis by (simp add: pop_exchange_def)
next
  case False
  with assms thread_only_inv [OF assms(1,2), of "PopLoaded (rb_tail s)"] show ?thesis by (auto simp: pop_exchange_def)
qed

lemma push_wait_inv:
  assumes "ring_inv s" and "i < length (rb_threads s)" and "rb_threads s ! i = Claimed p x"
  shows "ring_inv (push_wait i p x s)"
  using assms thread_only_inv [OF assms(1,2), of "Writing p x"] ring_invD(8) [OF assms(1,2)]
  by (simp add: push_wait_def slot_of_mod [OF ring_invD(1) [OF assms(1)]])

lemma pop_check_inv:
  assumes "ring_inv s" and "i < length (rb_threads s)" and "rb_threads s ! i = PopLoaded p"
  shows "ring_inv (pop_check i p s)"
proof -
  have "ring_inv (set_thread i Resting s)" "ring_inv (set_thread i Popping s)"
    using assms by (auto intro!: thread_only_inv)
  moreover have "ring_inv (set_thread i (PopReady p) s)" if "seq_at s p = Suc p"
    using that assms ring_invD(8) [OF assms(1,2)] by (auto intro!: thread_only_inv)
  ultimately show ?thesis by (auto simp: pop_check_def slot_of_mod [OF ring_invD(1) [OF assms(1)]] Let_def)
qed

text \<open>The slot a consumer took holds an item, so reading it never meets an uninitialised value.\<close>

lemma pop_read_inv:
  assumes "ring_inv s" and "i < length (rb_threads s)" and "rb_threads s ! i = PopTaken p"
  shows "pop_read i p s = Some (set_thread i (PopRead p (rb_items s ! p)) s)"
    and "ring_inv (set_thread i (PopRead p (rb_items s ! p)) s)"
proof -
  have p: "p < rb_tail s" "seq_at s p = Suc p" using ring_invD(8) [OF assms(1,2)] assms(3) by simp_all
  from slot_of_position(2) [OF assms(1) p(2)] have "data_at s p = Some (rb_items s ! p)" by (simp add: slot_full_def)
  then show "pop_read i p s = Some (set_thread i (PopRead p (rb_items s ! p)) s)"
    by (simp add: pop_read_def slot_of_mod [OF ring_invD(1) [OF assms(1)]])
  show "ring_inv (set_thread i (PopRead p (rb_items s ! p)) s)" using assms p by (auto intro!: thread_only_inv)
qed

lemmas thread_steps_inv = push_claim_inv push_wait_inv push_write_inv push_publish_inv pop_check_inv pop_exchange_inv
  pop_release_inv

lemma thread_step_inv:
  assumes "ring_inv s" and "i < length (rb_threads s)" and "thread_step i spurious (rb_threads s ! i) s = Some t"
  shows "ring_inv t"
proof (cases "rb_threads s ! i")
  case Popping
  with assms show ?thesis by (auto simp: thread_step_def pop_load_def intro!: thread_only_inv)
next
  case (PopTaken p)
  with assms pop_read_inv [OF assms(1,2) PopTaken] show ?thesis by (simp add: thread_step_def)
qed (use assms in \<open>auto simp: thread_step_def intro: thread_steps_inv\<close>)

lemma new_thread_inv:
  assumes "ring_inv s"
  shows "ring_inv (s\<lparr>rb_threads := rb_threads s @ [Resting]\<rparr>)" (is "ring_inv ?t")
proof -
  note inv = ring_invD [OF assms]
  have held: "held pos (rb_threads s @ [Resting]) p = held pos (rb_threads s) p" if "pos Resting = None" for pos p
    using that by (auto simp: held_def nth_append less_Suc_eq)
  have th: "thread_inv ?t th = thread_inv s th" for th by (cases th) simp_all
  have "exclusive pos (rb_threads s @ [Resting])" if "exclusive pos (rb_threads s)" "pos Resting = None" for pos
    using that unfolding exclusive_def by (auto simp: nth_append less_Suc_eq split: if_splits)
  with inv(4,5) have "exclusive producer_pos (rb_threads s @ [Resting])" "exclusive consumer_pos (rb_threads s @ [Resting])"
    by simp_all
  moreover have "slot_free ?t k = slot_free s k" "slot_full ?t k p = slot_full s k p" for k p
    by (simp_all add: slot_free_def slot_full_def held)
  moreover have "size_ok ?t" using inv(1) by (simp add: size_ok_def)
  ultimately show ?thesis using assms by (auto simp: ring_inv_def held th)
qed

lemma ring_next_inv:
  assumes "ring_inv s" and "ring_next s e = Some t"
  shows "ring_inv t"
proof (cases e)
  case (CallPush i item)
  with assms have i: "i < length (rb_threads s)" "rb_threads s ! i = Resting" "t = set_thread i (Pushing item) s"
    by (simp_all split: if_splits thread.splits)
  with assms(1) show ?thesis by (simp add: thread_only_inv)
next
  case (CallPop i)
  with assms have i: "i < length (rb_threads s)" "rb_threads s ! i = Resting" "t = set_thread i Popping s"
    by (simp_all split: if_splits thread.splits)
  with assms(1) show ?thesis by (simp add: thread_only_inv)
next
  case (Proceeds i spurious)
  with assms thread_step_inv [OF assms(1)] show ?thesis by (simp split: if_splits)
qed (use assms new_thread_inv in auto)

lemma ring_starts_inv:
  assumes "ring_starts s"
  shows "ring_inv s"
proof -
  from assms obtain n where n: "2 \<le> n" "s = RingBuffer n" by (auto simp: ring_starts_def)
  with bit_ceil_ge [of n] bit_ceil_power [of n] show ?thesis
    by (intro ring_invI) (auto simp: RingBuffer_def Let_def size_ok_def exclusive_def slot_free_def)
qed

text \<open>A slot whose sequence went past a position had the item of that position popped.\<close>

definition accounted :: "'a ring \<Rightarrow> bool" where
  "accounted s \<longleftrightarrow> (\<forall>p < rb_head s. Suc p < seq_at s p \<longrightarrow> p \<in> fst ` set (rb_popped s))"

lemma accounted_mono:
  assumes "accounted s" and "rb_head t = rb_head s" and "rb_seq t = rb_seq s" and "rb_size t = rb_size s"
    and "rb_popped t = rb_popped s"
  shows "accounted t"
  using assms by (simp add: accounted_def)

lemma push_claim_accounted:
  assumes "ring_inv (push_claim i x s)" and "ring_inv s" and "accounted s"
  shows "accounted (push_claim i x s)"
  unfolding accounted_def
proof (intro allI impI)
  let ?t = "push_claim i x s"
  fix p
  assume p: "p < rb_head ?t" "Suc p < seq_at ?t p"
  have "seq_at s p < rb_head s + rb_size s \<or> (\<exists>q < rb_head s. seq_at s p = Suc q)"
    using ring_invD(6) [OF assms(2), of "p mod rb_size s"] ring_invD(1) [OF assms(2)]
    by (auto simp: slot_free_def slot_full_def size_ok_def)
  moreover have "seq_at s p mod rb_size s = p mod rb_size s \<or> (\<exists>q < rb_head s. seq_at s p = Suc q)"
    using ring_invD(6) [OF assms(2), of "p mod rb_size s"] ring_invD(1) [OF assms(2)]
    by (auto simp: slot_free_def slot_full_def size_ok_def)
  ultimately have "p < rb_head s"
    using p same_slot_distance [of p "seq_at s p" "rb_size s"] by (auto simp: push_claim_def not_less_eq)
  with p assms(3) show "p \<in> fst ` set (rb_popped ?t)" by (simp add: accounted_def push_claim_def)
qed

lemma push_publish_accounted:
  assumes "ring_inv s" and "i < length (rb_threads s)" and "rb_threads s ! i = Publishing p" and "accounted s"
  shows "accounted (push_publish i p s)"
  unfolding accounted_def
proof (intro allI impI)
  let ?t = "push_publish i p s" and ?n = "rb_size s"
  fix q
  assume q: "q < rb_head ?t" "Suc q < seq_at ?t q"
  have size: "size_ok s" "2 \<le> ?n" "length (rb_seq s) = ?n" using ring_invD(1) [OF assms(1)] by (simp_all add: size_ok_def)
  have p: "seq_at s p = p" using ring_invD(8) [OF assms(1,2)] assms(3) by simp
  have "Suc q < seq_at s q"
  proof (cases "q mod ?n = p mod ?n")
    case True
    with q(2) size have "q < p" by (simp add: push_publish_def slot_of_mod)
    from same_slot_distance [OF this True] True p size(2) show ?thesis by simp
  next
    case False
    with q(2) size show ?thesis by (simp add: push_publish_def slot_of_mod)
  qed
  with q(1) assms(4) show "q \<in> fst ` set (rb_popped ?t)" by (simp add: accounted_def push_publish_def)
qed

lemma pop_release_accounted:
  assumes "ring_inv s" and "i < length (rb_threads s)" and "rb_threads s ! i = PopRead p x" and "accounted s"
  shows "accounted (pop_release i p x s)"
  unfolding accounted_def
proof (intro allI impI)
  let ?t = "pop_release i p x s" and ?n = "rb_size s"
  fix q
  assume q: "q < rb_head ?t" "Suc q < seq_at ?t q"
  have size: "size_ok s" "2 \<le> ?n" "length (rb_seq s) = ?n" using ring_invD(1) [OF assms(1)] by (simp_all add: size_ok_def)
  have p: "seq_at s p = Suc p" using ring_invD(8) [OF assms(1,2)] assms(3) by simp
  have "q = p \<or> Suc q < seq_at s q"
  proof (cases "q mod ?n = p mod ?n")
    case True
    with q(2) size have "q < p + ?n" by (simp add: pop_release_def slot_of_mod)
    with same_slot_distance [of p q ?n] True p show ?thesis by (cases q p rule: linorder_cases) auto
  next
    case False
    with q(2) size show ?thesis by (simp add: pop_release_def slot_of_mod)
  qed
  with q(1) assms(4) show "q \<in> fst ` set (rb_popped ?t)" by (auto simp: accounted_def pop_release_def)
qed

lemma pop_read_accounted: "pop_read i p s = Some t \<Longrightarrow> accounted s \<Longrightarrow> accounted t"
  by (auto simp: pop_read_def split: option.splits intro: accounted_mono)

lemma thread_step_accounted:
  assumes "ring_inv s" and "i < length (rb_threads s)" and "thread_step i spurious (rb_threads s ! i) s = Some t"
    and "accounted s"
  shows "accounted t"
proof (cases "rb_threads s ! i")
  case (Pushing x)
  with assms push_claim_accounted [OF push_claim_inv [OF assms(1,2) Pushing] assms(1,4)] show ?thesis
    by (simp add: thread_step_def)
next
  case (Publishing p)
  with assms push_publish_accounted show ?thesis by (auto simp: thread_step_def)
next
  case (PopRead p x)
  with assms pop_release_accounted show ?thesis by (auto simp: thread_step_def)
next
  case (PopTaken p)
  with assms pop_read_accounted show ?thesis by (auto simp: thread_step_def)
qed (use assms in \<open>auto simp: thread_step_def push_wait_def push_write_def pop_load_def pop_check_def pop_exchange_def
       Let_def intro: accounted_mono\<close>)

lemma ring_next_accounted:
  assumes "ring_inv s" and "ring_next s e = Some t" and "accounted s"
  shows "accounted t"
proof (cases e)
  case (CallPush i item)
  with assms show ?thesis by (auto split: if_splits thread.splits intro: accounted_mono)
next
  case (CallPop i)
  with assms show ?thesis by (auto split: if_splits thread.splits intro: accounted_mono)
next
  case (Proceeds i spurious)
  with assms thread_step_accounted [OF assms(1)] show ?thesis by (simp split: if_splits)
qed (use assms in \<open>auto intro: accounted_mono\<close>)

interpretation ring: invariant_system ring_starts ring_step "\<lambda>s. ring_inv s \<and> accounted s"
proof
  show "ring_inv s \<and> accounted s" if "ring_starts s" for s :: "'a ring"
    using that ring_starts_inv by (auto simp: ring_starts_def accounted_def RingBuffer_def Let_def)
  show "ring_inv t \<and> accounted t" if "ring_inv s \<and> accounted s" "ring_step s e t" for s t :: "'a ring" and e
    using that ring_next_inv ring_next_accounted by (auto simp: ring_step_def)
qed

text \<open>
  A position some push claimed is still in the hands of that push, or its item is readable in its
  slot, or it was popped.
\<close>

lemma claimed_position_accounted:
  assumes "ring_inv s" and "accounted s" and "p < rb_head s"
  shows "held producer_pos (rb_threads s) p \<or> slot_full s (p mod rb_size s) p \<or> p \<in> fst ` set (rb_popped s)"
proof -
  consider "seq_at s p \<le> p" | "seq_at s p = Suc p" | "Suc p < seq_at s p" by linarith
  then show ?thesis
    using ring_invD(7) [OF assms(1,3)] slot_of_position(2) [OF assms(1)] assms(2,3) by cases (auto simp: accounted_def)
qed

section \<open>Delivery\<close>

lemma run_ring_from_start:
  assumes "2 \<le> n" and "exec ring_next (RingBuffer n) es = Some t"
  shows "reachable ring_starts ring_step t"
proof (rule exec_reachable [OF assms(2)])
  show "reachable ring_starts ring_step (RingBuffer n)"
    using assms(1) by (intro reachable_init) (auto simp: ring_starts_def)
qed (simp add: ring_step_def)

text \<open>Whatever the interleaving of any number of producers and consumers, on a buffer of at least two
  slots no position is popped twice, and what a pop returns at a position is what a push claimed
  that position for.\<close>

theorem ring_pops_each_item_once:
  assumes "reachable ring_starts ring_step s"
  shows "distinct (map fst (rb_popped s)) \<and> set (rb_popped s) \<subseteq> set (enumerate 0 (rb_items s))"
proof -
  have inv: "ring_inv s" using ring.reachable_inv [OF assms] by simp
  have "(p, x) \<in> set (enumerate 0 (rb_items s))" if "(p, x) \<in> set (rb_popped s)" for p x
    using ring_invD(2,3) [OF inv] ring_invD(10) [OF inv that] by (auto simp: in_set_enumerate_eq)
  with ring_invD(9) [OF inv] show ?thesis by auto
qed

text \<open>One thread pushes, another pops what it pushed.\<close>

definition push_then_pop :: "nat ring_event list" where
  "push_then_pop = [NewThread, NewThread, CallPush 0 7, CallPop 1]
     @ replicate 4 (Proceeds 0 False) @ replicate 3 (Proceeds 1 False) @ replicate 2 (Proceeds 1 False)"

lemma push_then_pop_runs:
  "exec ring_next (RingBuffer 2) push_then_pop =
     Some \<lparr>rb_size = 2, rb_data = [Some 7, None], rb_seq = [2, 1], rb_head = 1, rb_tail = 1,
       rb_threads = [Resting, Resting], rb_items = [7], rb_popped = [(0, 7)]\<rparr>"
  by code_simp

lemma push_then_pop_reachable:
  "reachable ring_starts ring_step \<lparr>rb_size = 2, rb_data = [Some (7 :: nat), None], rb_seq = [2, 1], rb_head = 1, rb_tail = 1,
     rb_threads = [Resting, Resting], rb_items = [7], rb_popped = [(0, 7)]\<rparr>"
  by (rule run_ring_from_start [OF _ push_then_pop_runs]) simp

theorem ring_pops_each_item_once_witness:
  "\<exists>s. exec ring_next (RingBuffer 2) push_then_pop = Some s \<and> rb_popped s = [(0, 7)] \<and> distinct (map fst (rb_popped s))"
  using ring_pops_each_item_once [OF push_then_pop_reachable] push_then_pop_runs by simp

text \<open>C9: Nothing is lost: in a buffer of two slots or more, when no call is in progress and the buffer is
  empty, the popped items are exactly the pushed ones.\<close>

theorem ring_loses_nothing:
  assumes "reachable ring_starts ring_step s" and "set (rb_threads s) \<subseteq> {Resting}" and "ring_empty s"
  shows "mset (map snd (rb_popped s)) = mset (rb_items s)"
proof -
  have inv: "ring_inv s" "accounted s" using ring.reachable_inv [OF assms(1)] by simp_all
  have idle: "\<not> held pos (rb_threads s) p" if "pos Resting = None" for pos p
    using assms(2) that by (auto simp: held_def subset_iff) (metis nth_mem option.distinct(1))
  have "p \<in> fst ` set (rb_popped s)" if "p < length (rb_items s)" for p
  proof -
    have "\<not> slot_full s (p mod rb_size s) p"
      using that assms(3) idle [of consumer_pos p] ring_invD(2) [OF inv(1)] by (simp add: slot_full_def ring_empty_def)
    with claimed_position_accounted [OF inv, of p] that idle [of producer_pos p] ring_invD(2) [OF inv(1)] show ?thesis by simp
  qed
  then have "(p, rb_items s ! p) \<in> set (rb_popped s)" if "p < length (rb_items s)" for p
    using that ring_invD(10) [OF inv(1)] by fastforce
  then have "set (enumerate 0 (rb_items s)) \<subseteq> set (rb_popped s)" by (auto simp: in_set_enumerate_eq)
  moreover have "set (rb_popped s) \<subseteq> set (enumerate 0 (rb_items s))"
    using ring_invD(2,3) [OF inv(1)] ring_invD(10) [OF inv(1)] by (fastforce simp: in_set_enumerate_eq)
  moreover have "distinct (rb_popped s)" using ring_invD(9) [OF inv(1)] by (simp add: distinct_map)
  moreover have "distinct (enumerate 0 (rb_items s))" by (rule distinct_enumerate)
  ultimately have "mset (rb_popped s) = mset (enumerate 0 (rb_items s))" by (simp add: set_eq_iff_mset_eq_distinct [symmetric])
  then have "image_mset snd (mset (rb_popped s)) = image_mset snd (mset (enumerate 0 (rb_items s)))" by simp
  then show ?thesis by (metis map_snd_enumerate mset_map)
qed

theorem ring_loses_nothing_witness:
  "\<exists>s. exec ring_next (RingBuffer 2) push_then_pop = Some s \<and> ring_empty s \<and> mset (map snd (rb_popped s)) = mset [7]"
  using ring_loses_nothing [OF push_then_pop_reachable] push_then_pop_runs by (simp add: ring_empty_def)

section \<open>The buffer as a queue\<close>

text \<open>
  The abstract specification: a first-in first-out queue, and what was taken from it so far. A push
  enters the queue when it claims its position, a pop takes the first item when its exchange
  succeeds.
\<close>

record 'a fifo =
  ff_waiting :: "'a list"
  ff_taken :: "'a list"

datatype 'a fifo_op = Enqueue 'a | Dequeue 'a

fun fifo_next :: "'a fifo \<Rightarrow> 'a fifo_op \<Rightarrow> 'a fifo option" where
  "fifo_next q (Enqueue x) = Some (q\<lparr>ff_waiting := ff_waiting q @ [x]\<rparr>)"
| "fifo_next q (Dequeue x) =
     (case ff_waiting q of
        y # ys \<Rightarrow> if x = y then Some (q\<lparr>ff_waiting := ys, ff_taken := ff_taken q @ [x]\<rparr>) else None
      | [] \<Rightarrow> None)"

definition ring_queue :: "'a ring \<Rightarrow> 'a fifo" where
  "ring_queue s = \<lparr>ff_waiting = drop (rb_tail s) (rb_items s), ff_taken = take (rb_tail s) (rb_items s)\<rparr>"

fun ring_ops :: "'a ring \<Rightarrow> 'a ring_event \<Rightarrow> 'a fifo_op list" where
  "ring_ops s (Proceeds i spurious) =
     (case rb_threads s ! i of
        Pushing item \<Rightarrow> [Enqueue item]
      | PopReady pos \<Rightarrow> (if rb_tail s = pos \<and> \<not> spurious then [Dequeue (rb_items s ! pos)] else [])
      | _ \<Rightarrow> [])"
| "ring_ops s e = []"

lemma ring_step_simulates:
  assumes "ring_inv s" and "ring_next s e = Some t"
  shows "exec fifo_next (ring_queue s) (ring_ops s e) = Some (ring_queue t)"
proof (cases e)
  case (Proceeds i spurious)
  with assms(2) have i: "i < length (rb_threads s)" "thread_step i spurious (rb_threads s ! i) s = Some t"
    by (simp_all split: if_splits)
  have tail: "rb_tail s \<le> length (rb_items s)" using ring_invD(2,3) [OF assms(1)] by simp
  show ?thesis
  proof (cases "rb_threads s ! i")
    case (Pushing item)
    with i Proceeds tail show ?thesis by (auto simp: thread_step_def push_claim_def ring_queue_def)
  next
    case (PopReady pos)
    show ?thesis
    proof (cases "rb_tail s = pos \<and> \<not> spurious")
      case True
      with i PopReady have t: "rb_tail t = Suc (rb_tail s)" "rb_items t = rb_items s"
        by (auto simp: thread_step_def pop_exchange_def)
      have "rb_tail s < length (rb_items s)"
        using ring_invD(2,3) [OF ring_next_inv [OF assms]] t by simp
      with Proceeds PopReady True t show ?thesis
        by (simp add: ring_queue_def drop_eq_Cons_nth take_Suc_conv_app_nth)
    next
      case False
      with i Proceeds PopReady show ?thesis by (auto simp: thread_step_def pop_exchange_def ring_queue_def)
    qed
  next
    case (PopTaken pos)
    with i Proceeds show ?thesis by (auto simp: thread_step_def pop_read_def ring_queue_def split: option.splits)
  qed (use i Proceeds in \<open>auto simp: thread_step_def push_wait_def push_write_def push_publish_def pop_load_def
      pop_check_def pop_release_def ring_queue_def Let_def\<close>)
qed (use assms(2) in \<open>auto simp: ring_queue_def split: if_splits thread.splits\<close>)

interpretation ring_fifo: simulation ring_next ring_inv ring_queue ring_ops fifo_next
  by unfold_locales (auto intro: ring_next_inv ring_step_simulates)

text \<open>C10: A buffer of two slots or more is a first-in first-out queue: whatever the interleaving, its claims and takes are a
  legal history of a queue that starts empty, the queue's content is what is claimed and not taken,
  and the pop that takes the n-th item returns the n-th item pushed.\<close>

theorem ring_refines_queue:
  assumes "2 \<le> n" and "exec ring_next (RingBuffer n) es = Some s"
  shows "exec fifo_next \<lparr>ff_waiting = [], ff_taken = []\<rparr> (trace_of ring_next ring_ops (RingBuffer n) es) = Some (ring_queue s)
    \<and> (\<forall>(p, x) \<in> set (rb_popped s). p < length (ff_taken (ring_queue s)) \<and> ff_taken (ring_queue s) ! p = x)"
proof -
  have start: "ring_inv (RingBuffer n)" using assms(1) by (intro ring_starts_inv) (auto simp: ring_starts_def)
  have inv: "ring_inv s" using ring.reachable_inv [OF run_ring_from_start [OF assms]] by simp
  have "ring_queue (RingBuffer n) = (\<lparr>ff_waiting = [], ff_taken = []\<rparr> :: 'a fifo)"
    by (simp add: ring_queue_def RingBuffer_def Let_def)
  with ring_fifo.run_simulates [OF assms(2) start]
  have "exec fifo_next \<lparr>ff_waiting = [], ff_taken = []\<rparr> (trace_of ring_next ring_ops (RingBuffer n) es) = Some (ring_queue s)"
    by simp
  moreover have "p < length (ff_taken (ring_queue s)) \<and> ff_taken (ring_queue s) ! p = x" if "(p, x) \<in> set (rb_popped s)" for p x
    using ring_invD(2,3) [OF inv] ring_invD(10) [OF inv that] by (simp add: ring_queue_def)
  ultimately show ?thesis by blast
qed

theorem ring_refines_queue_witness:
  "trace_of ring_next ring_ops (RingBuffer 2) push_then_pop = [Enqueue 7, Dequeue 7]
     \<and> exec fifo_next \<lparr>ff_waiting = [], ff_taken = []\<rparr> [Enqueue 7, Dequeue (7 :: nat)] = Some \<lparr>ff_waiting = [], ff_taken = [7]\<rparr>"
proof -
  have trace: "trace_of ring_next ring_ops (RingBuffer 2) push_then_pop = [Enqueue 7, Dequeue 7]" by code_simp
  from ring_refines_queue [OF _ push_then_pop_runs] trace show ?thesis by (simp add: ring_queue_def)
qed

text \<open>The sequence a pop sees at the tail: full, or not produced yet, never beyond.\<close>

lemma seq_at_tail:
  assumes "ring_inv s" and "accounted s"
  shows "seq_at s (rb_tail s) \<le> Suc (rb_tail s)"
proof (rule ccontr)
  assume gone: "\<not> ?thesis"
  let ?n = "rb_size s"
  have size: "2 \<le> ?n" using ring_invD(1) [OF assms(1)] by (simp add: size_ok_def)
  show False
  proof (cases "rb_tail s < rb_head s")
    case True
    with gone assms(2) obtain x where "(rb_tail s, x) \<in> set (rb_popped s)" by (fastforce simp: accounted_def)
    from ring_invD(10) [OF assms(1) this] show False by simp
  next
    case False
    then have tail: "rb_tail s = rb_head s" using ring_invD(3) [OF assms(1)] by simp
    have "rb_tail s mod ?n < ?n" using size by simp
    from ring_invD(6) [OF assms(1) this] show False
    proof
      assume free: "slot_free s (rb_tail s mod ?n)"
      with gone same_slot_distance [of "rb_tail s" "seq_at s (rb_tail s)" ?n] tail show False
        by (auto simp: slot_free_def)
    qed (use gone tail in \<open>auto simp: slot_full_def\<close>)
  qed
qed

lemma lone_pop_not_ready:
  assumes "ring_inv s" and "accounted s" and "i < length (rb_threads s)" and "rb_threads s ! i = Popping"
    and "seq_at s (rb_tail s) \<noteq> Suc (rb_tail s)"
  shows "exec ring_next s (replicate 2 (Proceeds i False)) = Some (set_thread i Resting (set_thread i (PopLoaded (rb_tail s)) s))"
proof -
  have slot: "slot_of (set_thread i th s) = slot_of s" for th by (rule ext) (simp add: slot_of_def)
  have "seq_at s (rb_tail s) \<le> rb_tail s" using seq_at_tail [OF assms(1,2)] assms(5) by simp
  then show ?thesis
    using assms(3,4) slot_of_mod [OF ring_invD(1) [OF assms(1)]]
    by (simp add: numeral_2_eq_2 thread_step_def pop_load_def pop_check_def slot)
qed

lemma lone_pop_ready:
  fixes s :: "'a ring"
  assumes "ring_inv s" and "i < length (rb_threads s)" and "rb_threads s ! i = Popping"
    and "seq_at s (rb_tail s) = Suc (rb_tail s)"
  shows "\<exists>t. exec ring_next s (replicate 5 (Proceeds i False)) = Some t \<and> rb_threads t ! i = Resting
    \<and> rb_popped t = rb_popped s @ [(rb_tail s, rb_items s ! rb_tail s)]"
proof -
  have slot: "slot_of (set_thread i th u) = slot_of u" "slot_of (u\<lparr>rb_tail := p\<rparr>) = slot_of u" for th p and u :: "'a ring"
    by (rule ext, simp add: slot_of_def)+
  have "data_at s (rb_tail s) = Some (rb_items s ! rb_tail s)"
    using slot_of_position(2) [OF assms(1,4)] by (simp add: slot_full_def)
  then show ?thesis
    using assms(2-4) slot_of_mod [OF ring_invD(1) [OF assms(1)]]
    by (simp add: numeral_nat thread_step_def pop_load_def pop_check_def pop_exchange_def pop_read_def pop_release_def slot)
qed

text \<open>C36: In a buffer of two slots or more, a pop that runs without interference returns after at most five
  steps: with the item at the tail when that is published, and empty-handed otherwise.\<close>

theorem ring_pop_finishes:
  assumes "reachable ring_starts ring_step s" and "i < length (rb_threads s)" and "rb_threads s ! i = Popping"
  shows "\<exists>n t. n \<le> 5 \<and> exec ring_next s (replicate n (Proceeds i False)) = Some t \<and> rb_threads t ! i = Resting
    \<and> rb_popped t = rb_popped s @ (if rb_seq s ! slot_of s (rb_tail s) = Suc (rb_tail s)
                                     then [(rb_tail s, rb_items s ! rb_tail s)] else [])"
proof -
  have inv: "ring_inv s" "accounted s" using ring.reachable_inv [OF assms(1)] by simp_all
  note slot = slot_of_mod [OF ring_invD(1) [OF inv(1)]]
  show ?thesis
  proof (cases "seq_at s (rb_tail s) = Suc (rb_tail s)")
    case True
    with lone_pop_ready [OF inv(1) assms(2,3)] show ?thesis by (intro exI [of _ 5]) (simp only: slot if_True simp_thms order_refl)
  next
    case False
    with lone_pop_not_ready [OF inv assms(2,3)] assms(2) show ?thesis
      by (intro exI [of _ 2]) (simp add: slot)
  qed
qed

definition full_ring :: "nat ring" where
  "full_ring = \<lparr>rb_size = 2, rb_data = [Some 7, None], rb_seq = [1, 1], rb_head = 1, rb_tail = 0,
     rb_threads = [Popping], rb_items = [7], rb_popped = []\<rparr>"

lemma full_ring_reachable: "reachable ring_starts ring_step full_ring"
proof (rule run_ring_from_start)
  show "exec ring_next (RingBuffer 2) ([NewThread, CallPush 0 7] @ replicate 4 (Proceeds 0 False) @ [CallPop 0]) = Some full_ring"
    by code_simp
qed simp

theorem ring_pop_finishes_witness:
  "\<exists>n t. n \<le> 5 \<and> exec ring_next full_ring (replicate n (Proceeds 0 False)) = Some t \<and> rb_threads t ! 0 = Resting
    \<and> rb_popped t = [(0, 7)]"
proof -
  have "rb_threads full_ring ! 0 = Popping" "0 < length (rb_threads full_ring)" by (simp_all add: full_ring_def)
  note finishes = ring_pop_finishes [OF full_ring_reachable this(2,1)]
  have popped: "rb_popped full_ring @ (if rb_seq full_ring ! slot_of full_ring (rb_tail full_ring) = Suc (rb_tail full_ring)
      then [(rb_tail full_ring, rb_items full_ring ! rb_tail full_ring)] else []) = [(0, 7)]"
    by code_simp
  show ?thesis using finishes unfolding popped .
qed

section \<open>A buffer of one slot\<close>

text \<open>A thread that pushes a list of items, one after the other.\<close>

definition push_all :: "'a list \<Rightarrow> 'a ring_event list" where
  "push_all xs = concat (map (\<lambda>x. CallPush 0 x # replicate 4 (Proceeds 0 False)) xs)"

text \<open>The one slot after \<open>p\<close> pushes, its only thread resting or in a pop.\<close>

definition one_slot :: "'a option \<Rightarrow> nat \<Rightarrow> 'a list \<Rightarrow> 'a thread \<Rightarrow> 'a ring" where
  "one_slot d p ys th = \<lparr>rb_size = 1, rb_data = [d], rb_seq = [p], rb_head = p, rb_tail = 0, rb_threads = [th],
     rb_items = ys, rb_popped = []\<rparr>"

lemma one_slot_push:
  "exec ring_next (one_slot d p ys Resting) (CallPush 0 x # replicate 4 (Proceeds 0 False))
     = Some (one_slot (Some x) (Suc p) (ys @ [x]) Resting)"
  by (simp add: one_slot_def numeral_nat thread_step_def push_claim_def push_wait_def push_write_def push_publish_def
      set_thread_def slot_of_def)

lemma one_slot_push_all:
  "exec ring_next (one_slot d p ys Resting) (push_all xs)
     = Some (one_slot (if xs = [] then d else Some (last xs)) (p + length xs) (ys @ xs) Resting)"
proof (induction xs arbitrary: d p ys)
  case (Cons x xs)
  have "push_all (x # xs) = (CallPush 0 x # replicate 4 (Proceeds 0 False)) @ push_all xs" by (simp add: push_all_def)
  then show ?case by (simp only: exec_append one_slot_push) (simp add: Cons.IH)
qed (simp add: push_all_def)

text \<open>With two pushes or more the consumer reads a sequence beyond the one it waits for, and starts over.\<close>

lemma one_slot_pop:
  assumes "2 \<le> p" and "th \<in> {Popping, PopLoaded 0}"
  shows "\<exists>th'. exec ring_next (one_slot d p ys th) (map (Proceeds 0) bs) = Some (one_slot d p ys th')
    \<and> th' \<in> {Popping, PopLoaded 0}"
  using assms(2)
proof (induction bs arbitrary: th)
  case (Cons b bs)
  have "ring_next (one_slot d p ys th) (Proceeds 0 b) = Some (one_slot d p ys (if th = Popping then PopLoaded 0 else Popping))"
    using Cons.prems assms(1)
    by (auto simp: one_slot_def thread_step_def pop_load_def pop_check_def set_thread_def slot_of_def)
  with Cons.IH [of "if th = Popping then PopLoaded 0 else Popping"] show ?case by simp
qed auto

text \<open>C37: A buffer of one slot does not keep these promises: the sequence that tells the consumer the item
  is there is the one that tells the next producer the slot is free. Of two items or more pushed one
  after the other only the last is still in the buffer, though none was popped, and a pop that
  follows never returns, however long it runs.\<close>

theorem ring_of_one_overwrites:
  assumes "n \<le> 1" and "2 \<le> length xs"
  shows "\<exists>s. exec ring_next (RingBuffer n) (NewThread # push_all xs @ [CallPop 0]) = Some s
    \<and> rb_items s = xs \<and> rb_data s = [Some (last xs)] \<and> rb_popped s = []
    \<and> (\<forall>bs. \<exists>t. exec ring_next s (map (Proceeds 0) bs) = Some t \<and> rb_threads t ! 0 \<noteq> Resting
          \<and> rb_popped t = [] \<and> rb_data t = [Some (last xs)])"
proof -
  let ?s = "one_slot (Some (last xs)) (length xs) xs Popping"
  have start: "ring_next (RingBuffer n) NewThread = Some (one_slot None 0 [] Resting)"
    using assms(1) by (simp add: RingBuffer_def one_slot_def bit_ceil_def bit_ceil_from.simps)
  have pop: "ring_next (one_slot d p ys Resting) (CallPop 0) = Some (one_slot d p ys Popping)" for d p and ys :: "'a list"
    by (simp add: one_slot_def set_thread_def)
  have "exec ring_next (RingBuffer n) (NewThread # push_all xs @ [CallPop 0]) = Some ?s"
    using assms(2) by (auto simp: start exec_append one_slot_push_all pop simp del: ring_next.simps)
  moreover have "rb_items ?s = xs" "rb_data ?s = [Some (last xs)]" "rb_popped ?s = []" by (simp_all add: one_slot_def)
  moreover have "\<exists>t. exec ring_next ?s (map (Proceeds 0) bs) = Some t \<and> rb_threads t ! 0 \<noteq> Resting
      \<and> rb_popped t = [] \<and> rb_data t = [Some (last xs)]" for bs
    using one_slot_pop [OF assms(2), of Popping "Some (last xs)" xs bs] by (auto simp: one_slot_def)
  ultimately show ?thesis by blast
qed

theorem ring_of_one_overwrites_witness:
  "\<exists>s. exec ring_next (RingBuffer 1) (NewThread # push_all [7, 8 :: nat] @ [CallPop 0]) = Some s
     \<and> rb_items s = [7, 8] \<and> rb_data s = [Some 8] \<and> rb_popped s = []"
proof -
  have "2 \<le> length [7, 8 :: nat]" by simp
  from ring_of_one_overwrites [OF le_refl this] show ?thesis by (auto simp del: ring_next.simps exec.simps)
qed

text \<open>\<^verbatim>\<open>create\<close> on an unused buffer is the constructor; on one whose head has passed the new
  size it leaves no slot that any position is waiting for, and a push then spins for ever.\<close>

lemma ring_create_unused: "ring_create n (RingBuffer m) = RingBuffer n"
  by (simp add: ring_create_def RingBuffer_def Let_def)

lemma slot_of_create: "slot_of (ring_create n s) pos < bit_ceil n"
proof -
  obtain k where k: "bit_ceil n = 2 ^ k" using bit_ceil_power by blast
  have "slot_of (ring_create n s) pos = take_bit k pos"
    by (simp add: slot_of_def ring_create_def Let_def k take_bit_eq_mask mask_eq_exp_minus_1)
  then show ?thesis by (simp add: k)
qed

theorem recreated_ring_stuck:
  assumes "bit_ceil n \<le> rb_head s" and "i < length (rb_threads s)" and "rb_threads s ! i = Resting"
  shows "\<exists>t. exec ring_next (ring_create n s) [CallPush i x, Proceeds i b] = Some t
    \<and> rb_threads t ! i = Claimed (rb_head s) x \<and> (\<forall>k. exec ring_next t (replicate k (Proceeds i b)) = Some t)"
proof -
  let ?c = "ring_create n s"
  let ?t = "push_claim i x (set_thread i (Pushing x) ?c)"
  have fields: "rb_threads ?c = rb_threads s" "rb_head ?c = rb_head s" "rb_seq ?c = [0..<bit_ceil n]"
    by (simp_all add: ring_create_def Let_def)
  have run: "exec ring_next ?c [CallPush i x, Proceeds i b] = Some ?t"
    and claimed: "rb_threads ?t ! i = Claimed (rb_head s) x"
    using assms(2,3) by (simp_all add: fields set_thread_def thread_step_def push_claim_def)
  have "slot_of ?t p = slot_of ?c p" for p by (simp add: slot_of_def push_claim_def set_thread_def)
  then have "rb_seq ?t ! slot_of ?t (rb_head s) \<noteq> rb_head s"
    using slot_of_create [of n s "rb_head s"] assms(1) by (simp add: push_claim_def set_thread_def fields)
  then have "ring_next ?t (Proceeds i b) = Some ?t"
    using assms(2) claimed by (simp add: thread_step_def push_wait_def) (simp add: push_claim_def set_thread_def fields)
  then have "exec ring_next ?t (replicate k (Proceeds i b)) = Some ?t" for k by (induction k) simp_all
  with run claimed show ?thesis by blast
qed

theorem recreated_ring_stuck_witness:
  "\<exists>s t. exec ring_next (RingBuffer 2) ([NewThread, CallPush 0 7] @ replicate 4 (Proceeds 0 False)
         @ [CallPush 0 (8 :: nat)] @ replicate 4 (Proceeds 0 False)) = Some s
     \<and> exec ring_next (ring_create 2 s) [CallPush 0 9, Proceeds 0 False] = Some t
     \<and> exec ring_next t (replicate 100 (Proceeds 0 False)) = Some t"
proof -
  let ?es = "[NewThread, CallPush 0 7] @ replicate 4 (Proceeds 0 False) @ [CallPush 0 (8 :: nat)] @ replicate 4 (Proceeds 0 False)"
  have "case exec ring_next (RingBuffer 2) ?es of None \<Rightarrow> False
    | Some s \<Rightarrow> bit_ceil 2 \<le> rb_head s \<and> 0 < length (rb_threads s) \<and> rb_threads s ! 0 = Resting" by code_simp
  then obtain s where s: "exec ring_next (RingBuffer 2) ?es = Some s"
    and ok: "bit_ceil 2 \<le> rb_head s" "0 < length (rb_threads s)" "rb_threads s ! 0 = Resting"
    by (auto split: option.splits)
  from recreated_ring_stuck [OF ok, of 9 False] s show ?thesis by blast
qed

end
