(* ===== verification/EchoServer.thy ===== *)
theory EchoServer
  imports Cors WebSocketSession ServerSetup
begin

text \<open>
  The echo server (examples/echo/main.cpp): an application of the router, the CORS middleware, the
  trusted proxies, the WebSocket session and the listener's setup, composed as its
  \<^verbatim>\<open>main\<close> composes them, and what a client of it can rely on. The user data of a
  connection is its room; what is logged is a list of entries.
\<close>

section \<open>The command line\<close>

text \<open>
  \<^verbatim>\<open>atoi\<close> of the C library: None where a value that is no \<^verbatim>\<open>int\<close> makes
  the call undefined.
\<close>

definition c_space :: "char \<Rightarrow> bool" where
  "c_space c \<longleftrightarrow> c = CHR '' '' \<or> (9 \<le> (of_char c :: nat) \<and> (of_char c :: nat) \<le> 13)"

definition c_digit :: "char \<Rightarrow> bool" where
  "c_digit c \<longleftrightarrow> 48 \<le> (of_char c :: nat) \<and> (of_char c :: nat) \<le> 57"

definition signed_number :: "string \<Rightarrow> int" where
  "signed_number s =
     (case s of
        [] \<Rightarrow> 0
      | c # r \<Rightarrow>
          if c = CHR ''-'' then - int (stoul (takeWhile c_digit r))
          else if c = CHR ''+'' then int (stoul (takeWhile c_digit r))
          else int (stoul (takeWhile c_digit s)))"

definition atoi :: "string \<Rightarrow> int option" where
  "atoi s =
     (let v = signed_number (dropWhile c_space s)
      in if - (2 ^ 31) \<le> v \<and> v < 2 ^ 31 then Some v else None)"

text \<open>\<open>args\<close> is \<^verbatim>\<open>argv\<close> without the program's name, so \<^verbatim>\<open>argc\<close> is one more.\<close>

definition echo_port :: "string list \<Rightarrow> 16 word option" where
  "echo_port args =
     (case args of [] \<Rightarrow> Some 8080 | a # as \<Rightarrow> map_option word_of_int (atoi a))"

definition echo_has_certificate :: "string list \<Rightarrow> bool" where
  "echo_has_certificate args \<longleftrightarrow> length args + 1 > 3"

definition echo_flags :: "string list \<Rightarrow> 8 word" where
  "echo_flags args =
     (if length args + 1 > 4 \<and> args ! 3 = ''tls-only'' then proto_HTTPS OR proto_WSS
      else if echo_has_certificate args then proto_HTTP OR proto_HTTPS OR proto_WS OR proto_WSS
      else proto_HTTP OR proto_WS)"

section \<open>The handlers\<close>

datatype echo_log = LogOpen string string | LogClose string close_code | LogError string | NullContext

definition echo_hello :: "'h fields_lib \<Rightarrow> (('h, string, 'w) exchange, unit) action" where
  "echo_hello F = responding (res_send_ok F ''hello from cppgate'' ''text/plain'')"

text \<open>
  The pre-middleware of the WebSocket route; the query parser of Boost.URL is a parameter, as in
  \<^theory_text>\<open>HttpMessage\<close>.
\<close>

type_synonym query_parser = "string \<Rightarrow> (string \<times> string) list option"

definition echo_auth ::
  "query_parser \<Rightarrow> query_parser \<Rightarrow> (('h, string, 'b, 'w) ws_exchange, bool) action" where
  "echo_auth origin_form_params uri_reference_params x =
     (let ws = wx_context x
      in if queries_get (urlQueries origin_form_params uri_reference_params False (wc_request ws)) ''token''
              \<noteq> ''secret''
         then Done False (with_context (ws_reject 401 ''bad token'') x)
         else Done True (with_context (ws_setContext (ws_urlParam ws ''room'')) x))"

text \<open>The three callbacks of a connection, by the member function they are given to.\<close>

datatype echo_callback_id = EchoMessage | EchoClose | EchoError

definition echo_opened ::
  "('h, string, echo_callback_id) ws_context \<Rightarrow> ('h, string, echo_callback_id) ws_context" where
  "echo_opened ws = ws_onError EchoError (ws_onClose EchoClose (ws_onMessage EchoMessage ws))"

text \<open>A room that is not there would be read through a null pointer, which is logged here.\<close>

definition echo_open ::
  "(('h, string, echo_callback_id, echo_log list) ws_exchange, bool) action" where
  "echo_open x =
     (let ws = wx_context x;
          entry = (case wc_context ws of Some room \<Rightarrow> LogOpen (wc_ip ws) room | None \<Rightarrow> NullContext)
      in Done True (x\<lparr>wx_world := wx_world x @ [entry], wx_context := echo_opened ws\<rparr>))"

text \<open>What onMessage asks of the session; None is the room read through a null pointer.\<close>

definition echo_message ::
  "string option \<Rightarrow> ws_message_view \<Rightarrow> ('h, string, echo_callback_id, 'ec) session_event option" where
  "echo_message context msg =
     (if wm_data msg = ''bye'' then Some (CloseCalled cc_normal)
      else if wm_isText msg
        then (case context of
                Some room \<Rightarrow> Some (SendCalled (''['' @ room @ ''] '' @ wm_data msg, True))
              | None \<Rightarrow> None)
      else Some (SendCalled (wm_data msg, False)))"

text \<open>The callback a session calls: what it logs and what it asks of the session.\<close>

fun echo_run_callback ::
  "('h, string, echo_callback_id) ws_context \<Rightarrow> (echo_callback_id, 'ec) ws_call
     \<Rightarrow> (echo_log list \<times> ('h, string, echo_callback_id, 'ec) session_event list) option" where
  "echo_run_callback ws (OnMessage cb msg) = map_option (\<lambda>e. ([], [e])) (echo_message (wc_context ws) msg)"
| "echo_run_callback ws (OnClose cb code) = Some ([LogClose (wc_ip ws) code], [])"
| "echo_run_callback ws (OnError cb ec) = Some ([LogError (wc_ip ws)], [])"

section \<open>The router\<close>

definition echo_cors :: cors_options where
  "echo_cors = CorsOptions\<lparr>allowed_origins := [''http://localhost:3000'']\<rparr>"

definition echo_setup ::
  "('h, 'p) libs \<Rightarrow> query_parser \<Rightarrow> query_parser \<Rightarrow> (('h, string, echo_log list) exchange, unit) action
     \<Rightarrow> ('h, string, echo_callback_id, echo_log list, 'p) setup_op list" where
  "echo_setup L origin_form_params uri_reference_params cors_middleware =
     [SetTrustedProxies [''127.0.0.1''],
      Use cors_middleware,
      AddHttp {Verb_get} ''/hello'' [] (echo_hello (lb_fields L)) [],
      AddWs ''/ws/echo/{room}'' [WebSocketHandler (echo_auth origin_form_params uri_reference_params)]
        echo_open []]"

definition echo_router ::
  "('h, 'p) libs \<Rightarrow> (verb \<Rightarrow> string) \<Rightarrow> query_parser \<Rightarrow> query_parser
     \<Rightarrow> ('h, string, echo_callback_id, echo_log list, 'p) router option" where
  "echo_router L verb_name origin_form_params uri_reference_params =
     (case cors (lb_fields L) verb_name echo_cors of
        Inl e \<Rightarrow> None
      | Inr m \<Rightarrow>
          exec (\<lambda>rt op. setup_call L op rt) (Router_init (lb_fields L))
            (echo_setup L origin_form_params uri_reference_params m))"

section \<open>Starting\<close>

definition echo_options :: server_options where
  "echo_options = ServerOptions\<lparr>so_http_body_limit := 64 * 1024\<rparr>"

text \<open>
  The exit with status 1, an exception that leaves \<^verbatim>\<open>main\<close>, or the server running.
  The results of the acceptor's four calls and whether OpenSSL takes the two files are parameters.
\<close>

datatype echo_start = ExitFailure | UncaughtException | Serving "16 word" server_options "bool \<times> bool"

record 'e echo_host =
  eh_open :: "16 word \<Rightarrow> 'e option"
  eh_option :: "16 word \<Rightarrow> 'e option"
  eh_bind :: "16 word \<Rightarrow> 'e option"
  eh_listen :: "16 word \<Rightarrow> 'e option"
  eh_certificate :: "string \<Rightarrow> bool"
  eh_key :: "string \<Rightarrow> bool"

definition echo_endpoint :: "16 word \<Rightarrow> string" where
  "echo_endpoint port = ''127.0.0.1:'' @ digits_of (unat port)"

definition echo_main :: "'e echo_host \<Rightarrow> string list \<Rightarrow> echo_start option" where
  "echo_main host args =
     map_option (\<lambda>port.
       case Listener_open (eh_open host port) (eh_option host port) (eh_bind host port) (eh_listen host port)
              (echo_endpoint port) of
         Inl e \<Rightarrow> ExitFailure
       | Inr u \<Rightarrow>
           if echo_has_certificate args \<and> \<not> (eh_certificate host (args ! 1) \<and> eh_key host (args ! 2))
           then UncaughtException
           else (case Listener_start (echo_flags args) (echo_has_certificate args) of
                   Inl e \<Rightarrow> UncaughtException
                 | Inr kinds \<Rightarrow> Serving port echo_options kinds)) (echo_port args)"

section \<open>A connection with its callbacks\<close>

record ('h, 'ec) echo_conn =
  ec_session :: "('h, string, echo_callback_id, 'ec) ws_session"
  ec_log :: "echo_log list"

text \<open>
  What happens to a connection of this server: the accept, with the context its handler leaves, the
  stream's completions (the callback throws nothing), the strand's tasks, and the close by a stop of
  the listener. Only callbacks send.
\<close>

fun echo_event_ok ::
  "('h, string, echo_callback_id, 'ec) ws_session \<Rightarrow> ('h, string, echo_callback_id, 'ec) session_event \<Rightarrow> bool" where
  "echo_event_ok s (Accepted failed stopping opened) \<longleftrightarrow> opened = echo_opened (wss_context s)"
| "echo_event_ok s (ReadDone (ReadMessage data is_text throws)) \<longleftrightarrow> \<not> throws"
| "echo_event_ok s (ReadDone r) \<longleftrightarrow> True"
| "echo_event_ok s (CloseCalled code) \<longleftrightarrow> code = cc_going_away"
| "echo_event_ok s TaskRun \<longleftrightarrow> True"
| "echo_event_ok s (WriteDone failed) \<longleftrightarrow> True"
| "echo_event_ok s CloseDone \<longleftrightarrow> True"
| "echo_event_ok s StreamDown \<longleftrightarrow> True"
| "echo_event_ok s (SendCalled m) \<longleftrightarrow> False"
| "echo_event_ok s (SetOnMessage cb) \<longleftrightarrow> False"
| "echo_event_ok s (SetOnClose cb) \<longleftrightarrow> False"
| "echo_event_ok s (SetOnError cb) \<longleftrightarrow> False"

fun echo_run_calls ::
  "nat \<Rightarrow> (echo_callback_id, 'ec) ws_call list \<Rightarrow> ('h, 'ec) echo_conn \<Rightarrow> ('h, 'ec) echo_conn option" where
  "echo_run_calls limit [] k = Some k"
| "echo_run_calls limit (c # cs) k =
     (case echo_run_callback (wss_context (ec_session k)) c of
        None \<Rightarrow> None
      | Some (entries, events) \<Rightarrow>
          (case exec (session_next limit) (ec_session k) events of
             None \<Rightarrow> None
           | Some s \<Rightarrow> echo_run_calls limit cs \<lparr>ec_session = s, ec_log = ec_log k @ entries\<rparr>))"

text \<open>One event, then the callbacks it called, inline.\<close>

definition echo_next ::
  "nat \<Rightarrow> ('h, 'ec) echo_conn \<Rightarrow> ('h, string, echo_callback_id, 'ec) session_event \<Rightarrow> ('h, 'ec) echo_conn option" where
  "echo_next limit k e =
     (if \<not> echo_event_ok (ec_session k) e then None
      else case session_next limit (ec_session k) e of
        None \<Rightarrow> None
      | Some s \<Rightarrow>
          echo_run_calls limit (drop (length (wss_calls (ec_session k))) (wss_calls s)) (k\<lparr>ec_session := s\<rparr>))"

definition echo_step ::
  "nat \<Rightarrow> ('h, 'ec) echo_conn \<Rightarrow> ('h, string, echo_callback_id, 'ec) session_event \<Rightarrow> ('h, 'ec) echo_conn \<Rightarrow> bool" where
  "echo_step limit k e k1 \<longleftrightarrow> echo_next limit k e = Some k1"

text \<open>A connection whose upgrade was accepted for a room.\<close>

definition echo_starts :: "string \<Rightarrow> ('h, 'ec) echo_conn \<Rightarrow> bool" where
  "echo_starts room k \<longleftrightarrow>
     (\<exists>c. \<not> wc_closed c \<and> wc_context c = Some room \<and> ec_session k = WebSocketSession c)"

section \<open>What the router is\<close>

definition hello_pattern :: "'p re2 \<Rightarrow> 'p" where
  "hello_pattern R = re_compile R (literal_regex R ''/hello'' [])"

definition room_pattern :: "'p re2 \<Rightarrow> 'p" where
  "room_pattern R = re_compile R (literal_regex R ''/ws/echo/'' [[]])"

text \<open>RE2 compiles the two expressions.\<close>

definition echo_patterns_ok :: "'p re2 \<Rightarrow> bool" where
  "echo_patterns_ok R \<longleftrightarrow> re_ok R (hello_pattern R) \<and> re_ok R (room_pattern R)"

definition echo_routes ::
  "('h, 'p) libs \<Rightarrow> query_parser \<Rightarrow> query_parser
     \<Rightarrow> ('h, string, echo_callback_id, echo_log list, 'p) route list" where
  "echo_routes L origin_form_params uri_reference_params =
     [\<lparr>ro_handler = HttpHandler (echo_hello (lb_fields L)), ro_pattern = hello_pattern (lb_re2 L),
       ro_path = ''/hello'', ro_param_names = [], ro_methods = {Verb_get}, ro_pre = [], ro_post = []\<rparr>,
      \<lparr>ro_handler = WebSocketHandler echo_open, ro_pattern = room_pattern (lb_re2 L),
       ro_path = ''/ws/echo/{room}'', ro_param_names = [''room''], ro_methods = {},
       ro_pre = [WebSocketHandler (echo_auth origin_form_params uri_reference_params)], ro_post = []\<rparr>]"

lemma hello_template:
  assumes "re2_ok R"
  shows "createRegexPattern R ''/hello'' = Some ([], literal_regex R ''/hello'' [])"
  using createRegexPattern_template_rest [OF assms, of "[]" "''/hello''" "[]"]
  by (simp add: template_text_def literal_regex_def)

lemma room_template:
  assumes "re2_ok R"
  shows "createRegexPattern R ''/ws/echo/{room}'' = Some ([''room''], literal_regex R ''/ws/echo/'' [[]])"
proof -
  have "block_wf (''/ws/echo/'', ''room'', [])" by code_simp
  with createRegexPattern_template_rest [OF assms, of "[(''/ws/echo/'', ''room'', [])]" "[]" "[]"] show ?thesis
    by (simp add: template_text_def block_text_def literal_regex_def block_regex_def block_name_def)
qed

lemma echo_cors_compiled:
  "\<exists>p. cors_compile verb_name echo_cors = Inr p \<and> \<not> any_origin p \<and> \<not> pol_credentials p
     \<and> (\<forall>origin. policy_allows p origin \<longleftrightarrow> origin = ''http://localhost:3000'')"
  by (simp add: cors_compile_def echo_cors_def CorsOptions_def Policy_init_def policy_allows_def)

lemma setup_reachable:
  assumes "libs_ok L" and "exec (\<lambda>rt op. setup_call L op rt) (Router_init (lb_fields L)) ops = Some rt"
  shows "built_router L rt"
  unfolding built_router_def
  by (rule exec_reachable [OF assms(2)])
    (auto simp: router_step_def router_starts_def assms(1) intro: reachable_init)

lemma echo_router_shape:
  assumes "libs_ok L" and "echo_router L verb_name op up = Some rt" and "echo_patterns_ok (lb_re2 L)"
  shows "built_router L rt" and "rt_routes rt = echo_routes L op up"
    and "rt_not_found rt = default_not_found (lb_fields L)"
    and "rt_method_not_allowed rt = default_method_not_allowed (lb_fields L)"
    and "\<exists>p. cors_compile verb_name echo_cors = Inr p \<and> rt_globals rt = [cors_handler (lb_fields L) p]"
proof -
  obtain p where p: "cors_compile verb_name echo_cors = Inr p" using echo_cors_compiled by blast
  then have ops: "exec (\<lambda>rt op. setup_call L op rt) (Router_init (lb_fields L))
      (echo_setup L op up (cors_handler (lb_fields L) p)) = Some rt"
    using assms(2) by (simp add: echo_router_def cors_def)
  with assms(1) show "built_router L rt" by (rule setup_reachable)
  have R: "re2_ok (lb_re2 L)" using assms(1) by (simp add: libs_ok_def)
  note defs = echo_setup_def Router_add_http_def Router_add_ws_def add_entry_def Route_def
    hello_template [OF R] room_template [OF R] router_use_def setTrustedProxies_def
  have ok: "re_ok (lb_re2 L) (re_compile (lb_re2 L) (literal_regex (lb_re2 L) ''/hello'' []))"
    "re_ok (lb_re2 L) (re_compile (lb_re2 L) (literal_regex (lb_re2 L) ''/ws/echo/'' [[]]))"
    using assms(3) by (simp_all add: echo_patterns_ok_def hello_pattern_def room_pattern_def)
  obtain q where "rt = (Router_init (lb_fields L))
      \<lparr>rt_proxies := q, rt_globals := [cors_handler (lb_fields L) p], rt_routes := echo_routes L op up\<rparr>"
    using ops ok
    by (auto simp: defs Router_init_def echo_routes_def hello_pattern_def room_pattern_def split: sum.splits)
  with p show "rt_routes rt = echo_routes L op up"
    and "rt_not_found rt = default_not_found (lb_fields L)"
    and "rt_method_not_allowed rt = default_method_not_allowed (lb_fields L)"
    and "\<exists>p. cors_compile verb_name echo_cors = Inr p \<and> rt_globals rt = [cors_handler (lb_fields L) p]"
    by (simp_all add: Router_init_def)
qed

text \<open>Which of the two routes a path is for.\<close>

lemma hello_matches:
  assumes "libs_ok L" and "echo_patterns_ok (lb_re2 L)" and "ascii path"
  shows "path_matches (lb_re2 L) (echo_routes L op up ! 0) path \<longleftrightarrow> path = ''/hello'' \<or> path = ''/hello/''"
proof -
  have "re_match (lb_re2 L) (hello_pattern (lb_re2 L)) path (length ([] :: string list) + 1)
      = map_option ((#) path) (template_match ''/hello'' [] path)"
    unfolding hello_pattern_def
    by (rule re2_literal) (use assms in \<open>simp_all add: libs_ok_def echo_patterns_ok_def hello_pattern_def\<close>)
  then show ?thesis
    by (auto simp: path_matches_def echo_routes_def template_match_def starts_with_iff)
qed

lemma room_match:
  assumes "libs_ok L" and "echo_patterns_ok (lb_re2 L)" and "ascii room" and "slash_free room"
  shows "re_match (lb_re2 L) (room_pattern (lb_re2 L)) (''/ws/echo/'' @ room) 2 = Some [''/ws/echo/'' @ room, room]"
proof -
  have "re_match (lb_re2 L) (room_pattern (lb_re2 L)) (''/ws/echo/'' @ room) (length [[] :: string] + 1)
      = map_option ((#) (''/ws/echo/'' @ room)) (template_match ''/ws/echo/'' [[]] (''/ws/echo/'' @ room))"
    unfolding room_pattern_def
    by (rule re2_literal) (use assms in \<open>simp_all add: libs_ok_def echo_patterns_ok_def room_pattern_def\<close>)
  moreover have "template_match ''/ws/echo/'' [[]] (fill_url ''/ws/echo/'' [[]] [room] @ []) = Some [room]"
    using assms(4) by (intro template_match_fill) (simp_all add: optional_slash_def)
  ultimately show ?thesis by (simp add: fill_url_def numeral_2_eq_2)
qed

section \<open>What the server answers over HTTP\<close>

lemma cors_respond_body:
  "res_body (outcome_state (cors_respond F p m r)) =
     (if headers_get F m ''Origin'' \<noteq> [] \<and> \<not> policy_allows p (headers_get F m ''Origin'') \<and> is_preflight F m
      then ''CORS origin not allowed'' else res_body r)"
  by (simp add: cors_respond_def Let_def answer_preflight_def sendNoContent_def res_send_typed_def)

text \<open>Dispatch of a request that the middleware let through.\<close>

lemma echo_dispatch:
  assumes "libs_ok L" and "echo_patterns_ok (lb_re2 L)" and "ascii path"
    and "rt_not_found rt = default_not_found (lb_fields L)"
    and "rt_method_not_allowed rt = default_method_not_allowed (lb_fields L)"
    and "\<not> hasResponse (ex_response e)"
  shows "\<exists>e1. scan_routes (lb_re2 L) rt path (echo_routes L op up) False RouteParams_init e = Done () e1
    \<and> (res_status (ex_response e1), res_body (ex_response e1)) =
        (if path \<noteq> ''/hello'' \<and> path \<noteq> ''/hello/'' then (404, ''Handler not found'')
         else if rq_method (hr_request (ex_request e)) \<noteq> Verb_get then (405, ''Method Not Allowed'')
         else (200, ''hello from cppgate''))
    \<and> cors_field (lb_fields L) (ex_response e1) ''Access-Control-Allow-Origin''
        = cors_field (lb_fields L) (ex_response e) ''Access-Control-Allow-Origin''
    \<and> ex_world e1 = ex_world e"
proof -
  have R: "re2_ok (lb_re2 L)" and F: "fields_ok (lb_fields L)" using assms(1) by (simp_all add: libs_ok_def)
  obtain r ws where routes: "echo_routes L op up = [r, ws]" by (simp add: echo_routes_def)
  then have kinds: "isWebSocket ws" "\<not> isWebSocket r" "methodMatch r m \<longleftrightarrow> m = Verb_get"
      "path_matches (lb_re2 L) r path \<longleftrightarrow> path = ''/hello'' \<or> path = ''/hello/''" for m
    using hello_matches [OF assms(1-3), of op up]
    by (auto simp: echo_routes_def isWebSocket_def methodMatch_def)
  obtain q where q: "pathMatch (lb_re2 L) r path RouteParams_init = (path_matches (lb_re2 L) r path, q)"
    using pathMatch_cases [OF R rp_inv_init] by blast
  have call: "Route_call r d = responding (res_send_ok (lb_fields L) ''hello from cppgate'' ''text/plain'') d"
    if "\<not> hasResponse (ex_response d)" for d
    using that routes
    by (auto simp: Route_call_def echo_routes_def echo_hello_def responding_def sends_done [OF F] hasResponse_def)
  have field: "cors_field (lb_fields L) (sent (lb_fields L) st b r) ''Access-Control-Allow-Origin''
      = cors_field (lb_fields L) r ''Access-Control-Allow-Origin''" for st b r
    by (rule cors_field_send [OF F]) simp
  note defs = set_params_def responding_def default_handlers_done [OF F]
    serve_route_def assms(4,5) q routes kinds field sends_done [OF F] hasResponse_def
    cors_field_header [OF F]
  have unanswered: "res_status (ex_response e) = 0" using assms(6) by (simp add: hasResponse_def)
  have called: "Route_call r (set_params (Some q) e)
      = responding (res_send_ok (lb_fields L) ''hello from cppgate'' ''text/plain'') (set_params (Some q) e)"
    by (rule call) (use assms(6) in \<open>simp add: set_params_def\<close>)
  show ?thesis
  proof (cases "path_matches (lb_re2 L) r path")
    case True
    then show ?thesis
      by (cases "rq_method (hr_request (ex_request e)) = Verb_get")
        (use called in \<open>auto simp: defs unanswered\<close>)
  next
    case False
    then show ?thesis by (auto simp: defs unanswered)
  qed
qed

lemma echo_http_answers_lemma:
  assumes "libs_ok L" and "echo_router L verb_name op up = Some rt" and "echo_patterns_ok (lb_re2 L)"
    and "ex_response e = HttpResponse (lb_fields L)" and "ascii path"
    and "lb_url_path L (rq_target (hr_request (ex_request e))) = Some path"
    and "headers_get (lb_fields L) (hr_request (ex_request e)) ''Origin'' = origin"
  shows "\<exists>e1. Router_route L rt e = Done () e1
    \<and> (res_status (ex_response e1), res_body (ex_response e1)) =
        (if is_preflight (lb_fields L) (hr_request (ex_request e)) \<and> origin \<noteq> []
         then (if origin = ''http://localhost:3000'' then (204, []) else (403, ''CORS origin not allowed''))
         else if path \<noteq> ''/hello'' \<and> path \<noteq> ''/hello/'' then (404, ''Handler not found'')
         else if rq_method (hr_request (ex_request e)) \<noteq> Verb_get then (405, ''Method Not Allowed'')
         else (200, ''hello from cppgate''))
    \<and> cors_field (lb_fields L) (ex_response e1) ''Access-Control-Allow-Origin''
        = (if origin = ''http://localhost:3000'' then Some origin else None)
    \<and> ex_world e1 = ex_world e"
proof -
  let ?F = "lb_fields L" and ?m = "hr_request (ex_request e)"
  note shape = echo_router_shape [OF assms(1-3)]
  have F: "fields_ok ?F" using assms(1) by (simp add: libs_ok_def)
  from shape(5) obtain p where compiled: "cors_compile verb_name echo_cors = Inr p"
    and globals: "rt_globals rt = [cors_handler ?F p]" by blast
  have p: "\<not> any_origin p" "\<And>o'. policy_allows p o' \<longleftrightarrow> o' = ''http://localhost:3000''"
    using echo_cors_compiled [of verb_name] compiled by force+
  have wf: "libs_ok L" "router_wf L rt" using built_router_wf [OF shape(1)] by auto
  obtain ip where
    ip: "tp_resolve ?F (lb_asio L) (rt_proxies rt) (hr_peer_ip (ex_request e)) (rq_fields ?m) = Some ip"
    using Router_route_resolved [OF wf] by blast
  let ?r = "outcome_state (cors_respond ?F p ?m (HttpResponse ?F))"
  let ?e1 = "e\<lparr>ex_request := setIP ip (ex_request e), ex_response := ?r\<rparr>"
  have m: "hr_request (setIP ip (ex_request e)) = ?m" by (simp add: setIP_def)
  have fresh: "res_status (HttpResponse ?F) = 0" "res_body (HttpResponse ?F) = []"
    "cors_field ?F (HttpResponse ?F) ''Access-Control-Allow-Origin'' = None"
    using fields_okD(1) [OF F] by (simp_all add: HttpResponse_def cors_field_def)
  note answer = cors_respond_cases [OF F, of p ?m "HttpResponse ?F"] cors_respond_body [of ?F p ?m "HttpResponse ?F"]
  have field: "cors_field ?F ?r ''Access-Control-Allow-Origin''
      = (if origin = ''http://localhost:3000'' then Some origin else None)"
    using assms(7) by (simp add: answer(2) fresh p cors_varies_def)
  show ?thesis
  proof (cases "is_preflight ?F ?m \<and> origin \<noteq> []")
    case True
    then have "Router_route L rt e = Done () ?e1"
      using assms(4,7)
      by (simp add: Router_route_def ip globals cors_handler_done [OF F] m hasResponse_def answer(1) p)
    with True field assms(7) show ?thesis by (simp add: answer(1,3) fresh p)
  next
    case False
    then have unanswered: "res_status ?r = 0" using assms(7) by (auto simp: answer(1) fresh p)
    then have "Router_route L rt e = scan_routes (lb_re2 L) rt path (echo_routes L op up) False RouteParams_init ?e1"
      using assms(4,6) by (simp add: Router_route_def ip globals cors_handler_done [OF F] m hasResponse_def shape(2))
    with echo_dispatch [OF assms(1,3,5) shape(3,4), of ?e1 op up] unanswered False field show ?thesis
      by (auto simp: hasResponse_def m)
  qed
qed

section \<open>Upgrading\<close>

text \<open>The context an accepted upgrade hands to the session.\<close>

definition echo_accepted ::
  "string \<Rightarrow> string \<Rightarrow> ('h, string, 'b) ws_context \<Rightarrow> ('h, string, 'b) ws_context" where
  "echo_accepted ip room c =
     c\<lparr>wc_ip := ip, wc_params := [(''room'', room)], wc_context := Some room, wc_route_index := 1\<rparr>"

lemma echo_upgrade_lemma:
  assumes "libs_ok L" and "echo_router L verb_name op up = Some rt" and "echo_patterns_ok (lb_re2 L)"
    and "lb_url_path L (rq_target (wc_request (wx_context x))) = Some (''/ws/echo/'' @ room)"
    and "ascii room" and "slash_free room"
  shows "\<exists>ip. tp_resolve (lb_fields L) (lb_asio L) (rt_proxies rt) (wc_peer_ip (wx_context x))
        (rq_fields (wc_request (wx_context x))) = Some ip
    \<and> Router_upgrade L rt (x, response) =
       (if queries_get (urlQueries op up False (wc_request (wx_context x))) ''token'' = ''secret''
        then Done True (with_context (echo_accepted ip room) x, response)
        else Done False (with_context (\<lambda>c. (ws_reject 401 ''bad token'' c)
               \<lparr>wc_ip := ip, wc_params := [(''room'', room)]\<rparr>) x, sent (lb_fields L) 401 ''bad token'' response))"
proof -
  note shape = echo_router_shape [OF assms(1-3)]
  have wf: "libs_ok L" "router_wf L rt" using built_router_wf [OF shape(1)] by auto
  obtain ip where
    ip: "tp_resolve (lb_fields L) (lb_asio L) (rt_proxies rt) (wc_peer_ip (wx_context x))
        (rq_fields (wc_request (wx_context x))) = Some ip"
    using Router_route_resolved [OF wf] by blast
  obtain r ws where routes: "rt_routes rt = [r, ws]" "\<not> isWebSocket r" "isWebSocket ws"
    and ws: "ro_pattern ws = room_pattern (lb_re2 L)" "ro_param_names ws = [''room'']"
      "ro_pre ws = [WebSocketHandler (echo_auth op up)]"
    by (rule that [of "echo_routes L op up ! 0" "echo_routes L op up ! 1"])
      (simp_all add: shape(2) echo_routes_def isWebSocket_def)
  have R: "re2_ok (lb_re2 L)" and F: "fields_ok (lb_fields L)" using assms(1) by (simp_all add: libs_ok_def)
  obtain path where path: "path = ''/ws/echo/'' @ room" by blast
  have match: "path_matches (lb_re2 L) ws path" "bindings (lb_re2 L) ws path = [(''room'', room)]"
    using room_match [OF assms(1,3,5,6)] by (simp_all add: path path_matches_def bindings_def ws numeral_2_eq_2)
  then have cand: "ws_candidate (lb_re2 L) path ws" and no_cand: "\<not> ws_candidate (lb_re2 L) path r"
    using routes by (simp_all add: ws_candidate_def)
  have "Router_upgrade L rt (x, response)
    = try_upgrade (lb_fields L) rt
        (setIP ip (setPeerIP (wc_peer_ip (wx_context x)) (HttpRequest (wc_request (wx_context x)))))
        ws 1 (with_context (\<lambda>c. c\<lparr>wc_ip := ip, wc_params := [(''room'', room)]\<rparr>) x, response)"
    using scan_upgrade_first [OF R rp_inv_init, of "[r]" path ws rt _ "[]" 0] cand no_cand assms(4) [folded path]
    by (simp add: Router_upgrade_def Let_def ip routes match with_context_def)
  with ip show ?thesis
    by (simp add: try_upgrade_def Route_upgrade_def ws echo_auth_def Let_def with_context_def reject_upgrade_def
        send_done [OF F] bodiless_status_def
        ws_reject_def ws_setContext_def ws_urlParam_def echo_accepted_def)
qed

section \<open>Replies\<close>

text \<open>The replies that the messages received so far call for, and the sends that are posted.\<close>

definition echo_reply :: "string \<Rightarrow> ws_message_view \<Rightarrow> ws_message option" where
  "echo_reply room msg =
     (if wm_data msg = ''bye'' then None
      else Some (if wm_is_text msg then (''['' @ room @ ''] '' @ wm_data msg, True) else (wm_data msg, False)))"

fun echo_replies :: "string \<Rightarrow> ('b, 'ec) ws_call list \<Rightarrow> ws_message list" where
  "echo_replies room [] = []"
| "echo_replies room (OnMessage cb msg # cs) =
     (case echo_reply room msg of Some m \<Rightarrow> m # echo_replies room cs | None \<Rightarrow> echo_replies room cs)"
| "echo_replies room (c # cs) = echo_replies room cs"

fun posted_sends :: "strand_task list \<Rightarrow> ws_message list" where
  "posted_sends [] = []"
| "posted_sends (TaskSend m # ts) = m # posted_sends ts"
| "posted_sends (TaskClose code # ts) = posted_sends ts"

lemma posted_sends_append [simp]: "posted_sends (ts @ us) = posted_sends ts @ posted_sends us"
  by (induction ts rule: posted_sends.induct) auto

lemma echo_replies_append [simp]: "echo_replies room (cs @ ds) = echo_replies room cs @ echo_replies room ds"
  by (induction room cs rule: echo_replies.induct) (auto split: option.splits)

definition outgoing :: "('h, 'c, 'b, 'ec) ws_session \<Rightarrow> ws_message list" where
  "outgoing s = wss_accepted s @ posted_sends (wss_posted s)"

text \<open>An open connection that is not closing and not about to be closed for its full queue.\<close>

definition echo_live :: "('h, 'c, 'b, 'ec) ws_session \<Rightarrow> bool" where
  "echo_live s \<longleftrightarrow> ws_open s \<and> \<not> wss_closing s \<and> TaskClose cc_policy_error \<notin> set (wss_posted s)"

lemma on_read_effect:
  assumes "\<not> (\<exists>data is_text. r = ReadMessage data is_text True)"
  shows "wss_accepted (on_read r s) = wss_accepted s" and "wss_posted (on_read r s) = wss_posted s"
    and "ws_open (on_read r s) = ws_open s" and "wss_closing (on_read r s) = wss_closing s"
    and "wss_phase (on_read r s) = wss_phase s"
    and "wc_context (wss_context (on_read r s)) = wc_context (wss_context s)"
    and "\<exists>new. wss_calls (on_read r s) = wss_calls s @ new"
  using assms by (cases r; simp add: on_read_def Let_def do_read_def emit_defs)+

lemma run_task_effect:
  assumes "wss_posted s \<noteq> []"
  shows "subseq (outgoing (run_task limit s)) (outgoing s)"
    and "echo_live (run_task limit s) \<Longrightarrow> outgoing (run_task limit s) = outgoing s \<and> echo_live s"
    and "wss_calls (run_task limit s) = wss_calls s" and "wss_phase (run_task limit s) = wss_phase s"
    and "wss_context (run_task limit s) = wss_context s"
proof -
  obtain t ts where ts: "wss_posted s = t # ts" using assms by (cases "wss_posted s") auto
  have skip: "subseq (xs @ ys) (xs @ m # ys)" for xs ys and m :: ws_message
    by (rule list_emb_append_mono) auto
  show "subseq (outgoing (run_task limit s)) (outgoing s)"
    by (cases t) (simp_all add: skip run_task_def ts task_send_def task_close_def outgoing_def Let_def session_close_def
        do_write_def split: list.split)
  show "outgoing (run_task limit s) = outgoing s \<and> echo_live s" if "echo_live (run_task limit s)"
    using that
    by (cases t) (auto simp: run_task_def ts task_send_def task_close_def outgoing_def Let_def session_close_def
        echo_live_def split: if_splits)
  show "wss_calls (run_task limit s) = wss_calls s" "wss_phase (run_task limit s) = wss_phase s"
    "wss_context (run_task limit s) = wss_context s"
    by (cases t; simp add: run_task_def ts task_send_def task_close_def Let_def session_close_def)+
qed

text \<open>What an event does before its callbacks run.\<close>

lemma echo_event_effect:
  assumes "session_inv limit s" and "echo_event_ok s e" and "session_next limit s e = Some t"
  shows "wc_context (wss_context t) = wc_context (wss_context s) \<and> (\<exists>new. wss_calls t = wss_calls s @ new)
    \<and> subseq (outgoing t) (outgoing s)
    \<and> (echo_live t \<longrightarrow> outgoing t = outgoing s \<and> (echo_live s \<or> wss_calls s = []))"
proof (cases e)
  case TaskRun
  with assms(3) have "wss_posted s \<noteq> []" "t = run_task limit s" by (auto split: if_splits)
  with run_task_effect show ?thesis by (metis append_Nil2)
next
  case (ReadDone r)
  then have r: "\<not> (\<exists>data is_text. r = ReadMessage data is_text True)" using assms(2) by auto
  from ReadDone assms(3) have "t = on_read r s" by (auto split: if_splits)
  with on_read_effect [OF r, of s] show ?thesis by (simp add: outgoing_def echo_live_def)
next
  case (Accepted failed stopping opened)
  with assms have "t = on_accept failed stopping (echo_opened (wss_context s)) s" "wss_phase s = Accepting"
    by (auto split: if_splits)
  with assms(1) show ?thesis
    by (simp add: on_accept_def do_read_def session_close_def outgoing_def echo_opened_def ws_onError_def
        ws_onClose_def ws_onMessage_def session_inv_def)
next
  case (WriteDone failed)
  with assms(3) have "t = on_write failed s" by (auto split: if_splits)
  then show ?thesis
    by (cases failed) (auto simp: on_write_def Let_def do_write_def outgoing_def echo_live_def split: list.splits)
next
  case CloseDone
  with assms(3) obtain code where "t = on_close code s" by (auto split: option.splits)
  then show ?thesis by (simp add: on_close_def outgoing_def echo_live_def emitClose_def)
qed (use assms in \<open>auto simp: session_close_def outgoing_def echo_live_def\<close>)

section \<open>The connection's invariant\<close>

definition reply_task :: "string \<Rightarrow> ws_message_view \<Rightarrow> strand_task" where
  "reply_task room msg = (case echo_reply room msg of Some m \<Rightarrow> TaskSend m | None \<Rightarrow> TaskClose cc_normal)"

lemma echo_callback_sends:
  assumes "session_reachable limit s" and "wc_context (wss_context s) = Some room"
  shows "\<exists>entries events t p ts. echo_run_callback (wss_context s) c = Some (entries, events)
    \<and> exec (session_next limit) s events = Some t \<and> t = s\<lparr>wss_pending := p, wss_posted := wss_posted s @ ts\<rparr>
    \<and> posted_sends ts = echo_replies room [c] \<and> TaskClose cc_policy_error \<notin> set ts \<and> session_reachable limit t"
proof -
  have reach: "session_reachable limit t" if "exec (session_next limit) s es = Some t" for es t
    using that assms(1) unfolding session_reachable_def
    by (rule exec_reachable) (simp add: session_step_def)
  have quiet: "\<exists>t p ts. exec (session_next limit) s [] = Some t
    \<and> t = s\<lparr>wss_pending := p, wss_posted := wss_posted s @ ts\<rparr>
    \<and> posted_sends ts = [] \<and> TaskClose cc_policy_error \<notin> set ts \<and> session_reachable limit t"
    using assms(1) by (intro exI [of _ s] exI [of _ "wss_pending s"] exI [of _ "[]"]) simp
  show ?thesis
  proof (cases c)
    case (OnMessage cb msg)
    define e :: "('a, string, echo_callback_id, 'b) session_event" where
      "e = (case echo_reply room msg of Some m \<Rightarrow> SendCalled m | None \<Rightarrow> CloseCalled cc_normal)"
    define t where "t = (case echo_reply room msg of
        Some m \<Rightarrow> send_internal m s | None \<Rightarrow> session_close cc_normal s)"
    have "echo_run_callback (wss_context s) c = Some ([], [e])"
      using assms(2) OnMessage by (simp add: echo_message_def echo_reply_def e_def wm_isText_def)
    moreover have run: "exec (session_next limit) s [e] = Some t"
      by (simp add: e_def t_def split: option.split)
    moreover have "\<exists>p. t = s\<lparr>wss_pending := p, wss_posted := wss_posted s @ [reply_task room msg]\<rparr>"
      by (cases "echo_reply room msg")
        (auto simp: t_def send_internal_def session_close_def reply_task_def intro: exI [of _ "wss_pending s"])
    moreover have "posted_sends [reply_task room msg] = echo_replies room [c]"
      "TaskClose cc_policy_error \<notin> set [reply_task room msg]"
      using OnMessage by (simp_all add: reply_task_def split: option.split)
    ultimately show ?thesis using reach [OF run] by blast
  qed (use quiet in auto)
qed

lemma echo_calls_effect:
  assumes "session_reachable limit (ec_session k)" and "wc_context (wss_context (ec_session k)) = Some room"
  shows "\<exists>k1 p ts. echo_run_calls limit cs k = Some k1
    \<and> ec_session k1 = (ec_session k)\<lparr>wss_pending := p, wss_posted := wss_posted (ec_session k) @ ts\<rparr>
    \<and> posted_sends ts = echo_replies room cs \<and> TaskClose cc_policy_error \<notin> set ts
    \<and> session_reachable limit (ec_session k1)"
  using assms
proof (induction cs arbitrary: k)
  case Nil
  then show ?case by (intro exI [of _ k] exI [of _ "wss_pending (ec_session k)"] exI [of _ "[]"]) simp
next
  case (Cons c cs)
  from echo_callback_sends [OF Cons.prems, of c] obtain entries events t p ts where
    c: "echo_run_callback (wss_context (ec_session k)) c = Some (entries, events)"
      "exec (session_next limit) (ec_session k) events = Some t"
      "t = (ec_session k)\<lparr>wss_pending := p, wss_posted := wss_posted (ec_session k) @ ts\<rparr>"
      "posted_sends ts = echo_replies room [c]" "TaskClose cc_policy_error \<notin> set ts" "session_reachable limit t"
    by blast
  let ?k = "\<lparr>ec_session = t, ec_log = ec_log k @ entries\<rparr>"
  have "wc_context (wss_context (ec_session ?k)) = Some room" using c(3) Cons.prems(2) by simp
  with Cons.IH [of ?k] c(6) obtain k1 p1 ts1 where
    k1: "echo_run_calls limit cs ?k = Some k1"
      "ec_session k1 = t\<lparr>wss_pending := p1, wss_posted := wss_posted t @ ts1\<rparr>"
      "posted_sends ts1 = echo_replies room cs" "TaskClose cc_policy_error \<notin> set ts1"
      "session_reachable limit (ec_session k1)" by auto
  have "echo_replies room (c # cs) = echo_replies room [c] @ echo_replies room cs"
    using echo_replies_append [of room "[c]" cs] by simp
  with c k1 show ?case
    by (intro exI [of _ k1] exI [of _ p1] exI [of _ "ts @ ts1"]) simp
qed

definition echo_inv :: "nat \<Rightarrow> string \<Rightarrow> ('h, 'ec) echo_conn \<Rightarrow> bool" where
  "echo_inv limit room k \<longleftrightarrow>
     session_reachable limit (ec_session k) \<and> wc_context (wss_context (ec_session k)) = Some room
   \<and> subseq (outgoing (ec_session k)) (echo_replies room (wss_calls (ec_session k)))
   \<and> (echo_live (ec_session k) \<longrightarrow> outgoing (ec_session k) = echo_replies room (wss_calls (ec_session k)))"

lemma echo_next_effect:
  assumes "echo_inv limit room k" and "echo_event_ok (ec_session k) e"
    and "session_next limit (ec_session k) e = Some s"
  shows "\<exists>k1. echo_next limit k e = Some k1 \<and> echo_inv limit room k1"
proof -
  let ?s = "ec_session k"
  have reach: "session_reachable limit ?s" and room: "wc_context (wss_context ?s) = Some room"
    and sub: "subseq (outgoing ?s) (echo_replies room (wss_calls ?s))"
    and eq: "echo_live ?s \<Longrightarrow> outgoing ?s = echo_replies room (wss_calls ?s)"
    using assms(1) by (simp_all add: echo_inv_def)
  from echo_event_effect [OF session_reachable_inv [OF reach] assms(2,3)] obtain new where
    s: "wc_context (wss_context s) = Some room" "wss_calls s = wss_calls ?s @ new"
      "subseq (outgoing s) (outgoing ?s)"
      "echo_live s \<Longrightarrow> outgoing s = outgoing ?s \<and> (echo_live ?s \<or> wss_calls ?s = [])"
    using room by auto
  have "session_reachable limit s"
    using reach assms(3) unfolding session_reachable_def by (auto intro: reachable_step simp: session_step_def)
  with echo_calls_effect [of limit "k\<lparr>ec_session := s\<rparr>" room new] s(1) obtain k1 p ts where
    k1: "echo_run_calls limit new (k\<lparr>ec_session := s\<rparr>) = Some k1"
      "ec_session k1 = s\<lparr>wss_pending := p, wss_posted := wss_posted s @ ts\<rparr>"
      "posted_sends ts = echo_replies room new" "TaskClose cc_policy_error \<notin> set ts"
      "session_reachable limit (ec_session k1)" by auto
  have out: "outgoing (ec_session k1) = outgoing s @ echo_replies room new"
    by (simp add: outgoing_def k1(2,3))
  have live: "echo_live (ec_session k1) \<longleftrightarrow> echo_live s" using k1(4) by (auto simp: echo_live_def k1(2))
  have "subseq (outgoing s) (echo_replies room (wss_calls ?s))" using s(3) sub by (rule subseq_order.order_trans)
  then have "subseq (outgoing s @ echo_replies room new) (echo_replies room (wss_calls ?s) @ echo_replies room new)"
    by (rule list_emb_append_mono) simp
  moreover have "outgoing ?s = echo_replies room (wss_calls ?s)" if "echo_live s"
    using s(4) [OF that] eq sub by auto
  ultimately have "echo_inv limit room k1"
    using k1 s live out by (auto simp: echo_inv_def)
  moreover have "echo_next limit k e = Some k1" using assms(2,3) k1(1) s(2) by (simp add: echo_next_def)
  ultimately show ?thesis by blast
qed

lemma echo_inv_start: "echo_starts room k \<Longrightarrow> echo_inv limit room k"
  by (auto simp: echo_starts_def echo_inv_def WebSocketSession_def outgoing_def session_reachable_def
      session_starts_def intro!: reachable_init)

lemma echo_inv_step: "echo_inv limit room k \<Longrightarrow> echo_step limit k e k1 \<Longrightarrow> echo_inv limit room k1"
  using echo_next_effect [of limit room k e]
  by (auto simp: echo_step_def echo_next_def split: if_splits option.splits)

interpretation echo_system: invariant_system "echo_starts room" "echo_step limit" "echo_inv limit room"
  for limit :: nat and room :: string
  by unfold_locales (auto intro: echo_inv_start echo_inv_step)

definition echo_reachable :: "nat \<Rightarrow> string \<Rightarrow> ('h, 'ec) echo_conn \<Rightarrow> bool" where
  "echo_reachable limit room k \<longleftrightarrow> reachable (echo_starts room) (echo_step limit) k"

lemma echo_reachable_inv: "echo_reachable limit room k \<Longrightarrow> echo_inv limit room k"
  unfolding echo_reachable_def by (rule echo_system.reachable_inv)

section \<open>Starting the server\<close>

lemma echo_flags_cases:
  "Listener_start (proto_HTTPS OR proto_WSS) True = Inr (False, True)"
  "Listener_start (proto_HTTP OR proto_HTTPS OR proto_WS OR proto_WSS) True = Inr (True, True)"
  "Listener_start (proto_HTTP OR proto_WS) False = Inr (True, False)"
  by code_simp+

lemma stoul_append: "stoul (ds @ [c]) = stoul ds * 10 + digit_value c"
  by (simp add: stoul_def)

lemma c_digit_char: "n < 10 \<Longrightarrow> c_digit (char_of (48 + n)) \<and> digit_value (char_of (48 + n)) = n"
  by (simp add: c_digit_def digit_value_def)

lemma digits_of_digits: "\<forall>c \<in> set (digits_of n). c_digit c"
proof (induction n rule: digits_of.induct)
  case (1 n)
  then show ?case by (subst digits_of.simps) (auto simp: c_digit_char)
qed

lemma stoul_digits_of: "stoul (digits_of n) = n"
proof (induction n rule: digits_of.induct)
  case (1 n)
  then show ?case
    using c_digit_char [of n] c_digit_char [of "n mod 10"]
    by (subst digits_of.simps) (simp add: stoul_append [of "[]", simplified] stoul_append, simp add: stoul_def)
qed

lemma digits_of_not_Nil: "digits_of n \<noteq> []"
  by (subst digits_of.simps) simp

lemma atoi_digits_of:
  assumes "n < 2 ^ 31"
  shows "atoi (digits_of n) = Some (int n)"
proof -
  obtain c cs where cs: "digits_of n = c # cs" using digits_of_not_Nil by (cases "digits_of n") auto
  then have c: "c_digit c" using digits_of_digits [of n] by simp
  then have "\<not> c_space c" "c \<noteq> CHR ''-''" "c \<noteq> CHR ''+''" by (auto simp: c_digit_def c_space_def)
  moreover have tail: "takeWhile c_digit cs = cs"
    using digits_of_digits [of n] by (simp add: cs takeWhile_eq_all_conv)
  ultimately have "signed_number (dropWhile c_space (digits_of n)) = int n"
    using stoul_digits_of [of n] c by (simp add: cs signed_number_def tail)
  with assms show ?thesis by (simp add: atoi_def Let_def)
qed

section \<open>A server for closed examples\<close>

definition echo_libs :: "(example_h, string) libs" where
  "echo_libs = example_libs\<lparr>lb_asio := example_asio
     \<lparr>make_address := map_of ((''127.0.0.1'', V4 0x7F000001) # example_hosts)\<rparr>\<rparr>"

definition echo_query :: query_parser where
  "echo_query target =
     (if target = ''/ws/echo/lobby?token=secret'' then Some [(''token'', ''secret'')] else Some [])"

lemma echo_libs_ok: "libs_ok echo_libs"
  using example_libs_ok by (simp add: libs_ok_def echo_libs_def asio_ok_def)

lemma echo_libs_simps [simp]:
  "lb_fields echo_libs = alist_fields" "lb_re2 echo_libs = example_re2"
  by (simp_all add: echo_libs_def)

lemma echo_example_patterns: "echo_patterns_ok (lb_re2 echo_libs)"
  by (simp add: echo_patterns_ok_def)

lemma echo_example_router: "\<exists>rt. echo_router echo_libs example_verb_name echo_query echo_query = Some rt"
proof -
  obtain p where p: "cors_compile example_verb_name echo_cors = Inr p" using echo_cors_compiled by blast
  have q: "\<exists>q. build_proxies (lb_asio echo_libs) [''127.0.0.1''] TrustedProxies_init = Inr q"
    by (rule exI [of _ "\<lparr>tp_v4 = [(0x7F000001, 32)], tp_v6 = []\<rparr>"]) code_simp
  then obtain q where "build_proxies (lb_asio echo_libs) [''127.0.0.1''] TrustedProxies_init = Inr q" by blast
  then show ?thesis
    by (simp add: echo_router_def cors_def p echo_setup_def Router_add_http_def Router_add_ws_def add_entry_def
        Route_def hello_template [OF example_re2_ok] room_template [OF example_re2_ok] setTrustedProxies_def)
qed

definition echo_request :: "verb \<Rightarrow> string \<Rightarrow> example_h \<Rightarrow> (example_h, string, echo_log list) exchange" where
  "echo_request method target header =
     \<lparr>ex_request = setPeerIP ''203.0.113.7''
        (HttpRequest \<lparr>rq_method = method, rq_target = target, rq_version = 11, rq_fields = header, rq_body = []\<rparr>),
      ex_response = HttpResponse alist_fields, ex_world = []\<rparr>"

definition echo_ws :: "string \<Rightarrow> (example_h, string, echo_callback_id, echo_log list) ws_exchange" where
  "echo_ws target =
     \<lparr>wx_context = WebSocketContext (hr_request (ex_request (echo_request Verb_get target []))) ''203.0.113.7'',
      wx_world = []\<rparr>"

text \<open>A connection in a room: a text is answered, a binary message is waiting, then the peer says bye.\<close>

definition echo_example_start :: "(example_h, nat) echo_conn" where
  "echo_example_start =
     \<lparr>ec_session = WebSocketSession (echo_accepted ''203.0.113.7'' ''lobby''
        (wx_context (echo_ws ''/ws/echo/lobby?token=secret''))), ec_log = []\<rparr>"

definition echo_example_events :: "(example_h, string, echo_callback_id, nat) session_event list" where
  "echo_example_events =
     [Accepted False False (echo_opened (wss_context (ec_session echo_example_start))),
      ReadDone (ReadMessage ''hi'' True False), ReadDone (ReadMessage ''xy'' False False),
      TaskRun, TaskRun, WriteDone False, ReadDone (ReadMessage ''bye'' True False)]"

lemma echo_example_run:
  "case exec (echo_next 8) echo_example_start echo_example_events of
     None \<Rightarrow> False
   | Some k \<Rightarrow> wss_written (ec_session k) = [(''[lobby] hi'', True)] \<and> wss_queue (ec_session k) = [(''xy'', False)]
       \<and> wss_lost (ec_session k) = [] \<and> wss_posted (ec_session k) = [TaskClose cc_normal] \<and> echo_live (ec_session k)"
  by code_simp

lemma echo_exec_reachable:
  assumes "exec (echo_next 8) echo_example_start es = Some k"
  shows "echo_reachable 8 ''lobby'' k"
  unfolding echo_reachable_def
proof (rule exec_reachable [OF assms])
  show "reachable (echo_starts ''lobby'') (echo_step 8) echo_example_start"
    unfolding echo_starts_def
    by (intro reachable_init exI [of _ "echo_accepted ''203.0.113.7'' ''lobby''
        (wx_context (echo_ws ''/ws/echo/lobby?token=secret''))"])
      (simp add: echo_example_start_def echo_accepted_def echo_ws_def WebSocketContext_def)
qed (simp add: echo_step_def)

section \<open>Properties\<close>

text \<open>C13: What the echo server answers over HTTP, for every request whose path is ASCII, from the trusted proxies
  and the CORS middleware to the routes: the greeting for GET /hello with or without a last slash, 405 for
  another method there, 404 elsewhere (the WebSocket route included), and for a preflight 204 or 403 before any
  route; the response opens to pages of the configured origin only.\<close>

theorem echo_http_answers:
  assumes "libs_ok L" and "echo_router L verb_name op up = Some rt" and "echo_patterns_ok (lb_re2 L)"
    and "ex_response e = HttpResponse (lb_fields L)" and "ascii path"
    and "lb_url_path L (rq_target (hr_request (ex_request e))) = Some path"
    and "headers_get (lb_fields L) (hr_request (ex_request e)) ''Origin'' = origin"
  shows "\<exists>e1. Router_route L rt e = Done () e1
    \<and> (res_status (ex_response e1), res_body (ex_response e1)) =
        (if is_preflight (lb_fields L) (hr_request (ex_request e)) \<and> origin \<noteq> []
         then (if origin = ''http://localhost:3000'' then (204, []) else (403, ''CORS origin not allowed''))
         else if path \<noteq> ''/hello'' \<and> path \<noteq> ''/hello/'' then (404, ''Handler not found'')
         else if rq_method (hr_request (ex_request e)) \<noteq> Verb_get then (405, ''Method Not Allowed'')
         else (200, ''hello from cppgate''))
    \<and> cors_field (lb_fields L) (ex_response e1) ''Access-Control-Allow-Origin''
        = (if origin = ''http://localhost:3000'' then Some origin else None)
    \<and> ex_world e1 = ex_world e"
  by (rule echo_http_answers_lemma [OF assms])

theorem echo_http_answers_witness:
  "\<exists>rt e1 e2. echo_router echo_libs example_verb_name echo_query echo_query = Some rt
     \<and> Router_route echo_libs rt (echo_request Verb_get ''/hello/'' [(''Origin'', ''http://evil.org'')]) = Done () e1
     \<and> (res_status (ex_response e1), res_body (ex_response e1)) = (200, ''hello from cppgate'')
     \<and> cors_field alist_fields (ex_response e1) ''Access-Control-Allow-Origin'' = None
     \<and> Router_route echo_libs rt (echo_request Verb_get ''/ws/echo/a'' []) = Done () e2
     \<and> res_status (ex_response e2) = 404"
proof -
  obtain rt where rt: "echo_router echo_libs example_verb_name echo_query echo_query = Some rt"
    using echo_example_router by blast
  note request = echo_request_def HttpRequest_def setPeerIP_def
  have verb: "rq_method (hr_request (ex_request (echo_request m t h))) = m"
    and target: "rq_target (hr_request (ex_request (echo_request m t h))) = t"
    and fresh: "ex_response (echo_request m t h) = HttpResponse (lb_fields echo_libs)"
    and pre: "\<not> is_preflight alist_fields (hr_request (ex_request (echo_request Verb_get t h)))" for m t h
    by (simp_all add: is_preflight_def request)
  have url: "lb_url_path echo_libs ''/hello/'' = Some ''/hello/''"
    "lb_url_path echo_libs ''/ws/echo/a'' = Some ''/ws/echo/a''" by code_simp+
  have origin: "headers_get (lb_fields echo_libs) (hr_request (ex_request (echo_request Verb_get ''/hello/''
      [(''Origin'', ''http://evil.org'')]))) ''Origin'' = ''http://evil.org''"
    "headers_get (lb_fields echo_libs) (hr_request (ex_request (echo_request Verb_get ''/ws/echo/a'' []))) ''Origin'' = []"
    by code_simp+
  have "\<exists>e1. Router_route echo_libs rt (echo_request Verb_get ''/hello/'' [(''Origin'', ''http://evil.org'')]) = Done () e1
     \<and> (res_status (ex_response e1), res_body (ex_response e1)) = (200, ''hello from cppgate'')
     \<and> cors_field alist_fields (ex_response e1) ''Access-Control-Allow-Origin'' = None"
    using echo_http_answers [OF echo_libs_ok rt echo_example_patterns fresh, of "''/hello/''" Verb_get "''/hello/''",
        unfolded target, OF _ url(1) origin(1)] by (simp add: pre verb) blast
  moreover have "\<exists>e2. Router_route echo_libs rt (echo_request Verb_get ''/ws/echo/a'' []) = Done () e2
     \<and> res_status (ex_response e2) = 404"
    using echo_http_answers [OF echo_libs_ok rt echo_example_patterns fresh, of "''/ws/echo/a''" Verb_get "''/ws/echo/a''",
        unfolded target, OF _ url(2) origin(2)] by (simp add: pre verb) blast
  ultimately show ?thesis using rt by blast
qed

text \<open>C15: Only the right token opens a room: an upgrade of /ws/echo/room, for a room of ASCII characters other than
  a slash, is accepted with it, with the room as the connection's data, and opening it installs the callbacks and gives the start of an echo connection
  in that room; any other token is answered with 401 and nothing is stored.\<close>

theorem echo_upgrade_by_token:
  assumes "libs_ok L" and "echo_router L verb_name op up = Some rt" and "echo_patterns_ok (lb_re2 L)"
    and "lb_url_path L (rq_target (wc_request (wx_context x))) = Some (''/ws/echo/'' @ room)"
    and "ascii room" and "slash_free room" and "\<not> wc_closed (wx_context x)"
  shows "if queries_get (urlQueries op up False (wc_request (wx_context x))) ''token'' = ''secret''
    then \<exists>y z. Router_upgrade L rt (x, response) = Done True (y, response)
      \<and> Router_open close rt y = Done () z \<and> wx_context z = echo_opened (wx_context y)
      \<and> wx_world z = wx_world x @ [LogOpen (wc_ip (wx_context y)) room]
      \<and> echo_starts room \<lparr>ec_session = WebSocketSession (wx_context y), ec_log = []\<rparr>
    else \<exists>y r. Router_upgrade L rt (x, response) = Done False (y, r) \<and> wx_world y = wx_world x
      \<and> (res_status r, res_body r) = (401, ''bad token'')
      \<and> wc_context (wx_context y) = wc_context (wx_context x)"
proof -
  note shape = echo_router_shape [OF assms(1-3)]
  from echo_upgrade_lemma [OF assms(1-6), of response] obtain ip where up:
    "Router_upgrade L rt (x, response) =
       (if queries_get (urlQueries op up False (wc_request (wx_context x))) ''token'' = ''secret''
        then Done True (with_context (echo_accepted ip room) x, response)
        else Done False (with_context (\<lambda>c. (ws_reject 401 ''bad token'' c)
               \<lparr>wc_ip := ip, wc_params := [(''room'', room)]\<rparr>) x, sent (lb_fields L) 401 ''bad token'' response))"
    by blast
  let ?y = "with_context (echo_accepted ip room) x"
  have y: "wc_context (wx_context ?y) = Some room" "wc_route_index (wx_context ?y) = 1" "wx_world ?y = wx_world x"
    "wc_closed (wx_context ?y) = wc_closed (wx_context x)"
    by (simp_all add: with_context_def echo_accepted_def)
  have "Router_open close rt ?y = Done () (?y\<lparr>wx_world := wx_world x @ [LogOpen (wc_ip (wx_context ?y)) room],
      wx_context := echo_opened (wx_context ?y)\<rparr>)"
    using y by (simp add: Router_open_def Let_def shape(2) echo_routes_def Route_open_def echo_open_def)
  moreover have "echo_starts room \<lparr>ec_session = WebSocketSession (wx_context ?y), ec_log = []\<rparr>"
    using y assms(7) unfolding echo_starts_def by (intro exI [of _ "wx_context ?y"]) simp
  ultimately have opened: "\<exists>z. Router_open close rt ?y = Done () z \<and> wx_context z = echo_opened (wx_context ?y)
      \<and> wx_world z = wx_world x @ [LogOpen (wc_ip (wx_context ?y)) room]
      \<and> echo_starts room \<lparr>ec_session = WebSocketSession (wx_context ?y), ec_log = []\<rparr>" by simp
  show ?thesis
  proof (cases "queries_get (urlQueries op up False (wc_request (wx_context x))) ''token'' = ''secret''")
    case True
    from opened up [unfolded if_P [OF True]] show ?thesis unfolding if_P [OF True] by blast
  next
    case False
    with up show ?thesis by (simp add: with_context_def ws_reject_def)
  qed
qed

theorem echo_upgrade_by_token_witness:
  "\<exists>rt y r. echo_router echo_libs example_verb_name echo_query echo_query = Some rt
     \<and> Router_upgrade echo_libs rt (echo_ws ''/ws/echo/lobby?token=guess'', HttpResponse alist_fields) = Done False (y, r)
     \<and> (res_status r, res_body r) = (401, ''bad token'')
     \<and> (\<exists>y z. Router_upgrade echo_libs rt (echo_ws ''/ws/echo/lobby?token=secret'', HttpResponse alist_fields)
           = Done True (y, HttpResponse alist_fields)
         \<and> Router_open (\<lambda>code x. x) rt y = Done () z \<and> wx_context z = echo_opened (wx_context y))"
proof -
  obtain rt where rt: "echo_router echo_libs example_verb_name echo_query echo_query = Some rt"
    using echo_example_router by blast
  note common = echo_upgrade_by_token [OF echo_libs_ok rt echo_example_patterns, where room = "''lobby''"
      and response = "HttpResponse alist_fields" and close = "\<lambda>code x. x"]
  have url: "lb_url_path echo_libs (rq_target (wc_request (wx_context (echo_ws ''/ws/echo/lobby?token=guess''))))
        = Some (''/ws/echo/'' @ ''lobby'')"
    "lb_url_path echo_libs (rq_target (wc_request (wx_context (echo_ws ''/ws/echo/lobby?token=secret''))))
        = Some (''/ws/echo/'' @ ''lobby'')" by code_simp+
  have query: "queries_get (urlQueries echo_query echo_query False
        (wc_request (wx_context (echo_ws ''/ws/echo/lobby?token=guess'')))) ''token'' \<noteq> ''secret''"
    "queries_get (urlQueries echo_query echo_query False
        (wc_request (wx_context (echo_ws ''/ws/echo/lobby?token=secret'')))) ''token'' = ''secret''" by code_simp+
  have ok: "ascii ''lobby''" "slash_free ''lobby''" "\<not> wc_closed (wx_context (echo_ws t))" for t
    by (simp_all add: slash_free_def echo_ws_def WebSocketContext_def)
  from common [OF url(1) ok, unfolded if_not_P [OF query(1)]] common [OF url(2) ok, unfolded if_P [OF query(2)]] rt
  show ?thesis by blast
qed

text \<open>C14: An echo connection answers what it gets: the messages written and waiting are, in order, among the
  replies that the messages received call for (a text with the room before it, binary data as it came,
  nothing for bye), and while the connection is open, not closing and no write failed, every reply is
  written, waiting or posted.\<close>

theorem echo_replies_in_order:
  assumes "echo_reachable limit room k"
  shows "subseq (wss_written (ec_session k) @ wss_queue (ec_session k)) (echo_replies room (wss_calls (ec_session k)))
    \<and> (echo_live (ec_session k) \<and> wss_lost (ec_session k) = [] \<longrightarrow>
        echo_replies room (wss_calls (ec_session k))
          = wss_written (ec_session k) @ wss_queue (ec_session k) @ posted_sends (wss_posted (ec_session k)))"
proof -
  let ?s = "ec_session k"
  have inv: "session_reachable limit ?s" "subseq (outgoing ?s) (echo_replies room (wss_calls ?s))"
    "echo_live ?s \<longrightarrow> outgoing ?s = echo_replies room (wss_calls ?s)"
    using echo_reachable_inv [OF assms] by (simp_all add: echo_inv_def)
  have order: "subseq (wss_written ?s @ wss_queue ?s) (wss_accepted ?s)"
    and kept: "wss_lost ?s = [] \<Longrightarrow> wss_accepted ?s = wss_written ?s @ wss_queue ?s"
    using inv(1) session_queue.in_order session_queue.nothing_lost unfolding session_reachable_def by blast+
  have "subseq (wss_written ?s @ wss_queue ?s) (outgoing ?s)"
    by (rule subseq_order.order_trans [OF order])
      (use list_emb_append_mono [of "(=)" "wss_accepted ?s" "wss_accepted ?s" "[]"] in \<open>simp add: outgoing_def\<close>)
  with inv kept show ?thesis by (auto simp: outgoing_def intro: subseq_order.order_trans)
qed

theorem echo_replies_in_order_witness:
  "\<exists>k. exec (echo_next 8) echo_example_start echo_example_events = Some k
     \<and> wss_written (ec_session k) = [(''[lobby] hi'', True)]
     \<and> echo_replies ''lobby'' (wss_calls (ec_session k)) = [(''[lobby] hi'', True), (''xy'', False)]"
proof -
  obtain k where k: "exec (echo_next 8) echo_example_start echo_example_events = Some k"
    "wss_written (ec_session k) = [(''[lobby] hi'', True)]" "wss_queue (ec_session k) = [(''xy'', False)]"
    "wss_lost (ec_session k) = []" "wss_posted (ec_session k) = [TaskClose cc_normal]" "echo_live (ec_session k)"
    using echo_example_run by (auto split: option.splits)
  with echo_replies_in_order [OF echo_exec_reachable [OF k(1)]] show ?thesis by simp
qed

text \<open>No callback of an echo connection reads its room through a null pointer: whatever the session can do,
  its callbacks run to their end.\<close>

theorem echo_room_always_there:
  assumes "echo_reachable limit room k" and "echo_event_ok (ec_session k) e"
    and "session_next limit (ec_session k) e \<noteq> None"
  shows "echo_next limit k e \<noteq> None"
  using assms echo_next_effect [OF echo_reachable_inv [OF assms(1)] assms(2)] by force

theorem echo_room_always_there_witness:
  "\<exists>k. exec (echo_next 8) echo_example_start echo_example_events = Some k
     \<and> echo_next 8 k (ReadDone (ReadMessage ''again'' True False)) \<noteq> None"
proof -
  obtain k where k: "exec (echo_next 8) echo_example_start echo_example_events = Some k"
    using echo_example_run by (auto split: option.splits)
  have "case exec (echo_next 8) echo_example_start echo_example_events of None \<Rightarrow> False
      | Some k \<Rightarrow> session_next 8 (ec_session k) (ReadDone (ReadMessage ''again'' True False)) \<noteq> None" by code_simp
  with echo_room_always_there [OF echo_exec_reachable [OF k]] k show ?thesis by simp
qed

text \<open>The server comes up with the protocols its arguments ask for, and never fails for the lack of a TLS
  context: with a port that binds and certificate files that load it serves plain connections unless told
  TLS only, and TLS exactly when it was given a certificate.\<close>

theorem echo_server_starts:
  assumes "echo_port args = Some port" and "eh_open host port = None" and "eh_option host port = None"
    and "eh_bind host port = None" and "eh_listen host port = None"
    and "echo_has_certificate args \<longrightarrow> eh_certificate host (args ! 1) \<and> eh_key host (args ! 2)"
  shows "echo_main host args = Some (Serving port echo_options
    (\<not> (length args \<ge> 4 \<and> args ! 3 = ''tls-only''), length args \<ge> 3))"
  using assms echo_flags_cases
  by (auto simp: echo_main_def Listener_open_def echo_flags_def echo_has_certificate_def)

theorem echo_server_starts_witness:
  "echo_main \<lparr>eh_open = (\<lambda>p. None), eh_option = (\<lambda>p. None), eh_bind = (\<lambda>p. None), eh_listen = (\<lambda>p. None :: nat option),
       eh_certificate = (\<lambda>f. True), eh_key = (\<lambda>f. True)\<rparr> [''8443'', ''cert.pem'', ''key.pem'', ''tls-only'']
     = Some (Serving 8443 echo_options (False, True))"
proof -
  let ?host = "\<lparr>eh_open = (\<lambda>p. None), eh_option = (\<lambda>p. None), eh_bind = (\<lambda>p. None), eh_listen = (\<lambda>p. None :: nat option),
       eh_certificate = (\<lambda>f. True), eh_key = (\<lambda>f. True)\<rparr>" and ?args = "[''8443'', ''cert.pem'', ''key.pem'', ''tls-only'']"
  have "echo_port ?args = Some 8443" by code_simp
  from echo_server_starts [OF this, of ?host] show ?thesis by simp
qed

text \<open>The port argument is cut to 16 bits without a check: a number above 65535 names the port that is left
  of it modulo 65536, so 73616 listens on 8080 and 65536 on a port the system picks.\<close>

theorem echo_port_wraps:
  assumes "n < 2 ^ 31"
  shows "\<exists>port. echo_port (digits_of n # args) = Some port \<and> unat port = n mod 2 ^ 16"
  using assms by (simp add: echo_port_def atoi_digits_of unsigned_of_nat take_bit_eq_mod flip: of_nat_mod)

theorem echo_port_wraps_witness:
  "\<exists>port. echo_port [digits_of 73616] = Some port \<and> unat port = 73616 mod 2 ^ 16"
  by (rule echo_port_wraps) simp

end
