(* ===== verification/WeatherServer.thy ===== *)
theory WeatherServer
  imports ClientOptions Cors
begin

text \<open>
  The HTTP client example (examples/http_client/main.cpp): a program that fetches with the client,
  uploads a file with progress, and serves \<^verbatim>\<open>/weather/{city}\<close> from a handler that
  calls another server and answers with what it said. Client, router and messages are the ones of the
  other theories.
\<close>

section \<open>The client and its requests\<close>

definition api_options :: http_options where
  "api_options = HttpOptions
     \<lparr>ho_tls := ClientTlsOptions\<lparr>use_bundled_cas := False, use_system_cas := True\<rparr>,
      ho_request_timeout := 15000, ho_threads := 2\<rparr>"

definition plain_request :: "string \<Rightarrow> client_request" where
  "plain_request url =
     \<lparr>cq_method = Verb_get, cq_url = url, cq_headers = [], cq_body = [], cq_timeout = None\<rparr>"

definition repository_request :: client_request where
  "repository_request =
     (plain_request ''https://api.github.com/repos/vstanchevici/cppgate'')
       \<lparr>cq_headers := [(''Accept'', ''application/json'')]\<rparr>"

definition upload_request :: "string \<Rightarrow> client_request" where
  "upload_request content =
     (plain_request ''https://upload.example.com/files'')
       \<lparr>cq_method := Verb_post,
        cq_headers := [(''Content-Type'', ''application/octet-stream''), (''Authorization'', ''Bearer TOKEN'')],
        cq_body := content, cq_timeout := Some 300000\<rparr>"

definition weather_request :: "string \<Rightarrow> client_request" where
  "weather_request city =
     (plain_request (''https://api.weather.example/v1/now?city='' @ city))\<lparr>cq_timeout := Some 3000\<rparr>"

text \<open>
  What \<^verbatim>\<open>wait\<close> gives: an error or a response, which the calls of
  \<^theory_text>\<open>HttpClient\<close> name by a number. The texts of the errors that are not the client's come
  from a parameter.
\<close>

type_synonym 'h reply = "call_error + 'h http_response"

fun reply_of :: "(nat \<Rightarrow> 'h http_response) \<Rightarrow> call_result \<Rightarrow> 'h reply" where
  "reply_of responses (CallFailed e) = Inl e"
| "reply_of responses (CallResponse n) = Inr (responses n)"

fun error_message :: "(call_error \<Rightarrow> string) \<Rightarrow> call_error \<Rightarrow> string" where
  "error_message other (ClientErr e) = client_message (error_value e)"
| "error_message other e = other e"

section \<open>What is printed\<close>

datatype printed = Out string | Err string

definition repository_output :: "(call_error \<Rightarrow> string) \<Rightarrow> 'h reply \<Rightarrow> printed" where
  "repository_output other result =
     (case result of
        Inl e \<Rightarrow> Err (''request failed: '' @ error_message other e @ [CHR 0x0A])
      | Inr r \<Rightarrow>
          if response_status r \<noteq> 200
          then Err (''HTTP '' @ digits_of (response_status r) @ '': '' @ response_body r @ [CHR 0x0A])
          else Out (''got '' @ digits_of (length (response_body r)) @ '' bytes of JSON'' @ [CHR 0x0A]))"

text \<open>\<^verbatim>\<open>size_t\<close> has 64 bits, and the product may wrap.\<close>

definition progress_percent :: "64 word \<Rightarrow> 64 word \<Rightarrow> 64 word" where
  "progress_percent transferred bytes = 100 * transferred div max bytes 1"

definition progress_output :: "direction \<Rightarrow> 64 word \<Rightarrow> 64 word option \<Rightarrow> printed" where
  "progress_output direction transferred bytes =
     (let what = (case direction of Upload \<Rightarrow> ''upload'' | Download \<Rightarrow> ''download'')
      in case bytes of
           Some n \<Rightarrow> Out (what @ '' '' @ digits_of (unat (progress_percent transferred n)) @ ''%'' @ [CHR 0x0A])
         | None \<Rightarrow> Out (what @ '' '' @ digits_of (unat transferred) @ '' bytes'' @ [CHR 0x0A]))"

definition upload_output :: "(call_error \<Rightarrow> string) \<Rightarrow> 'h reply \<Rightarrow> printed" where
  "upload_output other result =
     (case result of
        Inl e \<Rightarrow>
          if e = ClientErr ErrTimeout then Err (''upload timed out'' @ [CHR 0x0A])
          else Err (''upload failed: '' @ error_message other e @ [CHR 0x0A])
      | Inr r \<Rightarrow> Out (''uploaded: HTTP '' @ digits_of (response_status r) @ [CHR 0x0A]))"

section \<open>The handler\<close>

text \<open>
  \<open>fetch\<close> is a request sent and waited for, which may change the world; what it can return is
  stated below.
\<close>

definition weather_handler ::
  "'h fields_lib \<Rightarrow> (call_error \<Rightarrow> string) \<Rightarrow> (client_request \<Rightarrow> 'w \<Rightarrow> 'h reply \<times> 'w)
     \<Rightarrow> (('h, 'c, 'w) exchange, unit) action" where
  "weather_handler F other fetch e =
     (case fetch (weather_request (urlParam (ex_request e) ''city'')) (ex_world e) of
        (Inl err, w) \<Rightarrow>
          responding (res_send F 502 (''weather service unavailable: '' @ error_message other err))
            (e\<lparr>ex_world := w\<rparr>)
      | (Inr r, w) \<Rightarrow>
          responding (res_send_typed F (response_status r) (response_body r) ''application/json'')
            (e\<lparr>ex_world := w\<rparr>))"

definition weather_router ::
  "('h, 'p) libs \<Rightarrow> (call_error \<Rightarrow> string) \<Rightarrow> (client_request \<Rightarrow> 'w \<Rightarrow> 'h reply \<times> 'w)
     \<Rightarrow> ('h, 'c, 'b, 'w, 'p) router option" where
  "weather_router L other fetch =
     Router_add_http (lb_re2 L) {Verb_get} ''/weather/{city}'' [] (weather_handler (lb_fields L) other fetch) []
       (Router_init (lb_fields L))"

text \<open>
  The program: an exception that leaves \<^verbatim>\<open>main\<close>, an exit, or serving, with what was
  printed and the requests sent until then. \<open>listening\<close> tells whether the listener could be
  constructed.
\<close>

datatype api_end = ApiThrows | ApiExit nat | ApiServes

record 'h api_host =
  ah_tls :: tls_env
  ah_reply :: "client_request \<Rightarrow> 'h reply"
  ah_file :: "string \<Rightarrow> string option"
  ah_other :: "call_error \<Rightarrow> string"
  ah_listening :: bool

definition api_serve ::
  "'h api_host \<Rightarrow> printed list \<Rightarrow> client_request list \<Rightarrow> client_request list \<times> printed list \<times> api_end" where
  "api_serve host outs reqs =
     (if \<not> ah_listening host then (reqs, outs, ApiThrows)
      else (reqs, outs @ [Out (''serving http://127.0.0.1:8080/weather/{city}, Ctrl+C to stop'' @ [CHR 0x0A])], ApiServes))"

definition api_main ::
  "'h api_host \<Rightarrow> string list \<Rightarrow> client_request list \<times> printed list \<times> api_end" where
  "api_main host args =
     (case HttpClient_create (ah_tls host) api_options of
        Inl e \<Rightarrow> ([], [], ApiThrows)
      | Inr client \<Rightarrow>
          let out = repository_output (ah_other host) (ah_reply host repository_request)
          in case args of
               [] \<Rightarrow> api_serve host [out] [repository_request]
             | path # rest \<Rightarrow>
                 (case ah_file host path of
                    None \<Rightarrow> ([repository_request], [out, Err (''can't read '' @ path @ [CHR 0x0A])], ApiExit 1)
                  | Some content \<Rightarrow>
                      api_serve host [out] [repository_request, upload_request content]))"

section \<open>What a fetch can return\<close>

text \<open>
  The reply is that of a call of the client, as \<^theory_text>\<open>HttpClient\<close> runs it, for the request as
  the program's options make it, once it has completed.
\<close>

definition fetch_ok ::
  "url_lib \<Rightarrow> (verb \<Rightarrow> (string \<times> string) list \<Rightarrow> string \<Rightarrow> bool) \<Rightarrow> (nat \<Rightarrow> 'h http_response)
     \<Rightarrow> (client_request \<Rightarrow> 'w \<Rightarrow> 'h reply \<times> 'w) \<Rightarrow> bool" where
  "fetch_ok urls refuses responses fetch \<longleftrightarrow>
     (\<forall>request w. \<exists>st r. call_reachable (request_env urls refuses api_options request False False) st
        \<and> call_wait False (Some st) = Some r \<and> fst (fetch request w) = reply_of responses r)"

text \<open>A request whose URL the parser refuses never gets an answer.\<close>

definition refused_call :: "call_state \<Rightarrow> bool" where
  "refused_call s \<longleftrightarrow>
     \<not> cl_started s \<and> \<not> cl_finished s \<and> cl_op s = None \<and> cl_results s = []
   \<or> cl_started s \<and> cl_finished s \<and> cl_op s = None
      \<and> cl_results s \<in> {[CallFailed (ClientErr ErrInvalidUrl)], [CallFailed (ClientErr ErrClosed)]}"

lemma refused_call_step:
  assumes "parseUrl (he_urls E) (he_url E) HttpUrl = Inl ErrInvalidUrl" and "refused_call s" and "call_step E s e t"
  shows "refused_call t"
  using assms
  by (cases e)
    (auto simp: call_step_def refused_call_def call_begin_def call_finish_def call_abort_def split: if_splits)

interpretation refused_system: invariant_system
  "\<lambda>s. parseUrl (he_urls E) (he_url E) HttpUrl = Inl ErrInvalidUrl \<and> call_starts E s" "call_step E"
  "\<lambda>s. parseUrl (he_urls E) (he_url E) HttpUrl = Inl ErrInvalidUrl \<and> refused_call s"
  for E :: call_env
  by unfold_locales (auto simp: call_starts_def refused_call_def CallState_def dest: refused_call_step)

lemma refused_call_reachable:
  assumes "parseUrl (he_urls E) (he_url E) HttpUrl = Inl ErrInvalidUrl" and "call_reachable E s"
  shows "refused_call s"
  using assms refused_system.reachable_inv [of E s] by (simp add: call_reachable_def)

section \<open>What the router is\<close>

definition weather_pattern :: "'p re2 \<Rightarrow> 'p" where
  "weather_pattern R = re_compile R (literal_regex R ''/weather/'' [[]])"

definition weather_route ::
  "('h, 'p) libs \<Rightarrow> (call_error \<Rightarrow> string) \<Rightarrow> (client_request \<Rightarrow> 'w \<Rightarrow> 'h reply \<times> 'w)
     \<Rightarrow> ('h, 'c, 'b, 'w, 'p) route" where
  "weather_route L other fetch =
     \<lparr>ro_handler = HttpHandler (weather_handler (lb_fields L) other fetch), ro_pattern = weather_pattern (lb_re2 L),
      ro_path = ''/weather/{city}'', ro_param_names = [''city''], ro_methods = {Verb_get}, ro_pre = [], ro_post = []\<rparr>"

lemma weather_template:
  assumes "re2_ok R"
  shows "createRegexPattern R ''/weather/{city}'' = Some ([''city''], literal_regex R ''/weather/'' [[]])"
proof -
  have "block_wf (''/weather/'', ''city'', [])" by code_simp
  with createRegexPattern_template_rest [OF assms, of "[(''/weather/'', ''city'', [])]" "[]" "[]"] show ?thesis
    by (simp add: template_text_def block_text_def literal_regex_def block_regex_def block_name_def)
qed

lemma weather_router_shape:
  assumes "libs_ok L" and "re_ok (lb_re2 L) (weather_pattern (lb_re2 L))"
  shows "weather_router L other fetch = Some ((Router_init (lb_fields L))\<lparr>rt_routes := [weather_route L other fetch]\<rparr>)"
proof -
  have "re2_ok (lb_re2 L)" using assms(1) by (simp add: libs_ok_def)
  with assms(2) show ?thesis
    by (simp add: weather_router_def Router_add_http_def add_entry_def Route_def weather_template
        weather_pattern_def weather_route_def Router_init_def)
qed

lemma weather_router_built:
  assumes "libs_ok L" and "weather_router L other fetch = Some rt"
  shows "built_router L rt"
  unfolding built_router_def
  by (rule reachable_step [OF reachable_init, where e = "AddHttp {Verb_get} ''/weather/{city}'' []
        (weather_handler (lb_fields L) other fetch) []"])
    (use assms in \<open>auto simp: router_step_def router_starts_def weather_router_def\<close>)

lemma weather_match:
  assumes "libs_ok L" and "re_ok (lb_re2 L) (weather_pattern (lb_re2 L))" and "ascii city" and "slash_free city"
  shows "re_match (lb_re2 L) (weather_pattern (lb_re2 L)) (''/weather/'' @ city) 2 = Some [''/weather/'' @ city, city]"
proof -
  have "re_match (lb_re2 L) (weather_pattern (lb_re2 L)) (''/weather/'' @ city) (length [[] :: string] + 1)
      = map_option ((#) (''/weather/'' @ city)) (template_match ''/weather/'' [[]] (''/weather/'' @ city))"
    unfolding weather_pattern_def
    by (rule re2_literal) (use assms in \<open>simp_all add: libs_ok_def weather_pattern_def\<close>)
  moreover have "template_match ''/weather/'' [[]] (fill_url ''/weather/'' [[]] [city] @ []) = Some [city]"
    using assms(4) by (intro template_match_fill) (simp_all add: optional_slash_def)
  ultimately show ?thesis by (simp add: fill_url_def numeral_2_eq_2)
qed

text \<open>The answer a reply stands for.\<close>

definition weather_answer :: "(call_error \<Rightarrow> string) \<Rightarrow> 'h reply \<Rightarrow> nat \<times> string" where
  "weather_answer other r =
     (case r of
        Inl err \<Rightarrow> (502, ''weather service unavailable: '' @ error_message other err)
      | Inr response \<Rightarrow> (response_status response, response_body response))"

lemma weather_answers_lemma:
  assumes "libs_ok L" and "weather_router L other fetch = Some rt" and "re_ok (lb_re2 L) (weather_pattern (lb_re2 L))"
    and "\<not> hasResponse (ex_response e)" and "rq_method (hr_request (ex_request e)) = Verb_get"
    and "lb_url_path L (rq_target (hr_request (ex_request e))) = Some (''/weather/'' @ city)"
    and "ascii city" and "slash_free city" and "fetch (weather_request city) (ex_world e) = (r, w)"
    and "\<forall>response. r = Inr response \<longrightarrow> response_status response \<noteq> 0
      \<and> \<not> bf_refuses (lb_fields L) (response_status response) (response_body response)"
  shows "\<exists>e1. Router_route L rt e = Done () e1 \<and> ex_world e1 = w
    \<and> (res_status (ex_response e1), res_body (ex_response e1)) = weather_answer other r"
proof -
  obtain path where path: "path = ''/weather/'' @ city" by blast
  have R: "re2_ok (lb_re2 L)" and F: "fields_ok (lb_fields L)" using assms(1) by (simp_all add: libs_ok_def)
  have "rt = (Router_init (lb_fields L))\<lparr>rt_routes := [weather_route L other fetch]\<rparr>"
    using trans [OF assms(2) [symmetric] weather_router_shape [OF assms(1,3)]] by simp
  then obtain r' where shape: "rt_routes rt = [r']" "rt_globals rt = []" and r': "r' = weather_route L other fetch"
    by (simp add: Router_init_def)
  have wf: "libs_ok L" "router_wf L rt" using built_router_wf [OF weather_router_built [OF assms(1,2)]] by auto
  obtain ip where ip: "tp_resolve (lb_fields L) (lb_asio L) (rt_proxies rt) (hr_peer_ip (ex_request e))
      (rq_fields (hr_request (ex_request e))) = Some ip"
    using Router_route_resolved [OF wf] by blast
  let ?e = "e\<lparr>ex_request := setIP ip (ex_request e)\<rparr>"
  have request: "hr_request (setIP ip (ex_request e)) = hr_request (ex_request e)" by (simp add: setIP_def)
  have fields: "\<not> isWebSocket r'" "methodMatch r' Verb_get"
    by (simp_all add: r' weather_route_def isWebSocket_def methodMatch_def)
  have match: "path_matches (lb_re2 L) r' path" "bindings (lb_re2 L) r' path = [(''city'', city)]"
    using weather_match [OF assms(1,3,7,8)]
    by (simp_all add: path path_matches_def bindings_def r' weather_route_def numeral_2_eq_2)
  have "serves (lb_re2 L) path (rq_method (hr_request (ex_request ?e))) r'"
    using fields match(1) assms(5) by (simp add: serves_def http_candidate_def request)
  with scan_routes_first [OF R rp_inv_init, of "[]" path ?e r' rt "[]" False] match(2) obtain q where
    q: "rp_inv q" "rp_list q = [(''city'', city)]"
      "scan_routes (lb_re2 L) rt path [r'] False RouteParams_init ?e
        = serve_route (rt_internal_error rt) r' (set_params (Some q) ?e)" by auto
  have route: "Router_route L rt e = serve_route (rt_internal_error rt) r' (set_params (Some q) ?e)"
    using assms(6) [folded path] by (simp add: Router_route_def ip shape request q(3) del: scan_routes.simps)
  obtain d where d: "d = set_params (Some q) ?e" by blast
  have city: "urlParam (ex_request d) ''city'' = city" and world: "ex_world d = ex_world e"
    and fresh: "\<not> hasResponse (ex_response d)"
    using rp_get_first [OF q(1)] q(2) assms(4) by (simp_all add: d urlParam_def set_params_def)
  have allowed: "\<not> bf_refuses (lb_fields L) 502 c" for c
    using fields_okD(6) [OF F, of 502 c] by (auto simp: bodiless_status_def)
  obtain d1 where d1: "weather_handler (lb_fields L) other fetch d = Done () d1" "ex_world d1 = w"
    "hasResponse (ex_response d1)" "(res_status (ex_response d1), res_body (ex_response d1)) = weather_answer other r"
    using assms(9,10)
    by (cases r)
      (auto simp: weather_handler_def city world responding_def hasResponse_def weather_answer_def allowed
        res_send_typed_def res_send_def prepare_payload_def)
  have call: "Route_call r' d = Done () d1"
    using fresh d1(1,3) by (simp add: Route_call_def r' weather_route_def)
  show ?thesis
    unfolding route serve_route_def d [symmetric] call using d1 by (simp add: set_params_def)
qed

lemma fetched_invalid:
  assumes "fetch_ok urls refuses responses fetch" and "urls (cq_url request) = None"
  shows "fst (fetch request w) \<in> {Inl (ClientErr ErrInvalidUrl), Inl (ClientErr ErrClosed)}"
proof -
  let ?E = "request_env urls refuses api_options request False False"
  obtain st r where st: "call_reachable ?E st" "call_wait False (Some st) = Some r"
    "fst (fetch request w) = reply_of responses r"
    using assms(1) unfolding fetch_ok_def by blast
  have "parseUrl (he_urls ?E) (he_url ?E) HttpUrl = Inl ErrInvalidUrl"
    using assms(2) by (simp add: parseUrl_def request_env_def)
  then have "refused_call st" using st(1) by (rule refused_call_reachable)
  with st(2,3) show ?thesis by (auto simp: refused_call_def call_wait_def split: list.splits)
qed

section \<open>A server for closed examples\<close>

definition sunny :: "example_h http_response" where
  "sunny = \<lparr>res_status = 200, res_version = 11, res_fields = [], res_body = ''sunny''\<rparr>"

definition sunny_fetch :: "client_request \<Rightarrow> nat \<Rightarrow> example_h reply \<times> nat" where
  "sunny_fetch request w = (Inr sunny, w + 1)"

text \<open>A router that decodes one path, and a client, closed already, whose parser refuses spaces.\<close>

definition decoding_libs :: "(example_h, string) libs" where
  "decoding_libs = example_libs
     \<lparr>lb_url_path := map_of [(''/weather/New%20York'', ''/weather/New York'')]\<rparr>"

definition spaceless_urls :: url_lib where
  "spaceless_urls url =
     (if CHR '' '' \<in> set url then None
      else Some \<lparr>up_has_authority = True, up_scheme = ''https'', up_scheme_id = SchemeHttps,
                 up_host = ''api.weather.example'', up_ipv6 = None, up_port = None,
                 up_encoded_host_and_port = ''api.weather.example'', up_encoded_host = ''api.weather.example'',
                 up_encoded_path = ''/v1/now'', up_encoded_query = None\<rparr>)"

definition trace_refused :: "verb \<Rightarrow> (string \<times> string) list \<Rightarrow> string \<Rightarrow> bool" where
  "trace_refused m headers body \<longleftrightarrow> m = Verb_trace \<and> body \<noteq> []"

definition closed_fetch :: "client_request \<Rightarrow> nat \<Rightarrow> example_h reply \<times> nat" where
  "closed_fetch request w =
     (Inl (ClientErr (if CHR '' '' \<in> set (cq_url request) then ErrInvalidUrl else ErrClosed)), w)"

lemma closed_fetch_ok: "fetch_ok spaceless_urls trace_refused (\<lambda>n. sunny) closed_fetch"
  unfolding fetch_ok_def
proof (intro allI)
  fix request w
  let ?E = "request_env spaceless_urls trace_refused api_options request False False"
  let ?e = "if CHR '' '' \<in> set (cq_url request) then Begin 0 else BeginClosed"
  let ?r = "CallFailed (ClientErr (if CHR '' '' \<in> set (cq_url request) then ErrInvalidUrl else ErrClosed))"
  let ?st = "call_finish ?r ((CallState ?E (ClientImpl 8 30000))\<lparr>cl_started := True\<rparr>)"
  have "call_step ?E (CallState ?E (ClientImpl 8 30000)) ?e ?st"
    by (simp add: call_step_def CallState_def call_begin_def request_env_def parseUrl_def spaceless_urls_def)
  then have "call_reachable ?E ?st"
    unfolding call_reachable_def by (rule reachable_step [OF reachable_init, rotated]) (auto simp: call_starts_def)
  moreover have "call_wait False (Some ?st) = Some ?r"
    by (simp add: call_finish_def call_wait_def CallState_def)
  ultimately show "\<exists>st r. call_reachable ?E st \<and> call_wait False (Some st) = Some r
      \<and> fst (closed_fetch request w) = reply_of (\<lambda>n. sunny) r"
    by (intro exI [of _ ?st] exI [of _ ?r]) (simp add: closed_fetch_def)
qed

lemma decoding_libs_ok: "libs_ok decoding_libs"
  using example_libs_ok by (simp add: libs_ok_def decoding_libs_def)

lemma weather_example_router:
  "\<exists>rt :: (example_h, unit, unit, nat, string) router. weather_router example_libs other fetch = Some rt"
  "\<exists>rt :: (example_h, unit, unit, nat, string) router. weather_router decoding_libs other fetch = Some rt"
proof -
  have "re_ok (lb_re2 example_libs) (weather_pattern (lb_re2 example_libs))"
    "re_ok (lb_re2 decoding_libs) (weather_pattern (lb_re2 decoding_libs))" by (simp_all add: decoding_libs_def)
  from weather_router_shape [OF example_libs_ok this(1), of other fetch]
    weather_router_shape [OF decoding_libs_ok this(2), of other fetch]
  show "\<exists>rt :: (example_h, unit, unit, nat, string) router. weather_router example_libs other fetch = Some rt"
    "\<exists>rt :: (example_h, unit, unit, nat, string) router. weather_router decoding_libs other fetch = Some rt" by blast+
qed

section \<open>Properties\<close>

text \<open>The handler answers with what the other server said: GET /weather/city sends one request for that city
  and its reply decides the response, its status and body passed on if a response may have them together,
  or 502 with the error's text when there was none.\<close>

theorem weather_answers:
  assumes "libs_ok L" and "weather_router L other fetch = Some rt" and "re_ok (lb_re2 L) (weather_pattern (lb_re2 L))"
    and "\<not> hasResponse (ex_response e)" and "rq_method (hr_request (ex_request e)) = Verb_get"
    and "lb_url_path L (rq_target (hr_request (ex_request e))) = Some (''/weather/'' @ city)"
    and "ascii city" and "slash_free city" and "fetch (weather_request city) (ex_world e) = (r, w)"
    and "\<forall>response. r = Inr response \<longrightarrow> response_status response \<noteq> 0
      \<and> \<not> bf_refuses (lb_fields L) (response_status response) (response_body response)"
  shows "\<exists>e1. Router_route L rt e = Done () e1 \<and> ex_world e1 = w
    \<and> (res_status (ex_response e1), res_body (ex_response e1)) = weather_answer other r"
  by (rule weather_answers_lemma [OF assms])

theorem weather_answers_witness:
  "\<exists>rt e1. weather_router example_libs (\<lambda>e. ''network'') sunny_fetch
       = Some (rt :: (example_h, unit, unit, nat, string) router)
     \<and> Router_route example_libs rt (example_request Verb_get ''/weather/oslo'') = Done () e1
     \<and> ex_world e1 = 1 \<and> (res_status (ex_response e1), res_body (ex_response e1)) = (200, ''sunny'')"
proof -
  obtain rt :: "(example_h, unit, unit, nat, string) router" where
    rt: "weather_router example_libs (\<lambda>e. ''network'') sunny_fetch = Some rt"
    using weather_example_router by blast
  let ?e = "example_request Verb_get ''/weather/oslo''"
  have "\<exists>e1. Router_route example_libs rt ?e = Done () e1 \<and> ex_world e1 = 1
    \<and> (res_status (ex_response e1), res_body (ex_response e1)) = weather_answer (\<lambda>e. ''network'') (Inr sunny)"
  proof (rule weather_answers [OF example_libs_ok rt])
    show "lb_url_path example_libs (rq_target (hr_request (ex_request ?e))) = Some (''/weather/'' @ ''oslo'')"
      by code_simp
    show "sunny_fetch (weather_request ''oslo'') (ex_world ?e) = (Inr sunny, 1)"
      by (simp add: sunny_fetch_def example_request_def)
  qed (simp_all add: example_request_def hasResponse_def HttpResponse_def HttpRequest_def setPeerIP_def slash_free_def
      sunny_def response_status_def example_libs_def alist_fields_def bodiless_status_def)
  with rt show ?thesis by (auto simp: weather_answer_def sunny_def response_status_def response_body_def)
qed



text \<open>The percentage printed for a transfer is between 0 and 100 and right whenever no more than the total was
  transferred and a hundred times that fits 64 bits.\<close>

theorem progress_percent_bounded:
  assumes "unat transferred \<le> unat bytes" and "100 * unat transferred < 2 ^ 64"
  shows "unat (progress_percent transferred bytes) = 100 * unat transferred div max (unat bytes) 1
    \<and> unat (progress_percent transferred bytes) \<le> 100"
proof -
  have m: "unat (max bytes 1) = max (unat bytes) 1"
    by (cases "bytes = 0") (auto simp: max_def word_le_nat_alt unat_eq_zero Suc_le_eq intro!: antisym)
  have "unat (100 * transferred) = 100 * unat transferred"
    using assms(2) by (simp add: unat_mult_lem [of "100 :: 64 word" transferred, THEN iffD1])
  then have eq: "unat (progress_percent transferred bytes) = 100 * unat transferred div max (unat bytes) 1"
    by (simp add: progress_percent_def unat_div m)
  have "100 * unat transferred \<le> 100 * max (unat bytes) 1" using assms(1) by simp
  then have "100 * unat transferred div max (unat bytes) 1 \<le> 100"
    using div_le_mono [of "100 * unat transferred" "100 * max (unat bytes) 1" "max (unat bytes) 1"] by simp
  with eq show ?thesis by simp
qed

theorem progress_percent_bounded_witness:
  "unat (progress_percent 512 2048) = 25 \<and> unat (progress_percent 0 0) \<le> 100"
  using progress_percent_bounded [of 512 2048] progress_percent_bounded [of 0 0] by simp

text \<open>A program that cannot read the file to upload has sent the first request only, and exits with 1
  without ever listening.\<close>

lemma unreadable_file_exits:
  assumes "HttpClient_create (ah_tls host) api_options = Inr client" and "ah_file host path = None"
  shows "\<exists>outs. api_main host (path # rest) = ([repository_request], outs, ApiExit 1)"
  using assms by (simp add: api_main_def Let_def)

text \<open>The program's client verifies its peers against the system's store and nothing else: no part of the
  bundle is added.\<close>

theorem api_trusts_system_store:
  assumes "HttpClient_create env api_options = Inr (calls, threads, hc)"
  shows "threads = 2 \<and> SetVerifyMode True \<in> set calls \<and> SetDefaultVerifyPaths \<in> set calls
    \<and> (\<forall>i. AddBundledPart i \<notin> set calls)"
proof -
  have calls: "configureClientTls env (ClientTlsOptions\<lparr>use_bundled_cas := False, use_system_cas := True\<rparr>) = Inr calls"
    and "threads = 2"
    using assms by (auto simp: HttpClient_create_def api_options_def client_threads_def split: sum.splits)
  then show ?thesis
    by (auto simp: configureClientTls_def ClientTlsOptions_def and_then_def loadSystemCas_def call_tls_def Let_def
        split: sum.splits if_splits option.splits)
qed

theorem api_trusts_system_store_witness:
  "\<exists>calls threads hc. HttpClient_create (example_tls_env\<lparr>te_file_exists := \<lambda>f. True\<rparr>) api_options = Inr (calls, threads, hc)
     \<and> threads = 2 \<and> SetDefaultVerifyPaths \<in> set calls"
proof -
  let ?env = "example_tls_env\<lparr>te_file_exists := \<lambda>f. True\<rparr>"
  have "case HttpClient_create ?env api_options of Inl e \<Rightarrow> False | Inr c \<Rightarrow> True" by code_simp
  then obtain calls threads hc where c: "HttpClient_create ?env api_options = Inr (calls, threads, hc)"
    by (auto split: sum.splits)
  from api_trusts_system_store [OF this] c show ?thesis by blast
qed

end
