(* ===== verification/Spec2Isabelle.thy ===== *)
theory Spec2Isabelle
  imports Router Cors ConnectionPool Server ServerSetup ClientOptions RingBuffer EchoServer WeatherServer
begin

text \<open>
  A verification development of cppgate, a C++20 library for HTTP and WebSocket servers and clients
  (src/include/cppgate, src/sources).

  \<^bold>\<open>The program.\<close> A \<^verbatim>\<open>Listener\<close> accepts connections and starts an
  \<^verbatim>\<open>HttpSession\<close> for each. The session reads requests, asks the
  \<^verbatim>\<open>Router\<close> for the response and writes it; an upgrade request becomes a
  \<^verbatim>\<open>WebSocketSession\<close>. The router finds the client's address
  (\<^verbatim>\<open>TrustedProxies\<close>), runs the global middlewares (\<^verbatim>\<open>cors\<close> is one),
  matches the path against the routes' patterns and runs the route. Handlers may borrow connections
  from a \<^verbatim>\<open>ConnectionPool\<close>. \<^verbatim>\<open>HttpClient\<close> and
  \<^verbatim>\<open>WebSocketClient\<close> are the client side, \<^verbatim>\<open>RingBuffer\<close> a lock-free queue
  between threads.

  \<^bold>\<open>Theories and the code they model.\<close>
    \<^item> \<^theory_text>\<open>Prelude\<close>: outcomes of code that may throw, reachable states, runs, the locale
      \<^theory_text>\<open>invariant_system\<close> every stateful component interprets, the locale
      \<^theory_text>\<open>simulation\<close> of refinements, generic lemmas on lists.
    \<^item> \<^theory_text>\<open>StdString\<close>: the string functions of the standard library the code calls.
    \<^item> \<^theory_text>\<open>RouteParams\<close>: \<^verbatim>\<open>RouteParams\<close> of Router.h, an inline array with an
      overflow vector; the locales \<^theory_text>\<open>param_reader\<close> and \<^theory_text>\<open>param_store\<close> are its contract.
    \<^item> \<^theory_text>\<open>RoutePattern\<close>: \<^verbatim>\<open>createRegexPattern\<close> and the match of Router.cpp.
    \<^item> \<^theory_text>\<open>HttpMessage\<close>: \<^verbatim>\<open>HttpRequest\<close> and \<^verbatim>\<open>HttpResponse\<close> of Router.h.
    \<^item> \<^theory_text>\<open>Router\<close>: Router.h and Router.cpp: routes, groups, dispatch, upgrades.
    \<^item> \<^theory_text>\<open>TrustedProxies\<close>: TrustedProxies.h and TrustedProxies.cpp.
    \<^item> \<^theory_text>\<open>Cors\<close>: Middleware/Cors.h and Cors.cpp.
    \<^item> \<^theory_text>\<open>ConnectionPool\<close>: ConnectionPool.h, with any number of threads.
    \<^item> \<^theory_text>\<open>WebSocketContext\<close>, \<^theory_text>\<open>WebSocketSession\<close>, \<^theory_text>\<open>SendQueue\<close>:
      WebSocketContext.h and WebSocketSession.h; the send queue's contract is a locale that the
      session and the client's connection both interpret.
    \<^item> \<^theory_text>\<open>HttpSession\<close>, \<^theory_text>\<open>SessionShutdown\<close>: HttpSession.h, and what a stop means
      for one session.
    \<^item> \<^theory_text>\<open>SessionRegistry\<close>: SessionRegistry.h and Listener.h.
    \<^item> \<^theory_text>\<open>Server\<close>: the listener, its registry and every session together: accepts,
      handlers, upgrades, destructors and the stop, interleaved.
    \<^item> \<^theory_text>\<open>ServerSetup\<close>: ServerOptions.h, the flags, constructor and \<^verbatim>\<open>run\<close> of
      Listener.h, and TlsStream.h.
    \<^item> \<^theory_text>\<open>ClientCommon\<close>: ClientCommon.cpp, ClientTlsOptions.h, the error codes of HttpClient.h.
    \<^item> \<^theory_text>\<open>HttpClient\<close>: HttpClient.cpp, one call and the cache of idle connections.
    \<^item> \<^theory_text>\<open>ClientCalls\<close>: HttpClient.cpp, the client with all of its calls and the destructor.
    \<^item> \<^theory_text>\<open>WebSocketClient\<close>, \<^theory_text>\<open>ClientConnections\<close>: WebSocketClient.cpp, one connection,
      and the client with all of its connections.
    \<^item> \<^theory_text>\<open>ClientOptions\<close>: the options and constructors of both clients.
    \<^item> \<^theory_text>\<open>RingBuffer\<close>: RingBuffer.h, step by step under any interleaving.
    \<^item> \<^theory_text>\<open>EchoServer\<close>: examples/echo/main.cpp, a whole program on top of the server:
      its arguments, router, handlers and start, and its connections with their callbacks.
    \<^item> \<^theory_text>\<open>WeatherServer\<close>: examples/http_client/main.cpp, a program with a client and a
      handler that answers with what another server said.

  \<^bold>\<open>How state and operations correspond.\<close> A class is a record with the fields of the class; ghost
  fields record histories (what was written, called back, popped) and no operation reads them; what
  is written is what the operation was given when it started. A member function is a function on the record; user callables are functions from a state to an
  outcome that may be an exception. Classes that run on a strand or under a mutex are step functions
  \<open>_next\<close> on events: a posted task that runs, an operation that completes with what the network
  reported, a call from another thread. A step is what the code does without giving up the strand or
  the mutex, and steps interleave in any order. \<^verbatim>\<open>RingBuffer\<close> has no lock: there every
  atomic access is a step.

  \<^bold>\<open>What the lemmas show.\<close> Each stateful component has an invariant, kept by every step, from
  which its properties follow. The router: every request is answered, by the first route that
  matches, and upgrades are accepted or answered, but for the rejections Beast refuses to send. The pool: never more than its limit, one owner per
  connection, waiters in order. The sessions: each request answered once and in order, messages
  written in order, one close callback. The clients: legal event histories, one completion per call,
  repetition only when safe and over a new connection, bounded retries, no connection shared by two
  calls and each made to the host and port, with or without TLS, its calls name, destructors that
  close and abort everything. The ring buffer of two slots or more refines a first-in first-out queue; of one slot it does
  not, which is proved too. The server as a
  whole: after a stop nobody is admitted, no WebSocket is forgotten and each HTTP connection answers
  at most one more request and ends. The example programs: what the echo server answers to every
  request, which upgrades it accepts, that a connection's replies are the ones its messages call for
  and in their order, and what becomes of the weather handler's request.

  \<^bold>\<open>Bounds and fuel.\<close> Loops are structural or have a measure; the pattern loop is a partial
  function proved total. Sizes are natural numbers where the code's \<^verbatim>\<open>size_t\<close> cannot wrap
  and words or explicit moduli where it can: the retry counter, address masks, the progress
  difference, the conversion of durations.

  \<^bold>\<open>Parameters.\<close> RE2, Boost.URL, Asio addresses, Beast's header fields, OpenSSL and the parser
  are arguments of the definitions, with their documented laws as hypotheses (\<open>re2_ok\<close>,
  \<open>asio_ok\<close>, \<open>fields_ok\<close>, \<open>urls_ok\<close>), each shown satisfiable by a concrete instance.
  Preparing a message is one of these: \<open>bf_refuses\<close> says for which status and body
  \<^verbatim>\<open>prepare_payload\<close> throws, by its law only for a body with a status that allows none, so every
  send of a response may throw and its callers show where the exception goes. \<open>he_refuses\<close> says
  the same of a client's request; it stands for every exception of the request's construction, which
  nothing catches: the process ends and the call has no next state.

  \<^bold>\<open>Not modelled.\<close> CaBundle.cpp is generated data. Log.h and Log.cpp only configure a logging
  library. examples/websocket_client/main.cpp only prints from callbacks and calls
  \<^verbatim>\<open>sendText\<close> and \<^verbatim>\<open>close\<close>, which \<^theory_text>\<open>WebSocketClient\<close> covers in any order.
  Socket I/O, timers' clocks and thread creation are the environment of the steps. The rounding of doubles in \<^verbatim>\<open>retryDelay\<close> is exact
  here, the counters of the ring buffer and the attempts of a client connection do not wrap, and the
  ring buffer's memory orders are taken to give sequentially consistent steps. A callback run inline
  is a step of its own after the handler that calls it. An operation on a socket that was closed, or a
  lookup that was cancelled, fails unless it had completed before, its handler queued: for the close of
  a client's connection that is being made this is the condition \<open>cut_result_ok\<close> of its steps, with
  \<open>wk_arrived\<close> the completed ones.
\<close>

end
